(* ===== verification/Prelude.thy ===== *)
theory Prelude
  imports Main "HOL-Library.Word" "HOL-Library.List_Lexorder" "HOL-Library.Sublist" "HOL-Library.AList"
begin

text \<open>
  What every component shares: bytes and machine words, Go's byte slices (which may be
  \<^verbatim>\<open>nil\<close>), the order of \<^verbatim>\<open>bytes.Compare\<close>, the little-endian codecs of
  \<^verbatim>\<open>encoding/binary\<close>, the reading primitives of \<^verbatim>\<open>io\<close>, and the sorted
  association lists that are the abstract view of a memtable and of an SSTable. The theorem
  collections \<open>go_simps\<close> and \<open>word_codec\<close> gather the facts the component proofs rewrite with.
\<close>

unbundle bit_operations_syntax

named_theorems go_simps "what the modelled operations of the Go library compute"
named_theorems word_codec "facts about the little-endian codecs"

section \<open>Bytes, words and slices\<close>

type_synonym byte = "8 word"
type_synonym bytes = "8 word list"
type_synonym u32 = "32 word"
type_synonym u64 = "64 word"

text \<open>
  A Go \<^verbatim>\<open>[]byte\<close> is \<open>None\<close> when it is \<^verbatim>\<open>nil\<close>. The engine tells a nil value (a
  tombstone) from an empty one, so values are slices; keys are only ever compared, hashed and
  copied, where nil and empty agree, so keys are plain byte lists.
\<close>

type_synonym slice = "bytes option"

definition bytes_of :: "slice \<Rightarrow> bytes" where
  "bytes_of s = (case s of None \<Rightarrow> [] | Some b \<Rightarrow> b)"

lemma bytes_of_simps [simp]: "bytes_of None = []" "bytes_of (Some b) = b"
  by (simp_all add: bytes_of_def)

section \<open>The order of bytes.Compare\<close>

fun bytes_Compare :: "bytes \<Rightarrow> bytes \<Rightarrow> int" where
  "bytes_Compare [] [] = 0"
| "bytes_Compare [] (y # ys) = -1"
| "bytes_Compare (x # xs) [] = 1"
| "bytes_Compare (x # xs) (y # ys) =
     (if x < y then -1 else if y < x then 1 else bytes_Compare xs ys)"

lemma bytes_Compare_eq_0 [go_simps, simp]: "bytes_Compare a b = 0 \<longleftrightarrow> a = b"
  by (induction a b rule: bytes_Compare.induct) auto

lemma bytes_Compare_less_0 [go_simps, simp]: "bytes_Compare a b < 0 \<longleftrightarrow> a < b"
  by (induction a b rule: bytes_Compare.induct) auto

lemma bytes_Compare_greater_0 [go_simps, simp]: "0 < bytes_Compare a b \<longleftrightarrow> b < a"
  by (induction a b rule: bytes_Compare.induct) auto

lemma bytes_Compare_le_0 [go_simps, simp]: "bytes_Compare a b \<le> 0 \<longleftrightarrow> a \<le> b"
  using bytes_Compare_greater_0 [of a b] by (simp only: not_less [symmetric])

section \<open>Little-endian integers\<close>

definition PutUint32 :: "u32 \<Rightarrow> bytes" where
  "PutUint32 w = [ucast w, ucast (drop_bit 8 w), ucast (drop_bit 16 w), ucast (drop_bit 24 w)]"

definition Uint32 :: "bytes \<Rightarrow> u32" where
  "Uint32 b = ucast (b ! 0) OR push_bit 8 (ucast (b ! 1)) OR push_bit 16 (ucast (b ! 2))
     OR push_bit 24 (ucast (b ! 3))"

definition PutUint64 :: "u64 \<Rightarrow> bytes" where
  "PutUint64 w = [ucast w, ucast (drop_bit 8 w), ucast (drop_bit 16 w), ucast (drop_bit 24 w),
     ucast (drop_bit 32 w), ucast (drop_bit 40 w), ucast (drop_bit 48 w), ucast (drop_bit 56 w)]"

definition Uint64 :: "bytes \<Rightarrow> u64" where
  "Uint64 b = ucast (b ! 0) OR push_bit 8 (ucast (b ! 1)) OR push_bit 16 (ucast (b ! 2))
     OR push_bit 24 (ucast (b ! 3)) OR push_bit 32 (ucast (b ! 4)) OR push_bit 40 (ucast (b ! 5))
     OR push_bit 48 (ucast (b ! 6)) OR push_bit 56 (ucast (b ! 7))"

lemma length_PutUint32 [word_codec, simp]: "length (PutUint32 w) = 4"
  by (simp add: PutUint32_def)

lemma length_PutUint64 [word_codec, simp]: "length (PutUint64 w) = 8"
  by (simp add: PutUint64_def)

lemma unat_of_nat_u32 [word_codec]: "n < 2 ^ 32 \<Longrightarrow> unat (of_nat n :: u32) = n"
  by (simp add: unat_of_nat)

lemma unat_u32_bound: "unat (w :: u32) < 2 ^ 32"
  by (rule order_less_le_trans [OF unsigned_less]) simp

lemma bit_byte_lane:
  fixes w :: "'a::len word"
  shows "bit (push_bit k (ucast (ucast (drop_bit k w) :: byte) :: 'a word)) n
    \<longleftrightarrow> n < LENGTH('a) \<and> k \<le> n \<and> n < k + 8 \<and> bit w n"
  by (auto simp: bit_simps le_diff_conv less_diff_conv2 dest: bit_imp_le_length)

lemma bit_byte_lane_0:
  fixes w :: "'a::len word"
  shows "bit (ucast (ucast w :: byte) :: 'a word) n \<longleftrightarrow> n < LENGTH('a) \<and> n < 8 \<and> bit w n"
  using bit_byte_lane [of 0 w n] by simp

lemma Uint32_PutUint32 [word_codec, simp]: "Uint32 (PutUint32 w) = w"
proof (rule bit_word_eqI)
  fix n
  assume n: "n < LENGTH(32)"
  then have "bit (Uint32 (PutUint32 w)) n \<longleftrightarrow>
      bit w n \<and> (n < 8 \<or> 8 \<le> n \<and> n < 16 \<or> 16 \<le> n \<and> n < 24 \<or> 24 \<le> n \<and> n < 32)"
    unfolding Uint32_def PutUint32_def by (simp add: bit_or_iff bit_byte_lane bit_byte_lane_0) blast
  moreover have "n < 8 \<or> 8 \<le> n \<and> n < 16 \<or> 16 \<le> n \<and> n < 24 \<or> 24 \<le> n \<and> n < 32"
    using n by simp linarith
  ultimately show "bit (Uint32 (PutUint32 w)) n = bit w n" by blast
qed

lemma Uint64_PutUint64 [word_codec, simp]: "Uint64 (PutUint64 w) = w"
proof (rule bit_word_eqI)
  fix n
  assume n: "n < LENGTH(64)"
  then have "bit (Uint64 (PutUint64 w)) n \<longleftrightarrow>
      bit w n \<and> (n < 8 \<or> 8 \<le> n \<and> n < 16 \<or> 16 \<le> n \<and> n < 24 \<or> 24 \<le> n \<and> n < 32
        \<or> 32 \<le> n \<and> n < 40 \<or> 40 \<le> n \<and> n < 48 \<or> 48 \<le> n \<and> n < 56 \<or> 56 \<le> n \<and> n < 64)"
    unfolding Uint64_def PutUint64_def by (simp add: bit_or_iff bit_byte_lane bit_byte_lane_0) blast
  moreover have "n < 8 \<or> 8 \<le> n \<and> n < 16 \<or> 16 \<le> n \<and> n < 24 \<or> 24 \<le> n \<and> n < 32
        \<or> 32 \<le> n \<and> n < 40 \<or> 40 \<le> n \<and> n < 48 \<or> 48 \<le> n \<and> n < 56 \<or> 56 \<le> n \<and> n < 64"
    using n by simp linarith
  ultimately show "bit (Uint64 (PutUint64 w)) n = bit w n" by blast
qed

text \<open>Conversely, every block of four or eight bytes is the encoding of the integer it holds.\<close>

lemma bit_byte_high: "8 \<le> n \<Longrightarrow> \<not> bit (b :: byte) n"
  by (auto dest: bit_imp_le_length)

lemma PutUint32_Uint32 [word_codec]:
  assumes "length b = 4"
  shows "PutUint32 (Uint32 b) = b"
proof -
  obtain b0 b1 b2 b3 where b: "b = [b0, b1, b2, b3]"
    using assms by (auto simp: length_Suc_conv numeral_eq_Suc)
  have w: "bit (Uint32 b) n \<longleftrightarrow> bit b0 n \<or> 8 \<le> n \<and> bit b1 (n - 8) \<or> 16 \<le> n \<and> bit b2 (n - 16)
      \<or> 24 \<le> n \<and> bit b3 (n - 24)" if "n < 32" for n
    using that by (simp add: b Uint32_def bit_simps less_imp_diff_less)
  have lane: "bit (ucast (drop_bit k (Uint32 b)) :: byte) n \<longleftrightarrow> bit (Uint32 b) (k + n)"
    if "n < 8" "k \<le> 24" for k n
    using that by (simp add: bit_simps)
  have lane0: "bit (ucast (Uint32 b) :: byte) n \<longleftrightarrow> bit (Uint32 b) n" if "n < 8" for n
    using that by (simp add: bit_simps)
  have "ucast (drop_bit 0 (Uint32 b)) = b0" "ucast (drop_bit 8 (Uint32 b)) = b1"
    "ucast (drop_bit 16 (Uint32 b)) = b2" "ucast (drop_bit 24 (Uint32 b)) = b3"
    by (rule bit_word_eqI; simp add: lane lane0 w bit_byte_high)+
  then show ?thesis by (simp add: PutUint32_def b)
qed

lemma PutUint64_Uint64 [word_codec]:
  assumes "length b = 8"
  shows "PutUint64 (Uint64 b) = b"
proof -
  obtain b0 b1 b2 b3 b4 b5 b6 b7 where b: "b = [b0, b1, b2, b3, b4, b5, b6, b7]"
    using assms by (auto simp: length_Suc_conv numeral_eq_Suc)
  have w: "bit (Uint64 b) n \<longleftrightarrow> bit b0 n \<or> 8 \<le> n \<and> bit b1 (n - 8) \<or> 16 \<le> n \<and> bit b2 (n - 16)
      \<or> 24 \<le> n \<and> bit b3 (n - 24) \<or> 32 \<le> n \<and> bit b4 (n - 32) \<or> 40 \<le> n \<and> bit b5 (n - 40)
      \<or> 48 \<le> n \<and> bit b6 (n - 48) \<or> 56 \<le> n \<and> bit b7 (n - 56)" if "n < 64" for n
    using that by (simp add: b Uint64_def bit_simps less_imp_diff_less)
  have lane: "bit (ucast (drop_bit k (Uint64 b)) :: byte) n \<longleftrightarrow> bit (Uint64 b) (k + n)"
    if "n < 8" "k \<le> 56" for k n
    using that by (simp add: bit_simps)
  have lane0: "bit (ucast (Uint64 b) :: byte) n \<longleftrightarrow> bit (Uint64 b) n" if "n < 8" for n
    using that by (simp add: bit_simps)
  have "ucast (drop_bit 0 (Uint64 b)) = b0" "ucast (drop_bit 8 (Uint64 b)) = b1"
    "ucast (drop_bit 16 (Uint64 b)) = b2" "ucast (drop_bit 24 (Uint64 b)) = b3"
    "ucast (drop_bit 32 (Uint64 b)) = b4" "ucast (drop_bit 40 (Uint64 b)) = b5"
    "ucast (drop_bit 48 (Uint64 b)) = b6" "ucast (drop_bit 56 (Uint64 b)) = b7"
    by (rule bit_word_eqI; simp add: lane lane0 w bit_byte_high)+
  then show ?thesis by (simp add: PutUint64_def b)
qed

section \<open>Reading from a file or a stream\<close>

text \<open>
  A reader is the list of bytes it has not delivered yet. \<^verbatim>\<open>io.ReadFull\<close> distinguishes
  a stream that ends before the first byte (\<open>EOF\<close>) from one that ends inside the requested
  block (\<open>UnexpectedEOF\<close>); \<^verbatim>\<open>binary.Read\<close> of a fixed-size integer is a \<open>ReadFull\<close> of
  its width. Asking for no byte succeeds everywhere.
\<close>

datatype read_err = EOF | UnexpectedEOF

definition ReadFull :: "nat \<Rightarrow> bytes \<Rightarrow> read_err + bytes \<times> bytes" where
  "ReadFull n rest =
     (if n = 0 then Inr ([], rest)
      else if rest = [] then Inl EOF
      else if length rest < n then Inl UnexpectedEOF
      else Inr (take n rest, drop n rest))"

definition Read_u32 :: "bytes \<Rightarrow> read_err + u32 \<times> bytes" where
  "Read_u32 rest =
     (case ReadFull 4 rest of Inl e \<Rightarrow> Inl e | Inr (b, rest') \<Rightarrow> Inr (Uint32 b, rest'))"

definition Read_u64 :: "bytes \<Rightarrow> read_err + u64 \<times> bytes" where
  "Read_u64 rest =
     (case ReadFull 8 rest of Inl e \<Rightarrow> Inl e | Inr (b, rest') \<Rightarrow> Inr (Uint64 b, rest'))"

lemma ReadFull_append [go_simps]: "n = length a \<Longrightarrow> ReadFull n (a @ r) = Inr (a, r)"
  by (auto simp: ReadFull_def)

lemma ReadFull_short: "length r < n \<Longrightarrow> \<exists>e. ReadFull n r = Inl e"
  by (auto simp: ReadFull_def)

lemma ReadFull_Inr: "ReadFull n r = Inr (a, r') \<longleftrightarrow> r = a @ r' \<and> length a = n"
  by (auto simp: ReadFull_def)

lemma ReadFull_Inl: "ReadFull n r = Inl e \<Longrightarrow> length r < n"
  by (auto simp: ReadFull_def split: if_splits)

lemma ReadFull_extend: "ReadFull n r = Inr (a, r') \<Longrightarrow> ReadFull n (r @ q) = Inr (a, r' @ q)"
  by (auto simp: ReadFull_Inr)

lemma Read_u32_append [go_simps, simp]: "Read_u32 (PutUint32 w @ r) = Inr (w, r)"
  by (simp add: Read_u32_def ReadFull_append)

lemma Read_u64_append [go_simps, simp]: "Read_u64 (PutUint64 w @ r) = Inr (w, r)"
  by (simp add: Read_u64_def ReadFull_append)

lemma Read_u32_length: "Read_u32 r = Inr (w, r') \<Longrightarrow> length r = length r' + 4"
  by (auto simp: Read_u32_def ReadFull_Inr split: sum.splits)

lemma Read_u64_length: "Read_u64 r = Inr (w, r') \<Longrightarrow> length r = length r' + 8"
  by (auto simp: Read_u64_def ReadFull_Inr split: sum.splits)

lemma Read_u32_short: "length r < 4 \<Longrightarrow> \<exists>e. Read_u32 r = Inl e"
  using ReadFull_short [of r 4] by (auto simp: Read_u32_def)

lemma nth_upd: "a < length xs \<Longrightarrow> xs[p := x] ! a = (if a = p then x else xs ! a)"
  by (cases "p < length xs") (auto simp: nth_list_update)

section \<open>Sorted association lists\<close>

text \<open>
  The abstract content of a memtable or an SSTable: its entries in strictly increasing key
  order. \<open>alist_put\<close> is the reference insertion the skip list is compared with.
\<close>

abbreviation ksorted :: "('k::linorder \<times> 'v) list \<Rightarrow> bool" where
  "ksorted es \<equiv> sorted_wrt (<) (map fst es)"

fun alist_put :: "'k::linorder \<Rightarrow> 'v \<Rightarrow> ('k \<times> 'v) list \<Rightarrow> ('k \<times> 'v) list" where
  "alist_put k v [] = [(k, v)]"
| "alist_put k v (e # es) =
     (if k < fst e then (k, v) # e # es
      else if k = fst e then (k, v) # es
      else e # alist_put k v es)"

lemma map_of_alist_put [simp]: "map_of (alist_put k v es) = (map_of es)(k \<mapsto> v)"
  by (induction es) (auto simp: fun_eq_iff)

lemma keys_alist_put: "fst ` set (alist_put k v es) = insert k (fst ` set es)"
  by (induction es) auto

lemma ksorted_alist_put: "ksorted es \<Longrightarrow> ksorted (alist_put k v es)"
proof (induction es)
  case Nil
  then show ?case by simp
next
  case (Cons e es)
  then show ?case
    using keys_alist_put [of k v es] by (auto simp: image_iff)
qed

lemma alist_put_append:
  "\<forall>e \<in> set as. fst e < k \<Longrightarrow> alist_put k v (as @ bs) = as @ alist_put k v bs"
  by (induction as) auto

lemma alist_put_front: "\<forall>e \<in> set bs. k < fst e \<Longrightarrow> alist_put k v bs = (k, v) # bs"
  by (cases bs) auto

lemma ksorted_distinct: "ksorted es \<Longrightarrow> distinct (map fst es)"
  by (induction es) auto

lemma ksorted_map_of: "ksorted es \<Longrightarrow> (k, v) \<in> set es \<Longrightarrow> map_of es k = Some v"
  by (rule map_of_is_SomeI [OF ksorted_distinct])

section \<open>Go maps\<close>

text \<open>
  A Go map is an association list without duplicate keys; \<open>AList.update\<close> is an assignment and
  \<open>map_puts\<close> a sequence of them. The order of the list is not the order of a \<^verbatim>\<open>range\<close> loop,
  which the callers take as an argument.
\<close>

definition map_puts :: "('k \<times> 'v) list \<Rightarrow> ('k \<times> 'v) list \<Rightarrow> ('k \<times> 'v) list" where
  "map_puts es m = fold (\<lambda>(k, v). AList.update k v) es m"

lemma map_puts_simps [simp]:
  "map_puts [] m = m" "map_puts ((k, v) # es) m = map_puts es (AList.update k v m)"
  "map_puts (es @ es') m = map_puts es' (map_puts es m)"
  by (simp_all add: map_puts_def)

lemma map_of_map_puts: "map_of (map_puts es m) = map_of m ++ map_of (rev es)"
  by (induction es arbitrary: m)
    (auto simp: map_add_def fun_eq_iff AList.update_conv' split: option.splits)

lemma distinct_map_puts: "distinct (map fst m) \<Longrightarrow> distinct (map fst (map_puts es m))"
  by (induction es arbitrary: m) (auto simp: AList.update_keys)

lemma update_fresh: "k \<notin> fst ` set m \<Longrightarrow> AList.update k v m = m @ [(k, v)]"
  by (induction m) auto

lemma map_puts_fresh: "distinct (map fst (m @ es)) \<Longrightarrow> map_puts es m = m @ es"
  by (induction es arbitrary: m) (auto simp: update_fresh)

section \<open>The interface of an ordered store\<close>

text \<open>
  What the engine relies on when it uses a memtable: \<open>put\<close> and \<open>get\<close> return (no panic, no
  endless loop) whenever the invariant holds, and they act on the sorted content as insertion
  and lookup. \<open>put_all\<close> is the loop that replays recovered entries into a fresh memtable.
\<close>

fun put_all :: "('k \<Rightarrow> 'v \<Rightarrow> 'm \<Rightarrow> 'm option) \<Rightarrow> ('k \<times> 'v) list \<Rightarrow> 'm \<Rightarrow> 'm option" where
  "put_all put [] m = Some m"
| "put_all put ((k, v) # kvs) m =
     (case put k v m of None \<Rightarrow> None | Some m' \<Rightarrow> put_all put kvs m')"

locale ordered_store =
  fixes invar :: "'m \<Rightarrow> bool"
    and put :: "'k::linorder \<Rightarrow> 'v \<Rightarrow> 'm \<Rightarrow> 'm option"
    and get :: "'k \<Rightarrow> 'm \<Rightarrow> 'v option option"
    and content :: "'m \<Rightarrow> ('k \<times> 'v) list"
  assumes put_spec: "invar m \<Longrightarrow>
      \<exists>m'. put k v m = Some m' \<and> invar m' \<and> content m' = alist_put k v (content m)"
    and get_spec: "invar m \<Longrightarrow> get k m = Some (map_of (content m) k)"
    and content_sorted: "invar m \<Longrightarrow> ksorted (content m)"
begin

lemma put_total: "invar m \<Longrightarrow> \<exists>m'. put k v m = Some m'"
  using put_spec by blast

lemma put_invar: "invar m \<Longrightarrow> put k v m = Some m' \<Longrightarrow> invar m'"
  using put_spec [of m k v] by auto

lemma put_content: "invar m \<Longrightarrow> put k v m = Some m' \<Longrightarrow> content m' = alist_put k v (content m)"
  using put_spec [of m k v] by auto

lemma get_after_put:
  "invar m \<Longrightarrow> put k v m = Some m' \<Longrightarrow>
    get k' m' = Some (if k' = k then Some v else map_of (content m) k')"
  using put_spec [of m k v] by (auto simp: get_spec)

lemma put_all_spec:
  "invar m \<Longrightarrow>
    \<exists>m'. put_all put kvs m = Some m' \<and> invar m' \<and>
      content m' = fold (\<lambda>(k, v). alist_put k v) kvs (content m)"
proof (induction kvs arbitrary: m)
  case Nil
  then show ?case by simp
next
  case (Cons kv kvs)
  obtain k v where kv: "kv = (k, v)" by force
  from Cons.prems obtain m1 where
    "put k v m = Some m1" "invar m1" "content m1 = alist_put k v (content m)"
    using put_spec by blast
  with Cons.IH [of m1] show ?case by (auto simp: kv)
qed

end

lemma map_of_fold_alist_put:
  "map_of (fold (\<lambda>(k, v). alist_put k v) kvs es) = map_of es ++ map_of (rev kvs)"
  by (induction kvs arbitrary: es) (auto simp: fun_eq_iff map_add_def split: option.splits)

section \<open>The interface of a key-value store\<close>

text \<open>
  What the replicated state machine relies on when it drives the storage engine: a write returns,
  with an error or without; without one it sets its key and leaves the others, with one it leaves
  every lookup as it was. \<open>run_steps\<close> runs a sequence of commands and collects their responses,
  none of them stopping the sequence; \<open>updates\<close> is the effect of writes on a map.
\<close>

fun run_steps :: "('a \<Rightarrow> 's \<Rightarrow> ('e option \<times> 's) option) \<Rightarrow> 'a list \<Rightarrow> 's
    \<Rightarrow> ('e option list \<times> 's) option" where
  "run_steps f [] st = Some ([], st)"
| "run_steps f (x # xs) st =
     (case f x st of
        None \<Rightarrow> None
      | Some (r, st1) \<Rightarrow>
          (case run_steps f xs st1 of None \<Rightarrow> None | Some (rs, st2) \<Rightarrow> Some (r # rs, st2)))"

definition updates :: "('k \<times> 'v) list \<Rightarrow> ('k \<Rightarrow> 'v) \<Rightarrow> 'k \<Rightarrow> 'v" where
  "updates kvs = fold (\<lambda>(k, v) m. m(k := v)) kvs"

lemma updates_simps [simp]:
  "updates [] m = m" "updates ((k, v) # kvs) m = updates kvs (m(k := v))"
  "updates (kvs @ kvs') m = updates kvs' (updates kvs m)"
  by (simp_all add: updates_def)

lemma updates_apply: "updates kvs m k = (case map_of (rev kvs) k of None \<Rightarrow> m k | Some v \<Rightarrow> v)"
  by (induction kvs arbitrary: m) (auto split: option.splits)

text \<open>Replaying a log on a store that has already taken it in changes nothing.\<close>

lemma updates_idem: "updates kvs (updates kvs m) = updates kvs m"
  by (auto simp: updates_apply fun_eq_iff split: option.splits)

definition accepted :: "'a list \<Rightarrow> 'e option list \<Rightarrow> 'a list" where
  "accepted ws rs = map fst (filter (\<lambda>(w, r). r = None) (zip ws rs))"

lemma accepted_simps [simp]:
  "accepted [] rs = []" "accepted ws [] = []" "accepted (w # ws) (None # rs) = w # accepted ws rs"
  "accepted (w # ws) (Some e # rs) = accepted ws rs"
  by (simp_all add: accepted_def)

lemma accepted_all: "list_all (\<lambda>r. r = None) rs \<Longrightarrow> length rs = length ws \<Longrightarrow> accepted ws rs = ws"
  by (induction ws arbitrary: rs) (auto simp: length_Suc_conv)

lemma accepted_same:
  "map (\<lambda>r. r = None) rs = map (\<lambda>r. r = None) rs' \<Longrightarrow> accepted ws rs = accepted ws rs'"
proof (induction ws arbitrary: rs rs')
  case (Cons w ws)
  then show ?case
  proof (cases rs)
    case (Cons r rs1)
    then obtain r' rs1' where rs': "rs' = r' # rs1'" "(r = None) = (r' = None)"
      "map (\<lambda>r. r = None) rs1 = map (\<lambda>r. r = None) rs1'" using Cons.prems by (cases rs') auto
    with Cons.IH [OF rs'(3)] Cons show ?thesis by (cases r; cases r') simp_all
  qed simp
qed simp

locale kv_store =
  fixes invar :: "'s \<Rightarrow> bool"
    and upd :: "'k \<Rightarrow> 'v \<Rightarrow> 's \<Rightarrow> ('e option \<times> 's) option"
    and lookup :: "'s \<Rightarrow> 'k \<Rightarrow> 'v"
  assumes write_total: "invar st \<Longrightarrow> \<exists>r st'. upd k v st = Some (r, st')"
    and write_invar: "invar st \<Longrightarrow> upd k v st = Some (r, st') \<Longrightarrow> invar st'"
    and write_ok: "invar st \<Longrightarrow> upd k v st = Some (None, st') \<Longrightarrow> lookup st' = (lookup st)(k := v)"
    and write_failed: "invar st \<Longrightarrow> upd k v st = Some (Some e, st') \<Longrightarrow> lookup st' = lookup st"
begin

lemma write_lookup:
  "invar st \<Longrightarrow> upd k v st = Some (r, st') \<Longrightarrow>
    lookup st' = (if r = None then (lookup st)(k := v) else lookup st)"
  by (cases r) (auto simp: write_ok write_failed)

text \<open>Commands that are a write, or are refused without an effect.\<close>

lemma run_steps_spec:
  assumes f: "\<And>x st. f x st = (case eff x of None \<Rightarrow> Some (Some (bad x), st) | Some (k, v) \<Rightarrow> upd k v st)"
  shows "invar st \<Longrightarrow> \<exists>rs st'. run_steps f xs st = Some (rs, st') \<and> length rs = length xs \<and> invar st' \<and>
    lookup st' = updates (List.map_filter eff (accepted xs rs)) (lookup st)"
proof (induction xs arbitrary: st)
  case Nil
  then show ?case by (simp add: List.map_filter_def)
next
  case (Cons x xs)
  have "\<exists>r st1. f x st = Some (r, st1) \<and> invar st1 \<and>
      lookup st1 = updates (List.map_filter eff (accepted [x] [r])) (lookup st)"
  proof (cases "eff x")
    case None
    with Cons.prems show ?thesis by (simp add: f List.map_filter_def)
  next
    case (Some kv)
    obtain k v where kv: "kv = (k, v)" by force
    obtain r st1 where r: "upd k v st = Some (r, st1)" using write_total [OF Cons.prems] by blast
    with write_invar [OF Cons.prems r] write_lookup [OF Cons.prems r] Some kv show ?thesis
      by (cases r) (auto simp: f List.map_filter_def)
  qed
  then obtain r st1 where r: "f x st = Some (r, st1)" "invar st1"
      "lookup st1 = updates (List.map_filter eff (accepted [x] [r])) (lookup st)"
    by blast
  obtain rs st2 where "run_steps f xs st1 = Some (rs, st2)" "length rs = length xs" "invar st2"
    "lookup st2 = updates (List.map_filter eff (accepted xs rs)) (lookup st1)"
    using Cons.IH [OF r(2)] by blast
  with r show ?case by (cases r) (auto simp: List.map_filter_def)
qed

end

section \<open>The interface of a framed log\<close>

text \<open>
  The WAL, the data block of an SSTable and the snapshot stream are all sequences of
  self-delimiting frames. A codec of frames decodes what it encoded and hands the rest back, and
  it refuses a frame that is cut short. From this every client gets: decoding is in step with
  encoding, and whatever prefix of a log survives a crash is a whole number of frames followed
  by a tail the decoder refuses.
\<close>

locale framing =
  fixes enc :: "'a \<Rightarrow> bytes"
    and dec :: "bytes \<Rightarrow> ('a \<times> bytes) option"
    and fits :: "'a \<Rightarrow> bool"
  assumes dec_enc: "fits x \<Longrightarrow> dec (enc x @ rest) = Some (x, rest)"
    and dec_torn: "fits x \<Longrightarrow> strict_prefix p (enc x) \<Longrightarrow> dec p = None"
begin

lemma dec_frames:
  "fits x \<Longrightarrow> dec (concat (map enc (x # xs)) @ t) = Some (x, concat (map enc xs) @ t)"
  by (simp add: dec_enc)

lemma torn_frames:
  "list_all fits xs \<Longrightarrow> prefix p (concat (map enc xs)) \<Longrightarrow>
    \<exists>ys t. prefix ys xs \<and> p = concat (map enc ys) @ t \<and> (dec t = None \<or> t = [])"
proof (induction xs arbitrary: p)
  case Nil
  then show ?case by simp
next
  case (Cons x xs)
  from Cons.prems(2) have "prefix p (enc x) \<or> (\<exists>q. p = enc x @ q \<and> prefix q (concat (map enc xs)))"
    by (simp add: prefix_append)
  then consider "p = enc x" | "strict_prefix p (enc x)" |
      q where "p = enc x @ q" "prefix q (concat (map enc xs))"
    unfolding strict_prefix_def by blast
  then show ?case
  proof cases
    case 1
    then have "prefix [x] (x # xs) \<and> p = concat (map enc [x]) @ []" by simp
    then show ?thesis by blast
  next
    case 2
    with Cons.prems(1) have "dec p = None" using dec_torn by auto
    then have "prefix [] (x # xs) \<and> p = concat (map enc []) @ p \<and> dec p = None" by simp
    then show ?thesis by blast
  next
    case (3 q)
    with Cons.prems obtain ys t where
      "prefix ys xs" "q = concat (map enc ys) @ t" "dec t = None \<or> t = []"
      using Cons.IH [of q] by auto
    with 3 have "prefix (x # ys) (x # xs) \<and> p = concat (map enc (x # ys)) @ t \<and> (dec t = None \<or> t = [])"
      by simp
    then show ?thesis by blast
  qed
qed

end

text \<open>A loop that consumes frames until the decoder refuses.\<close>

locale framed_loop = framing enc dec fits
  for enc :: "'a \<Rightarrow> bytes" and dec and fits +
  fixes loop :: "bytes \<Rightarrow> 's \<Rightarrow> 's"
    and update :: "'a \<Rightarrow> 's \<Rightarrow> 's"
  assumes loop_more: "dec b = Some (x, rest) \<Longrightarrow> loop b s = loop rest (update x s)"
    and loop_done: "dec b = None \<Longrightarrow> loop b s = s"
    and dec_empty: "dec [] = None"
begin

lemma loop_frames:
  "list_all fits xs \<Longrightarrow> dec t = None \<Longrightarrow> loop (concat (map enc xs) @ t) s = fold update xs s"
proof (induction xs arbitrary: s)
  case Nil
  then show ?case by (simp add: loop_done)
next
  case (Cons x xs)
  then have "dec (concat (map enc (x # xs)) @ t) = Some (x, concat (map enc xs) @ t)"
    by (intro dec_frames) simp
  with Cons show ?case using loop_more by simp
qed

lemma loop_crash:
  assumes "list_all fits xs" "prefix p (concat (map enc xs))"
  shows "\<exists>ys t. prefix ys xs \<and> p = concat (map enc ys) @ t \<and> dec t = None \<and>
    loop p s = fold update ys s"
proof -
  obtain ys t where yt: "prefix ys xs" "p = concat (map enc ys) @ t" "dec t = None"
    using torn_frames [OF assms] dec_empty by blast
  from yt(1) assms(1) have "list_all fits ys" by (auto simp: prefix_def)
  with yt show ?thesis using loop_frames by blast
qed

end

end
