(* ===== verification/Files.thy ===== *)
theory Files
  imports Prelude
begin

text \<open>
  The part of Go's \<^verbatim>\<open>os\<close> package the engine uses, on a POSIX file system: a directory maps
  names to inodes, an open file keeps its inode, so a file stays readable through a handle after
  its name was removed or renamed over. Opening, creating, renaming, removing, \<^verbatim>\<open>Stat\<close> by
  name, writing, syncing and closing consult the fault schedule: \<open>Fault n\<close> makes the call fail (a
  write after \<open>n\<close> bytes), an empty schedule means that nothing fails from here on. Reading and
  examining a file that is already open do not fail. Error values keep the chain that \<^verbatim>\<open>fmt.Errorf\<close> builds with \<^verbatim>\<open>%w\<close>.
  A process crash keeps every byte written before it.
\<close>

datatype error = ErrIO | ErrNotExist | ErrClosed | ErrRead read_err | Errorf string | Wrap string error

datatype fault = NoFault | Fault nat

record fs =
  fs_dir :: "(string \<times> nat) list"
  fs_data :: "bytes list"
  fs_faults :: "fault list"

abbreviation quiet :: "fs \<Rightarrow> bool" where
  "quiet s \<equiv> fs_faults s = []"

definition fs_wf :: "fs \<Rightarrow> bool" where
  "fs_wf s \<longleftrightarrow> distinct (map fst (fs_dir s)) \<and> (\<forall>i \<in> snd ` set (fs_dir s). i < length (fs_data s))"

definition fs_file :: "fs \<Rightarrow> string \<Rightarrow> bytes option" where
  "fs_file s name = map_option (\<lambda>i. fs_data s ! i) (map_of (fs_dir s) name)"

definition pop_fault :: "fs \<Rightarrow> fault \<times> fs" where
  "pop_fault s =
     (case fs_faults s of [] \<Rightarrow> (NoFault, s) | f # fl \<Rightarrow> (f, s\<lparr>fs_faults := fl\<rparr>))"

section \<open>Opening, creating, renaming, removing\<close>

definition new_inode :: "string \<Rightarrow> fs \<Rightarrow> nat \<times> fs" where
  "new_inode name s =
     (length (fs_data s),
      s\<lparr>fs_data := fs_data s @ [[]], fs_dir := AList.update name (length (fs_data s)) (fs_dir s)\<rparr>)"

text \<open>\<^verbatim>\<open>os.Open\<close>\<close>

definition os_Open :: "string \<Rightarrow> fs \<Rightarrow> (error + nat) \<times> fs" where
  "os_Open name s0 =
     (case pop_fault s0 of
        (Fault _, s) \<Rightarrow> (Inl ErrIO, s)
      | (NoFault, s) \<Rightarrow>
          (case map_of (fs_dir s) name of None \<Rightarrow> (Inl ErrNotExist, s) | Some i \<Rightarrow> (Inr i, s)))"

text \<open>\<^verbatim>\<open>os.Create\<close>: an existing file is truncated and keeps its inode.\<close>

definition os_Create :: "string \<Rightarrow> fs \<Rightarrow> (error + nat) \<times> fs" where
  "os_Create name s0 =
     (case pop_fault s0 of
        (Fault _, s) \<Rightarrow> (Inl ErrIO, s)
      | (NoFault, s) \<Rightarrow>
          (case map_of (fs_dir s) name of
             None \<Rightarrow> (let (i, s') = new_inode name s in (Inr i, s'))
           | Some i \<Rightarrow> (Inr i, s\<lparr>fs_data := (fs_data s)[i := []]\<rparr>)))"

text \<open>\<^verbatim>\<open>os.OpenFile\<close> with \<^verbatim>\<open>O_APPEND|O_CREATE|O_RDWR\<close>\<close>

definition os_OpenFile_append :: "string \<Rightarrow> fs \<Rightarrow> (error + nat) \<times> fs" where
  "os_OpenFile_append name s0 =
     (case pop_fault s0 of
        (Fault _, s) \<Rightarrow> (Inl ErrIO, s)
      | (NoFault, s) \<Rightarrow>
          (case map_of (fs_dir s) name of
             None \<Rightarrow> (let (i, s') = new_inode name s in (Inr i, s'))
           | Some i \<Rightarrow> (Inr i, s)))"

definition os_Rename :: "string \<Rightarrow> string \<Rightarrow> fs \<Rightarrow> error option \<times> fs" where
  "os_Rename old new s0 =
     (case pop_fault s0 of
        (Fault _, s) \<Rightarrow> (Some ErrIO, s)
      | (NoFault, s) \<Rightarrow>
          (case map_of (fs_dir s) old of
             None \<Rightarrow> (Some ErrNotExist, s)
           | Some i \<Rightarrow>
               (None, if old = new then s
                      else s\<lparr>fs_dir := AList.update new i (AList.delete old (fs_dir s))\<rparr>)))"

definition os_Remove :: "string \<Rightarrow> fs \<Rightarrow> error option \<times> fs" where
  "os_Remove name s0 =
     (case pop_fault s0 of
        (Fault _, s) \<Rightarrow> (Some ErrIO, s)
      | (NoFault, s) \<Rightarrow>
          (case map_of (fs_dir s) name of
             None \<Rightarrow> (Some ErrNotExist, s)
           | Some _ \<Rightarrow> (None, s\<lparr>fs_dir := AList.delete name (fs_dir s)\<rparr>)))"

text \<open>\<^verbatim>\<open>os.Stat\<close> of a name: the size of the file.\<close>

definition os_Stat :: "string \<Rightarrow> fs \<Rightarrow> (error + int) \<times> fs" where
  "os_Stat name s0 =
     (case pop_fault s0 of
        (Fault _, s) \<Rightarrow> (Inl ErrIO, s)
      | (NoFault, s) \<Rightarrow>
          (case fs_file s name of
             None \<Rightarrow> (Inl ErrNotExist, s)
           | Some b \<Rightarrow> (Inr (int (length b)), s)))"

text \<open>\<^verbatim>\<open>filepath.Join\<close> of a cleaned directory and a file name.\<close>

definition filepath_Join :: "string \<Rightarrow> string \<Rightarrow> string" where
  "filepath_Join d n = d @ ''/'' @ n"

definition os_MkdirAll :: "string \<Rightarrow> fs \<Rightarrow> error option \<times> fs" where
  "os_MkdirAll d s0 =
     (case pop_fault s0 of (Fault _, s) \<Rightarrow> (Some ErrIO, s) | (NoFault, s) \<Rightarrow> (None, s))"

text \<open>\<^verbatim>\<open>os.RemoveAll\<close>: a failure may leave a part of the tree removed.\<close>

definition in_tree :: "string \<Rightarrow> string \<Rightarrow> bool" where
  "in_tree d name \<longleftrightarrow> name = d \<or> prefix (d @ ''/'') name"

definition os_RemoveAll :: "string \<Rightarrow> fs \<Rightarrow> error option \<times> fs" where
  "os_RemoveAll d s0 =
     (case pop_fault s0 of
        (Fault n, s) \<Rightarrow>
          (Some ErrIO, s\<lparr>fs_dir := filter (\<lambda>e. \<not> in_tree d (fst e)) (take n (fs_dir s)) @ drop n (fs_dir s)\<rparr>)
      | (NoFault, s) \<Rightarrow> (None, s\<lparr>fs_dir := filter (\<lambda>e. \<not> in_tree d (fst e)) (fs_dir s)\<rparr>))"

section \<open>Operations on an open file\<close>

text \<open>
  Writes go to the end of the file: the WAL is opened with \<^verbatim>\<open>O_APPEND\<close>, and a file that
  \<^verbatim>\<open>os.Create\<close> opened is written from the start to the end without seeking.
\<close>

definition file_Write :: "nat \<Rightarrow> bytes \<Rightarrow> fs \<Rightarrow> error option \<times> fs" where
  "file_Write i b s0 =
     (case pop_fault s0 of
        (Fault n, s) \<Rightarrow> (Some ErrIO, s\<lparr>fs_data := (fs_data s)[i := fs_data s ! i @ take n b]\<rparr>)
      | (NoFault, s) \<Rightarrow> (None, s\<lparr>fs_data := (fs_data s)[i := fs_data s ! i @ b]\<rparr>))"

definition file_Sync :: "nat \<Rightarrow> fs \<Rightarrow> error option \<times> fs" where
  "file_Sync i s0 =
     (case pop_fault s0 of (Fault _, s) \<Rightarrow> (Some ErrIO, s) | (NoFault, s) \<Rightarrow> (None, s))"

definition file_Close :: "nat \<Rightarrow> fs \<Rightarrow> error option \<times> fs" where
  "file_Close i s0 =
     (case pop_fault s0 of (Fault _, s) \<Rightarrow> (Some ErrIO, s) | (NoFault, s) \<Rightarrow> (None, s))"

definition file_Truncate :: "nat \<Rightarrow> nat \<Rightarrow> fs \<Rightarrow> error option \<times> fs" where
  "file_Truncate i n s0 =
     (case pop_fault s0 of
        (Fault _, s) \<Rightarrow> (Some ErrIO, s)
      | (NoFault, s) \<Rightarrow>
          (None, s\<lparr>fs_data := (fs_data s)[i := take n (fs_data s ! i)
                                             @ replicate (n - length (fs_data s ! i)) 0]\<rparr>))"

section \<open>What the calls do when nothing fails\<close>

lemma pop_fault_quiet [simp]: "quiet s \<Longrightarrow> pop_fault s = (NoFault, s)"
  by (simp add: pop_fault_def)

lemma pop_fault_same:
  "pop_fault s = (f, s1) \<Longrightarrow> fs_data s1 = fs_data s \<and> fs_dir s1 = fs_dir s"
  by (auto simp: pop_fault_def split: list.splits)

lemmas os_defs = os_Open_def os_Create_def os_OpenFile_append_def os_Rename_def os_Remove_def
  os_Stat_def os_MkdirAll_def os_RemoveAll_def
lemmas file_defs = file_Write_def file_Sync_def file_Close_def file_Truncate_def

text \<open>An inode in range stays in range, whatever fails.\<close>

lemma file_Write_quiet [go_simps]:
  "quiet s \<Longrightarrow> file_Write i b s = (None, s\<lparr>fs_data := (fs_data s)[i := fs_data s ! i @ b]\<rparr>)"
  by (simp add: file_defs)

lemma file_Sync_quiet [go_simps]: "quiet s \<Longrightarrow> file_Sync i s = (None, s)"
  by (simp add: file_defs)

lemma file_Close_quiet [go_simps]: "quiet s \<Longrightarrow> file_Close i s = (None, s)"
  by (simp add: file_defs)

end
