(* ===== verification/Wal.thy ===== *)
theory Wal
  imports Files
begin

text \<open>
  The write-ahead log, \<^verbatim>\<open>src/engine/wal/wal.go\<close>: the record format with its CRC-32,
  appending an entry, and recovery, which replays the longest valid prefix of the file and cuts
  the rest off. The pool of byte buffers only reuses memory and is not modelled.
\<close>

section \<open>CRC-32 (hash/crc32, IEEE polynomial, reflected)\<close>

definition crc_bit :: "u32 \<Rightarrow> u32" where
  "crc_bit c = (if bit c 0 then drop_bit 1 c XOR 0xEDB88320 else drop_bit 1 c)"

definition crc_byte :: "u32 \<Rightarrow> byte \<Rightarrow> u32" where
  "crc_byte c b =
     crc_bit (crc_bit (crc_bit (crc_bit (crc_bit (crc_bit (crc_bit (crc_bit (c XOR ucast b))))))))"

text \<open>\<^verbatim>\<open>crc32.Update\<close>, which is also \<^verbatim>\<open>Write\<close> on a hash of the current sum.\<close>

definition crc32_Update :: "u32 \<Rightarrow> bytes \<Rightarrow> u32" where
  "crc32_Update crc p = NOT (foldl crc_byte (NOT crc) p)"

definition crc32_ChecksumIEEE :: "bytes \<Rightarrow> u32" where
  "crc32_ChecksumIEEE p = crc32_Update 0 p"

lemma crc32_Update_append: "crc32_Update (crc32_Update c a) b = crc32_Update c (a @ b)"
  by (simp add: crc32_Update_def)

section \<open>The log\<close>

record WAL =
  wal_file :: nat
  wal_open :: bool
  wal_path :: string
  sequenceNumber :: u64

definition NewWAL :: "string \<Rightarrow> fs \<Rightarrow> (error + WAL) \<times> fs" where
  "NewWAL path s =
     (case os_OpenFile_append path s of
        (Inl e, s1) \<Rightarrow> (Inl e, s1)
      | (Inr i, s1) \<Rightarrow>
          (Inr \<lparr>wal_file = i, wal_open = True, wal_path = path, sequenceNumber = 0\<rparr>, s1))"

text \<open>
  The checksum \<^verbatim>\<open>WriteEntry\<close> stores: the hash is written the key and then the value.
\<close>

definition entry_checksum :: "bytes \<Rightarrow> bytes \<Rightarrow> u32" where
  "entry_checksum key val = crc32_Update (crc32_Update 0 key) val"

text \<open>Sequence number, key size, value size, checksum, key, value.\<close>

definition wal_record :: "u64 \<Rightarrow> bytes \<Rightarrow> bytes \<Rightarrow> bytes" where
  "wal_record sn key val =
     PutUint64 sn @ PutUint32 (of_nat (length key)) @ PutUint32 (of_nat (length val))
       @ PutUint32 (entry_checksum key val) @ key @ val"

text \<open>A write to a closed file fails; otherwise one write of the whole record, then a sync.\<close>

definition WriteEntry :: "bytes \<Rightarrow> slice \<Rightarrow> WAL \<Rightarrow> fs \<Rightarrow> error option \<times> WAL \<times> fs" where
  "WriteEntry key val w s =
     (let w1 = w\<lparr>sequenceNumber := sequenceNumber w + 1\<rparr>
      in if \<not> wal_open w1 then (Some ErrClosed, w1, s)
         else (case file_Write (wal_file w1) (wal_record (sequenceNumber w1) key (bytes_of val)) s of
                 (Some e, s1) \<Rightarrow> (Some e, w1, s1)
               | (None, s1) \<Rightarrow>
                   (case file_Sync (wal_file w1) s1 of (r, s2) \<Rightarrow> (r, w1, s2))))"

definition WAL_Close :: "WAL \<Rightarrow> fs \<Rightarrow> error option \<times> WAL \<times> fs" where
  "WAL_Close w s =
     (if \<not> wal_open w then (Some ErrClosed, w, s)
      else (case file_Close (wal_file w) s of (r, s1) \<Rightarrow> (r, w\<lparr>wal_open := False\<rparr>, s1)))"

definition WAL_Path :: "WAL \<Rightarrow> string" where
  "WAL_Path w = wal_path w"

section \<open>Recovery\<close>

text \<open>
  The reads of one turn of the recovery loop. \<open>None\<close> is a \<^verbatim>\<open>break\<close>: a header, key or
  value that the file cuts short, or a checksum that does not match.
\<close>

definition read_record :: "bytes \<Rightarrow> ((u64 \<times> bytes \<times> bytes) \<times> bytes) option" where
  "read_record rest =
     (case ReadFull 20 rest of
        Inl _ \<Rightarrow> None
      | Inr (header, r1) \<Rightarrow>
          (let seqNum = Uint64 (take 8 header);
               keySize = Uint32 (take 4 (drop 8 header));
               valSize = Uint32 (take 4 (drop 12 header));
               expectedChecksum = Uint32 (take 4 (drop 16 header))
           in (case ReadFull (unat keySize) r1 of
                 Inl _ \<Rightarrow> None
               | Inr (key, r2) \<Rightarrow>
                   (case ReadFull (unat valSize) r2 of
                      Inl _ \<Rightarrow> None
                    | Inr (val, r3) \<Rightarrow>
                        if crc32_ChecksumIEEE (key @ val) \<noteq> expectedChecksum then None
                        else Some ((seqNum, key, val), r3)))))"

type_synonym recovery = "(bytes \<times> slice) list \<times> u64 \<times> int"

text \<open>
  What a valid record does to the recovered map, the sequence number and \<^verbatim>\<open>validOffset\<close>.
  The size \<^verbatim>\<open>20 + keySize + valSize\<close> is computed in 32 bits before it is widened.
\<close>

definition apply_record :: "u64 \<times> bytes \<times> bytes \<Rightarrow> recovery \<Rightarrow> recovery" where
  "apply_record r st =
     (case r of (seqNum, key, val) \<Rightarrow>
        (case st of (data, sn, validOffset) \<Rightarrow>
           (AList.update key (Some val) data,
            if seqNum > sn then seqNum else sn,
            validOffset + uint (20 + of_nat (length key) + of_nat (length val) :: u32))))"

lemma read_record_length: "read_record rest = Some (r, rest') \<Longrightarrow> length rest' < length rest"
  by (auto simp: read_record_def ReadFull_Inr Let_def split: sum.splits if_splits)

function recover_loop :: "bytes \<Rightarrow> recovery \<Rightarrow> recovery" where
  "recover_loop rest st =
     (case read_record rest of
        None \<Rightarrow> st
      | Some (r, rest') \<Rightarrow> recover_loop rest' (apply_record r st))"
  by pat_completeness auto
termination
  by (relation "measure (\<lambda>(rest, st). length rest)") (auto dest: read_record_length)

declare recover_loop.simps [simp del]

definition Recover :: "WAL \<Rightarrow> fs \<Rightarrow> (error + (bytes \<times> slice) list) \<times> WAL \<times> fs" where
  "Recover w s =
     (if \<not> wal_open w then (Inl ErrClosed, w, s)
      else (case recover_loop (fs_data s ! wal_file w) ([], sequenceNumber w, 0) of
              (data, sn, validOffset) \<Rightarrow>
                (let w1 = w\<lparr>sequenceNumber := sn\<rparr>
                 in (case file_Truncate (wal_file w1) (nat validOffset) s of
                       (Some e, s1) \<Rightarrow> (Inl e, w1, s1)
                     | (None, s1) \<Rightarrow> (Inr data, w1, s1)))))"

section \<open>The record format\<close>

definition wal_fits :: "u64 \<times> bytes \<times> bytes \<Rightarrow> bool" where
  "wal_fits r = (case r of (_, key, val) \<Rightarrow> length key < 2 ^ 32 \<and> length val < 2 ^ 32)"

definition enc_record :: "u64 \<times> bytes \<times> bytes \<Rightarrow> bytes" where
  "enc_record r = (case r of (sn, key, val) \<Rightarrow> wal_record sn key val)"

lemma entry_checksum_eq: "entry_checksum key val = crc32_ChecksumIEEE (key @ val)"
  by (simp add: entry_checksum_def crc32_ChecksumIEEE_def crc32_Update_append)

lemma wal_record_split:
  "wal_record sn key val = (PutUint64 sn @ PutUint32 (of_nat (length key))
     @ PutUint32 (of_nat (length val)) @ PutUint32 (entry_checksum key val)) @ key @ val"
  by (simp add: wal_record_def)

lemma length_wal_record [simp]: "length (wal_record sn key val) = 20 + length key + length val"
  by (simp add: wal_record_def)

lemma read_record_wal_record:
  assumes "length key < 2 ^ 32" "length val < 2 ^ 32"
  shows "read_record (wal_record sn key val @ rest) = Some ((sn, key, val), rest)"
proof -
  let ?h = "PutUint64 sn @ PutUint32 (of_nat (length key))
     @ PutUint32 (of_nat (length val)) @ PutUint32 (entry_checksum key val)"
  have "ReadFull 20 (?h @ (key @ val @ rest)) = Inr (?h, key @ val @ rest)"
    by (rule ReadFull_append) simp
  then show ?thesis
    using assms
    by (simp add: read_record_def wal_record_def ReadFull_append unat_of_nat_u32 entry_checksum_eq Let_def)
qed

text \<open>Every accepted record is one that \<^verbatim>\<open>WriteEntry\<close> could have written.\<close>

lemma read_record_sound:
  assumes "read_record b = Some ((sn, key, val), rest)"
  shows "b = wal_record sn key val @ rest \<and> wal_fits (sn, key, val)"
proof -
  from assms obtain h where h: "length h = 20" "b = h @ key @ val @ rest"
    "sn = Uint64 (take 8 h)"
    "length key = unat (Uint32 (take 4 (drop 8 h)))"
    "length val = unat (Uint32 (take 4 (drop 12 h)))"
    "crc32_ChecksumIEEE (key @ val) = Uint32 (take 4 (drop 16 h))"
    by (auto simp: read_record_def Let_def ReadFull_Inr split: sum.splits if_splits)
  have "take 8 h @ take 4 (drop 8 h) @ take 4 (drop 12 h) @ take 4 (drop 16 h) = h"
    using h(1) by (auto simp: list_eq_iff_nth_eq nth_append)
  moreover have "PutUint64 sn = take 8 h"
    "PutUint32 (of_nat (length key)) = take 4 (drop 8 h)"
    "PutUint32 (of_nat (length val)) = take 4 (drop 12 h)"
    "PutUint32 (entry_checksum key val) = take 4 (drop 16 h)"
    using h by (simp_all add: PutUint64_Uint64 PutUint32_Uint32 entry_checksum_eq)
  ultimately have "wal_record sn key val = h @ key @ val"
    by (simp add: wal_record_def)
  with h unat_u32_bound show ?thesis by (simp add: wal_fits_def)
qed

text \<open>A record cut anywhere before its end is refused.\<close>

lemma read_record_torn:
  assumes "length key < 2 ^ 32" "length val < 2 ^ 32" "strict_prefix p (wal_record sn key val)"
  shows "read_record p = None"
proof (cases "read_record p")
  case (Some x)
  then obtain r rest where x: "read_record p = Some (r, rest)" by (cases x) auto
  obtain q where q: "wal_record sn key val = p @ q" "q \<noteq> []"
    using assms(3) by (metis prefix_order.less_le prefixE append_Nil2)
  obtain sn' key' val' where r: "r = (sn', key', val')" by (metis prod_cases3)
  from read_record_sound [OF x [unfolded r]] have "read_record (p @ q) = Some (r, rest @ q)"
    by (simp add: r wal_fits_def read_record_wal_record)
  with q read_record_wal_record [OF assms(1,2), of sn "[]"] show ?thesis by simp
qed simp

lemma recover_loop_more: "read_record b = Some (r, rest) \<Longrightarrow>
    recover_loop b st = recover_loop rest (apply_record r st)"
  by (subst recover_loop.simps) simp

lemma recover_loop_done: "read_record b = None \<Longrightarrow> recover_loop b st = st"
  by (subst recover_loop.simps) simp

lemma read_record_Nil [simp]: "read_record [] = None"
  by (simp add: read_record_def ReadFull_def)

interpretation wal_log: framed_loop enc_record read_record wal_fits recover_loop apply_record
proof
  fix r rest p
  assume "wal_fits r"
  then show "read_record (enc_record r @ rest) = Some (r, rest)"
    by (auto simp: enc_record_def wal_fits_def read_record_wal_record split: prod.splits)
next
  fix r p
  assume "wal_fits r" "strict_prefix p (enc_record r)"
  then show "read_record p = None"
    by (auto simp: enc_record_def wal_fits_def intro: read_record_torn split: prod.splits)
qed (simp_all add: recover_loop_more recover_loop_done)

text \<open>
  Any file splits into the valid records recovery replays and a tail it refuses.
\<close>

lemma recover_loop_split:
  "\<exists>rs tail. b = concat (map enc_record rs) @ tail \<and> list_all wal_fits rs \<and>
    read_record tail = None \<and> recover_loop b st = fold apply_record rs st"
proof (induction b st rule: recover_loop.induct)
  case (1 b st)
  show ?case
  proof (cases "read_record b")
    case None
    then have "b = concat (map enc_record []) @ b \<and> list_all wal_fits [] \<and> read_record b = None
        \<and> recover_loop b st = fold apply_record [] st"
      by (simp add: recover_loop_done)
    then show ?thesis by blast
  next
    case (Some x)
    then obtain sn key val rest where x: "read_record b = Some ((sn, key, val), rest)"
      by (metis prod_cases3 surj_pair)
    from 1 [OF x refl] obtain rs tail where
      "rest = concat (map enc_record rs) @ tail" "list_all wal_fits rs" "read_record tail = None"
      "recover_loop rest (apply_record (sn, key, val) st)
         = fold apply_record rs (apply_record (sn, key, val) st)"
      by auto
    with read_record_sound [OF x] recover_loop_more [OF x, of st]
    have "b = concat (map enc_record ((sn, key, val) # rs)) @ tail
        \<and> list_all wal_fits ((sn, key, val) # rs) \<and> read_record tail = None
        \<and> recover_loop b st = fold apply_record ((sn, key, val) # rs) st"
      by (simp add: enc_record_def)
    then show ?thesis by blast
  qed
qed

text \<open>The three components of a replay: last write wins, sequence numbers, the valid length.\<close>

abbreviation rec_entry :: "u64 \<times> bytes \<times> bytes \<Rightarrow> bytes \<times> slice" where
  "rec_entry r \<equiv> (fst (snd r), Some (snd (snd r)))"

lemma replay_data:
  "fst (fold apply_record rs (data, sn, off)) = map_puts (map rec_entry rs) data"
  by (induction rs arbitrary: data sn off) (auto simp: apply_record_def)

lemma replay_seq:
  "fst (snd (fold apply_record rs (data, sn, off))) = fold max (map fst rs) sn"
  by (induction rs arbitrary: data sn off) (auto simp: apply_record_def max_def)

lemma uint_record_size:
  "20 + length key + length val < 2 ^ 32 \<Longrightarrow>
    uint (20 + of_nat (length key) + of_nat (length val) :: u32) = int (20 + length key + length val)"
proof -
  assume a: "20 + length key + length val < 2 ^ 32"
  have "(20 + of_nat (length key) + of_nat (length val) :: u32) = of_nat (20 + length key + length val)"
    by simp
  then show ?thesis using a by (simp only: uint_nat unat_of_nat_u32)
qed

lemma replay_offset:
  "length (concat (map enc_record rs)) < 2 ^ 32 \<Longrightarrow>
    snd (snd (fold apply_record rs (data, sn, off))) = off + int (length (concat (map enc_record rs)))"
proof (induction rs arbitrary: data sn off)
  case Nil
  then show ?case by simp
next
  case (Cons r rs)
  obtain q key val where r: "r = (q, key, val)" by (metis prod_cases3)
  have "20 + length key + length val < 2 ^ 32"
    using Cons.prems by (simp add: r enc_record_def)
  with Cons show ?case
    by (simp add: r apply_record_def enc_record_def uint_record_size)
qed

lemma fold_max_ge: "n \<le> fold max xs (n :: 'a::linorder)"
  by (induction xs arbitrary: n) (auto intro: order_trans [OF max.cobounded2])

lemma fold_max_mem: "x \<in> set xs \<Longrightarrow> x \<le> fold max xs (n :: 'a::linorder)"
  by (induction xs arbitrary: n) (auto intro: order_trans [OF max.cobounded1 fold_max_ge])

lemma fold_max_idem: "fold max xs (fold max xs n) = fold max xs (n :: 'a::linorder)"
proof -
  have "fold max ys m = m" if "\<forall>y \<in> set ys. y \<le> m" for ys and m :: 'a
    using that by (induction ys) auto
  then show ?thesis using fold_max_mem by blast
qed

section \<open>Correctness of the log\<close>

lemma WriteEntry_file:
  assumes "wal_open w" "wal_file w < length (fs_data s)" "WriteEntry key val w s = (r, w', s')"
  shows "\<exists>p. prefix p (wal_record (sequenceNumber w + 1) key (bytes_of val)) \<and>
    fs_data s' = (fs_data s)[wal_file w := fs_data s ! wal_file w @ p] \<and>
    (r = None \<longrightarrow> p = wal_record (sequenceNumber w + 1) key (bytes_of val)) \<and>
    w' = w\<lparr>sequenceNumber := sequenceNumber w + 1\<rparr> \<and> fs_dir s' = fs_dir s"
proof -
  let ?rec = "wal_record (sequenceNumber w + 1) key (bytes_of val)"
  obtain f s1 where f: "pop_fault s = (f, s1)" by force
  note same = pop_fault_same [OF f]
  show ?thesis
  proof (cases f)
    case NoFault
    let ?s2 = "s1\<lparr>fs_data := (fs_data s1)[wal_file w := fs_data s1 ! wal_file w @ ?rec]\<rparr>"
    obtain g s3 where g: "pop_fault ?s2 = (g, s3)" by force
    from pop_fault_same [OF g] f same NoFault g assms show ?thesis
      by (auto simp: WriteEntry_def file_defs Let_def split: fault.splits)
  next
    case (Fault n)
    with f same assms have "s' = s1\<lparr>fs_data := (fs_data s1)[wal_file w := fs_data s1 ! wal_file w @ take n ?rec]\<rparr>"
      "r = Some ErrIO" "w' = w\<lparr>sequenceNumber := sequenceNumber w + 1\<rparr>"
      by (simp_all add: WriteEntry_def file_defs Let_def)
    with same show ?thesis by (intro exI [of _ "take n ?rec"]) (simp add: take_is_prefix)
  qed
qed

lemma Recover_records:
  assumes "wal_open w" "quiet s" "wal_file w < length (fs_data s)"
    and "fs_data s ! wal_file w = concat (map enc_record rs) @ tail"
    and "list_all wal_fits rs" "read_record tail = None"
    and "length (concat (map enc_record rs)) < 2 ^ 32"
  shows "Recover w s =
    (Inr (map_puts (map rec_entry rs) []),
     w\<lparr>sequenceNumber := fold max (map fst rs) (sequenceNumber w)\<rparr>,
     s\<lparr>fs_data := (fs_data s)[wal_file w := concat (map enc_record rs)]\<rparr>)"
proof -
  obtain data sn off where f:
    "fold apply_record rs ([], sequenceNumber w, 0) = (data, sn, off)"
    by (metis prod_cases3)
  have "recover_loop (fs_data s ! wal_file w) ([], sequenceNumber w, 0) = (data, sn, off)"
    unfolding assms(4) f [symmetric] by (rule wal_log.loop_frames [OF assms(5,6)])
  moreover have "data = map_puts (map rec_entry rs) []"
    using replay_data [of rs "[]" "sequenceNumber w" 0] by (simp add: f)
  moreover have "sn = fold max (map fst rs) (sequenceNumber w)"
    using replay_seq [of rs "[]" "sequenceNumber w" 0] by (simp add: f)
  moreover have "nat off = length (concat (map enc_record rs))"
    using replay_offset [OF assms(7), of "[]" "sequenceNumber w" 0] by (simp add: f)
  ultimately show ?thesis
    using assms(1,2,4) by (simp add: Recover_def file_defs Let_def)
qed

text \<open>
  C12: crash recovery. Whatever prefix \<open>p\<close> of a sequence of records the crash left in the file,
  recovery returns, replays exactly the records that are complete in \<open>p\<close> with the last write of
  a key winning, raises the sequence number to the largest one seen, and truncates the file to
  those records.
\<close>

theorem wal_crash_recovery:
  assumes "wal_open w" "quiet s" "wal_file w < length (fs_data s)"
    and "list_all wal_fits rs" "prefix (fs_data s ! wal_file w) (concat (map enc_record rs))"
    and "length (fs_data s ! wal_file w) < 2 ^ 32"
  shows "\<exists>ys. prefix ys rs \<and> Recover w s =
    (Inr (map_puts (map rec_entry ys) []),
     w\<lparr>sequenceNumber := fold max (map fst ys) (sequenceNumber w)\<rparr>,
     s\<lparr>fs_data := (fs_data s)[wal_file w := concat (map enc_record ys)]\<rparr>)
    \<and> (\<forall>z zs. rs = ys @ z # zs \<longrightarrow>
         length (fs_data s ! wal_file w) < length (concat (map enc_record (ys @ [z]))))"
proof -
  obtain ys t where yt: "prefix ys rs" "fs_data s ! wal_file w = concat (map enc_record ys) @ t"
    "read_record t = None"
    using wal_log.loop_crash [OF assms(4,5)] by blast
  have "list_all wal_fits ys" using yt(1) assms(4) by (auto simp: prefix_def)
  then have "Recover w s = (Inr (map_puts (map rec_entry ys) []),
     w\<lparr>sequenceNumber := fold max (map fst ys) (sequenceNumber w)\<rparr>,
     s\<lparr>fs_data := (fs_data s)[wal_file w := concat (map enc_record ys)]\<rparr>)"
    using Recover_records [OF assms(1,2,3) yt(2) _ yt(3)] assms(6) yt(2) by simp
  moreover have "length (fs_data s ! wal_file w) < length (concat (map enc_record (ys @ [z])))"
    if rs: "rs = ys @ z # zs" for z zs
  proof (rule ccontr)
    assume "\<not> ?thesis"
    then have "length (enc_record z) \<le> length t" using yt(2) by simp
    moreover have "prefix t (enc_record z @ concat (map enc_record zs))"
      using assms(5) yt(2) rs by simp
    ultimately have "prefix (enc_record z) t"
      using prefix_length_prefix [of "enc_record z" "enc_record z @ concat (map enc_record zs)" t]
      by simp
    then obtain q where "t = enc_record z @ q" by (auto simp: prefix_def)
    moreover have "wal_fits z" using assms(4) rs by simp
    ultimately show False using wal_log.dec_enc [of z q] yt(3) by simp
  qed
  ultimately show ?thesis using yt(1) by blast
qed

text \<open>
  C40: recovery of an arbitrary file. On any file below 4 GiB, however damaged, recovery returns;
  it keeps the longest prefix of well-formed, checksummed records, and recovering again gives
  the same map and leaves the file as it is.
\<close>

theorem wal_recover_any_file:
  assumes "wal_open w" "quiet s" "wal_file w < length (fs_data s)"
    and "length (fs_data s ! wal_file w) < 2 ^ 32"
  shows "\<exists>rs tail w' s'. fs_data s ! wal_file w = concat (map enc_record rs) @ tail \<and>
    read_record tail = None \<and>
    Recover w s = (Inr (map_puts (map rec_entry rs) []), w', s') \<and>
    fs_data s' ! wal_file w = concat (map enc_record rs) \<and>
    Recover w' s' = (Inr (map_puts (map rec_entry rs) []), w', s')"
proof -
  obtain rs tail where rt: "fs_data s ! wal_file w = concat (map enc_record rs) @ tail"
    "list_all wal_fits rs" "read_record tail = None"
    using recover_loop_split by blast
  let ?w = "w\<lparr>sequenceNumber := fold max (map fst rs) (sequenceNumber w)\<rparr>"
  let ?s = "s\<lparr>fs_data := (fs_data s)[wal_file w := concat (map enc_record rs)]\<rparr>"
  have len: "length (concat (map enc_record rs)) < 2 ^ 32" using assms(4) rt(1) by simp
  have r1: "Recover w s = (Inr (map_puts (map rec_entry rs) []), ?w, ?s)"
    by (rule Recover_records [OF assms(1-3) rt(1,2,3) len])
  have "Recover ?w ?s = (Inr (map_puts (map rec_entry rs) []), ?w, ?s)"
    using Recover_records [of ?w ?s rs "[]"] assms rt len by (simp add: fold_max_idem)
  with r1 rt assms(3) show ?thesis by force
qed

text \<open>
  An append is atomic. On a log of valid records, \<^verbatim>\<open>WriteEntry\<close> under any fault schedule
  leaves a file from which recovery returns either the old content or the old content with the
  new entry, and the latter whenever \<^verbatim>\<open>WriteEntry\<close> reported success.
\<close>

lemma wal_write_atomic:
  assumes "wal_open w" "wal_file w < length (fs_data s)"
    and "fs_data s ! wal_file w = concat (map enc_record rs)"
    and "list_all wal_fits (rs @ [(sequenceNumber w + 1, key, bytes_of val)])"
    and "length (fs_data s ! wal_file w) + 20 + length key + length (bytes_of val) < 2 ^ 32"
    and "WriteEntry key val w s = (r, w', s')"
  shows "fst (Recover w' (s'\<lparr>fs_faults := []\<rparr>)) \<in>
      {Inr (map_puts (map rec_entry rs) []),
       Inr (AList.update key (Some (bytes_of val)) (map_puts (map rec_entry rs) []))} \<and>
    (r = None \<longrightarrow> fst (Recover w' (s'\<lparr>fs_faults := []\<rparr>)) =
       Inr (AList.update key (Some (bytes_of val)) (map_puts (map rec_entry rs) [])))"
proof -
  let ?z = "(sequenceNumber w + 1, key, bytes_of val)"
  obtain p where p: "prefix p (enc_record ?z)"
    "fs_data s' = (fs_data s)[wal_file w := fs_data s ! wal_file w @ p]"
    "r = None \<longrightarrow> p = enc_record ?z" "w' = w\<lparr>sequenceNumber := sequenceNumber w + 1\<rparr>"
    using WriteEntry_file [OF assms(1,2,6)] by (auto simp: enc_record_def)
  have whole: "fst (Recover w' (s'\<lparr>fs_faults := []\<rparr>)) =
      Inr (AList.update key (Some (bytes_of val)) (map_puts (map rec_entry rs) []))" if "p = enc_record ?z"
    using Recover_records [of w' "s'\<lparr>fs_faults := []\<rparr>" "rs @ [?z]" "[]"] assms p that
    by (simp add: enc_record_def)
  have part: "fst (Recover w' (s'\<lparr>fs_faults := []\<rparr>)) = Inr (map_puts (map rec_entry rs) [])"
    if "p \<noteq> enc_record ?z"
  proof -
    have "read_record p = None"
      using wal_log.dec_torn [of ?z p] assms(4) p(1) that by (simp add: strict_prefix_def)
    then show ?thesis
      using Recover_records [of w' "s'\<lparr>fs_faults := []\<rparr>" rs p] assms p by simp
  qed
  from whole part p(3) show ?thesis by blast
qed

text \<open>
  C35: a write that fails part way is not undone, and later records go behind it. When the bytes of
  the torn record do not happen to make up a record with those that follow, the next write is
  acknowledged and recovery does not find it: only the records before the torn one come back.
\<close>

theorem wal_write_behind_torn_record:
  assumes "wal_open w" "wal_file w < length (fs_data s)" "fs_faults s = [Fault n]"
    and "fs_data s ! wal_file w = concat (map enc_record rs)" "list_all wal_fits rs"
    and "length (concat (map enc_record rs)) < 2 ^ 32"
    and "read_record (take n (enc_record (sequenceNumber w + 1, k1, bytes_of v1))
           @ enc_record (sequenceNumber w + 2, k2, bytes_of v2)) = None"
  shows "\<exists>w1 s1 w2 s2. WriteEntry k1 v1 w s = (Some ErrIO, w1, s1) \<and> WriteEntry k2 v2 w1 s1 = (None, w2, s2) \<and>
    fst (Recover w2 s2) = Inr (map_puts (map rec_entry rs) [])"
proof -
  let ?t = "take n (enc_record (sequenceNumber w + 1, k1, bytes_of v1))"
  let ?w1 = "w\<lparr>sequenceNumber := sequenceNumber w + 1\<rparr>" and ?w2 = "w\<lparr>sequenceNumber := sequenceNumber w + 2\<rparr>"
  let ?s1 = "s\<lparr>fs_faults := [], fs_data := (fs_data s)[wal_file w := fs_data s ! wal_file w @ ?t]\<rparr>"
  let ?s2 = "s\<lparr>fs_faults := [], fs_data := (fs_data s)[wal_file w := fs_data s ! wal_file w @ ?t
      @ enc_record (sequenceNumber w + 2, k2, bytes_of v2)]\<rparr>"
  have "WriteEntry k1 v1 w s = (Some ErrIO, ?w1, ?s1)"
    using assms(1,3) by (simp add: WriteEntry_def Let_def file_defs pop_fault_def enc_record_def)
  moreover have "WriteEntry k2 v2 ?w1 ?s1 = (None, ?w2, ?s2)"
    using assms(1,2) by (simp add: WriteEntry_def Let_def file_defs enc_record_def add.assoc)
  moreover have "fst (Recover ?w2 ?s2) = Inr (map_puts (map rec_entry rs) [])"
    using Recover_records [of ?w2 ?s2 rs "?t @ enc_record (sequenceNumber w + 2, k2, bytes_of v2)"] assms by simp
  ultimately show ?thesis by blast
qed

section \<open>Instances\<close>

text \<open>A log of one record, open for appending.\<close>

definition sample_wal :: WAL where
  "sample_wal = \<lparr>wal_file = 0, wal_open = True, wal_path = ''wal.log'', sequenceNumber = 1\<rparr>"

definition sample_log :: "fault list \<Rightarrow> fs" where
  "sample_log fl = \<lparr>fs_dir = [(''wal.log'', 0)], fs_data = [enc_record (1, [1], [7])], fs_faults = fl\<rparr>"

theorem wal_crash_recovery_witness:
  "\<exists>ys. prefix ys [(1, [1], [7]), (2, [2], [8])] \<and>
    fst (Recover sample_wal (sample_log [])) = Inr (map_puts (map rec_entry ys) [])"
proof -
  have "list_all wal_fits [(1, [1], [7]), (2, [2], [8])]" by (simp add: wal_fits_def)
  moreover have "prefix (fs_data (sample_log []) ! wal_file sample_wal)
      (concat (map enc_record [(1, [1], [7]), (2, [2], [8])]))"
    by (simp add: sample_log_def sample_wal_def)
  ultimately show ?thesis
    using wal_crash_recovery [of sample_wal "sample_log []" "[(1, [1], [7]), (2, [2], [8])]"]
    by (auto simp: sample_wal_def sample_log_def enc_record_def)
qed

theorem wal_recover_any_file_witness:
  "\<exists>m w' s'. Recover sample_wal (sample_log []) = (Inr m, w', s') \<and> Recover w' s' = (Inr m, w', s')"
  using wal_recover_any_file [of sample_wal "sample_log []"]
  by (force simp: sample_wal_def sample_log_def enc_record_def)

text \<open>A write of two records, the first cut after 3 bytes.\<close>

theorem wal_write_behind_torn_record_witness:
  "\<exists>w1 s1 w2 s2. WriteEntry [1] (Some [8]) sample_wal (sample_log [Fault 3]) = (Some ErrIO, w1, s1) \<and>
    WriteEntry [2] (Some [9]) w1 s1 = (None, w2, s2) \<and> fst (Recover w2 s2) = Inr [([1], Some [7])]"
proof -
  have "read_record (take 3 (enc_record (2, [1], [8])) @ enc_record (3, [2], [9])) = None"
    by (simp add: enc_record_def wal_record_def read_record_def PutUint64_def PutUint32_def Uint32_def ReadFull_def)
  then show ?thesis
    using wal_write_behind_torn_record [of sample_wal "sample_log [Fault 3]" 3 "[(1, [1], [7])]" "[1]" "Some [8]"
        "[2]" "Some [9]"]
    by (simp add: sample_wal_def sample_log_def wal_fits_def) (simp add: enc_record_def)
qed

end
