(* ===== verification/Bloom.thy ===== *)
theory Bloom
  imports Prelude
begin

text \<open>
  The Bloom filter of an SSTable, \<^verbatim>\<open>src/engine/sstable/bloom.go\<close>. The hash is a third-party
  package, so \<^verbatim>\<open>murmur3.Sum32\<close> is the parameter \<open>murmur\<close> of every operation that hashes;
  nothing is assumed about it. A modulus of zero panics in Go and is \<open>None\<close> here.
\<close>

unbundle bit_operations_syntax

definition bitsPerKey :: nat where
  "bitsPerKey = 10"

definition kProbes :: nat where
  "kProbes = 7"

record BloomFilter =
  bitset :: bytes

definition NewBloomFilter :: "nat \<Rightarrow> BloomFilter" where
  "NewBloomFilter numKeys0 =
     (let numKeys = (if numKeys0 < 64 then 64 else numKeys0);
          bits = numKeys * bitsPerKey;
          nbytes = (bits + 7) div 8
      in \<lparr>bitset = replicate nbytes 0\<rparr>)"

definition HashKey :: "(bytes \<Rightarrow> u32) \<Rightarrow> bytes \<Rightarrow> u32" where
  "HashKey murmur key = murmur key"

text \<open>\<^verbatim>\<open>delta := (h >> 17) | (h << 15)\<close>, and the 32-bit number of bits of the set.\<close>

definition probe_delta :: "u32 \<Rightarrow> u32" where
  "probe_delta h = drop_bit 17 h OR push_bit 15 h"

definition bit_length :: "bytes \<Rightarrow> u32" where
  "bit_length bs = of_nat (length bs * 8)"

text \<open>\<^verbatim>\<open>1 << bitOffset\<close> as a byte\<close>

definition bit_mask :: "u32 \<Rightarrow> byte" where
  "bit_mask bitOffset = push_bit (unat bitOffset) 1"

fun set_probes :: "nat \<Rightarrow> u32 \<Rightarrow> u32 \<Rightarrow> u32 \<Rightarrow> bytes \<Rightarrow> bytes" where
  "set_probes 0 h delta bitLength bs = bs"
| "set_probes (Suc n) h delta bitLength bs =
     (let bitPos = h mod bitLength;
          i = unat (bitPos div 8)
      in set_probes n (h + delta) delta bitLength
           (bs[i := bs ! i OR bit_mask (bitPos mod 8)]))"

definition AddHash :: "u32 \<Rightarrow> BloomFilter \<Rightarrow> BloomFilter option" where
  "AddHash h bf =
     (let bitLength = bit_length (bitset bf)
      in if bitLength = 0 then None
         else Some (bf\<lparr>bitset := set_probes kProbes h (probe_delta h) bitLength (bitset bf)\<rparr>))"

definition Bloom_Add :: "(bytes \<Rightarrow> u32) \<Rightarrow> bytes \<Rightarrow> BloomFilter \<Rightarrow> BloomFilter option" where
  "Bloom_Add murmur key bf = AddHash (HashKey murmur key) bf"

fun test_probes :: "nat \<Rightarrow> u32 \<Rightarrow> u32 \<Rightarrow> u32 \<Rightarrow> bytes \<Rightarrow> bool" where
  "test_probes 0 h delta bitLength bs = True"
| "test_probes (Suc n) h delta bitLength bs =
     (let bitPos = h mod bitLength;
          bytePos = bitPos div 8;
          bitOffset = bitPos mod 8
      in if bs ! unat bytePos AND bit_mask bitOffset = 0 then False
         else test_probes n (h + delta) delta bitLength bs)"

definition MayContain :: "(bytes \<Rightarrow> u32) \<Rightarrow> bytes \<Rightarrow> BloomFilter \<Rightarrow> bool option" where
  "MayContain murmur key bf =
     (if length (bitset bf) = 0 then Some True
      else (let h = HashKey murmur key; bitLength = bit_length (bitset bf)
            in if bitLength = 0 then None
               else Some (test_probes kProbes h (probe_delta h) bitLength (bitset bf))))"

definition Bloom_Bytes :: "BloomFilter \<Rightarrow> bytes" where
  "Bloom_Bytes bf = bitset bf"

definition LoadBloomFilter :: "bytes \<Rightarrow> BloomFilter" where
  "LoadBloomFilter data = \<lparr>bitset = data\<rparr>"

text \<open>Adding a list of hashes, the loop of \<^verbatim>\<open>Builder.Finish\<close>.\<close>

fun add_hashes :: "u32 list \<Rightarrow> BloomFilter \<Rightarrow> BloomFilter option" where
  "add_hashes [] bf = Some bf"
| "add_hashes (h # hs) bf = (case AddHash h bf of None \<Rightarrow> None | Some bf' \<Rightarrow> add_hashes hs bf')"

section \<open>No false negatives\<close>

definition bit_at :: "bytes \<Rightarrow> u32 \<Rightarrow> bool" where
  "bit_at bs pos \<longleftrightarrow> bit (bs ! unat (pos div 8)) (unat (pos mod 8))"

definition covers :: "bytes \<Rightarrow> u32 \<Rightarrow> bool" where
  "covers bs bitLength \<longleftrightarrow> (\<forall>pos < bitLength. unat (pos div 8) < length bs)"

lemma bit_bit_mask: "bit (bit_mask x) n \<longleftrightarrow> n = unat x \<and> n < 8"
  by (auto simp: bit_mask_def bit_simps)

lemma test_bit_zero: "b AND bit_mask x = 0 \<longleftrightarrow> \<not> bit b (unat x)"
proof
  assume "b AND bit_mask x = 0"
  then have "\<not> bit (b AND bit_mask x) (unat x)" by simp
  then show "\<not> bit b (unat x)" by (auto simp: bit_simps bit_bit_mask dest: bit_imp_le_length)
next
  assume "\<not> bit b (unat x)"
  then show "b AND bit_mask x = 0" by (auto intro!: bit_word_eqI simp: bit_simps bit_bit_mask)
qed

lemma unat_mod_8: "unat ((pos :: u32) mod 8) < 8"
  by (simp add: unat_mod)

lemma covers_bit_length:
  assumes "bit_length bs \<noteq> 0"
  shows "covers bs (bit_length bs)"
  unfolding covers_def
proof (intro allI impI)
  fix pos :: u32
  assume "pos < bit_length bs"
  then have "unat pos < unat (bit_length bs)" by (simp add: word_less_nat_alt)
  also have "\<dots> \<le> length bs * 8"
    unfolding bit_length_def by (simp only: unat_of_nat mod_less_eq_dividend)
  finally have "unat pos div 8 < length bs" by (simp add: less_mult_imp_div_less)
  then show "unat (pos div 8) < length bs" by (simp add: unat_div)
qed

lemma length_set_probes [simp]: "length (set_probes n h d L bs) = length bs"
  by (induction n arbitrary: h bs) (simp_all add: Let_def)

text \<open>Setting probes never clears a bit, and sets the bits the test looks at.\<close>

lemma bit_at_set:
  assumes "unat (pos div 8) < length bs"
  shows "bit_at (bs[unat (q div 8) := bs ! unat (q div 8) OR bit_mask (q mod 8)]) pos
    \<longleftrightarrow> bit_at bs pos \<or> pos = q"
proof -
  have "pos = q" if "pos div 8 = q div 8" "unat (pos mod 8) = unat (q mod 8)"
    using that by (metis div_mult_mod_eq unsigned_word_eqI)
  moreover have "pos div 8 = q div 8" if "unat (pos div 8) = unat (q div 8)"
    using that by (rule unsigned_word_eqI)
  ultimately show ?thesis
    using assms unat_mod_8 [of pos] by (auto simp: bit_at_def nth_upd bit_or_iff bit_bit_mask)
qed

lemma set_probes_mono:
  "covers bs L \<Longrightarrow> L \<noteq> 0 \<Longrightarrow> pos < L \<Longrightarrow> bit_at bs pos \<Longrightarrow> bit_at (set_probes n h d L bs) pos"
  by (induction n arbitrary: h bs) (simp_all add: Let_def bit_at_set covers_def)

lemma word_mod_less: "L \<noteq> 0 \<Longrightarrow> (h :: u32) mod L < L"
  by (simp add: word_less_nat_alt unat_mod unat_gt_0)

lemma test_probes_cong:
  "(\<And>pos. pos < L \<Longrightarrow> bit_at bs pos \<Longrightarrow> bit_at bs' pos) \<Longrightarrow> L \<noteq> 0 \<Longrightarrow>
    test_probes n h d L bs \<Longrightarrow> test_probes n h d L bs'"
proof (induction n arbitrary: h)
  case (Suc n)
  from Suc.prems(3) have "bit_at bs (h mod L)" "test_probes n (h + d) d L bs"
    by (auto simp: Let_def test_bit_zero bit_at_def split: if_splits)
  with Suc word_mod_less have "bit_at bs' (h mod L)" "test_probes n (h + d) d L bs'" by blast+
  then show ?case by (simp add: Let_def test_bit_zero bit_at_def)
qed simp

lemma set_probes_test: "covers bs L \<Longrightarrow> L \<noteq> 0 \<Longrightarrow> test_probes n h d L (set_probes n h d L bs)"
proof (induction n arbitrary: h bs)
  case (Suc n)
  let ?q = "h mod L" 
  let ?bs = "bs[unat (?q div 8) := bs ! unat (?q div 8) OR bit_mask (?q mod 8)]"
  have "covers ?bs L" using Suc.prems(1) by (simp add: covers_def)
  moreover have "bit_at ?bs ?q"
    using Suc.prems word_mod_less by (subst bit_at_set) (auto simp: covers_def)
  ultimately have "bit_at (set_probes n (h + d) d L ?bs) ?q"
    using Suc.prems word_mod_less set_probes_mono by blast
  moreover have "test_probes n (h + d) d L (set_probes n (h + d) d L ?bs)"
    using Suc \<open>covers ?bs L\<close> by blast
  ultimately show ?case by (simp add: Let_def test_bit_zero bit_at_def)
qed simp

definition passes :: "u32 \<Rightarrow> bytes \<Rightarrow> bool" where
  "passes h bs \<longleftrightarrow> test_probes kProbes h (probe_delta h) (bit_length bs) bs"

lemma AddHash_props:
  assumes "AddHash h bf = Some bf'"
  shows "length (bitset bf') = length (bitset bf)" "passes h (bitset bf')"
    and "passes h' (bitset bf) \<Longrightarrow> passes h' (bitset bf')"
proof -
  let ?L = "bit_length (bitset bf)"
  from assms have L: "?L \<noteq> 0"
    and bf': "bitset bf' = set_probes kProbes h (probe_delta h) ?L (bitset bf)"
    by (auto simp: AddHash_def Let_def split: if_splits)
  then have L': "bit_length (bitset bf') = ?L" by (simp add: bit_length_def)
  note cov = covers_bit_length [OF L]
  show "length (bitset bf') = length (bitset bf)" by (simp add: bf')
  show "passes h (bitset bf')"
    unfolding passes_def L' unfolding bf' by (rule set_probes_test [OF cov L])
  show "passes h' (bitset bf')" if "passes h' (bitset bf)"
    unfolding passes_def L'
    by (rule test_probes_cong [of ?L "bitset bf", OF _ L])
      (use that in \<open>auto simp: bf' passes_def intro: set_probes_mono [OF cov L]\<close>)
qed

lemma add_hashes_mono:
  "add_hashes hs bf = Some bf' \<Longrightarrow> passes h (bitset bf) \<Longrightarrow> passes h (bitset bf')"
  by (induction hs arbitrary: bf) (auto split: option.splits dest: AddHash_props(3))

lemma add_hashes_passes:
  "add_hashes hs bf = Some bf' \<Longrightarrow> h \<in> set hs \<Longrightarrow> passes h (bitset bf')"
proof (induction hs arbitrary: bf)
  case (Cons g hs)
  then obtain bf1 where "AddHash g bf = Some bf1" "add_hashes hs bf1 = Some bf'"
    by (auto split: option.splits)
  with Cons AddHash_props(2) add_hashes_mono show ?case by (metis set_ConsD)
qed simp

lemma add_hashes_total:
  "bit_length (bitset bf) \<noteq> 0 \<Longrightarrow>
    \<exists>bf'. add_hashes hs bf = Some bf' \<and> length (bitset bf') = length (bitset bf)"
proof (induction hs arbitrary: bf)
  case (Cons h hs)
  then obtain bf1 where bf1: "AddHash h bf = Some bf1" by (auto simp: AddHash_def Let_def)
  then have "bit_length (bitset bf1) = bit_length (bitset bf)"
    using AddHash_props(1) by (simp add: bit_length_def)
  with Cons.IH [of bf1] Cons.prems bf1 AddHash_props(1) [OF bf1] show ?case by auto
qed simp

lemma MayContain_passes:
  "passes (HashKey murmur key) (bitset bf) \<Longrightarrow> bit_length (bitset bf) \<noteq> 0 \<Longrightarrow>
    MayContain murmur key bf = Some True"
  by (simp add: MayContain_def passes_def Let_def)

text \<open>The filter of a table: its size, and that building it does not panic.\<close>

definition max_bloom_keys :: nat where
  "max_bloom_keys = 400000000"

lemma NewBloomFilter_length:
  "length (bitset (NewBloomFilter n)) = ((if n < 64 then 64 else n) * 10 + 7) div 8"
  by (simp add: NewBloomFilter_def Let_def bitsPerKey_def)

lemma NewBloomFilter_bit_length:
  "n \<le> max_bloom_keys \<Longrightarrow> bit_length (bitset (NewBloomFilter n)) \<noteq> 0"
proof -
  assume n: "n \<le> max_bloom_keys"
  let ?l = "length (bitset (NewBloomFilter n)) * 8"
  have "?l < 2 ^ 32" "0 < ?l"
    using n by (auto simp: NewBloomFilter_length max_bloom_keys_def split: if_splits)
  then have "unat (of_nat ?l :: u32) = ?l" by (simp only: unat_of_nat) simp
  with \<open>0 < ?l\<close> show ?thesis unfolding bit_length_def by (metis less_nat_zero_code unat_0)
qed

text \<open>
  C27: no false negatives. Building the filter for a set of keys does not panic, and for every key
  that was added the filter answers that it may be present, after its bytes were written out and
  loaded again; for every hash function and up to 400 million keys.
\<close>

theorem bloom_no_false_negatives:
  assumes "length keys \<le> max_bloom_keys"
  shows "\<exists>bf. add_hashes (map (HashKey murmur) keys) (NewBloomFilter (length keys)) = Some bf \<and>
    (\<forall>key \<in> set keys. MayContain murmur key (LoadBloomFilter (Bloom_Bytes bf)) = Some True)"
proof -
  obtain bf where bf: "add_hashes (map (HashKey murmur) keys) (NewBloomFilter (length keys)) = Some bf"
    "length (bitset bf) = length (bitset (NewBloomFilter (length keys)))"
    using add_hashes_total [OF NewBloomFilter_bit_length [OF assms]] by blast
  have "bit_length (bitset bf) \<noteq> 0"
    using NewBloomFilter_bit_length [OF assms] bf(2) by (simp add: bit_length_def)
  then have "MayContain murmur key (LoadBloomFilter (Bloom_Bytes bf)) = Some True" if "key \<in> set keys" for key
    using that add_hashes_passes [OF bf(1), of "HashKey murmur key"]
    by (intro MayContain_passes) (auto simp: LoadBloomFilter_def Bloom_Bytes_def)
  with bf(1) show ?thesis by blast
qed

theorem bloom_no_false_negatives_witness:
  "\<exists>bf. add_hashes [5, 6] (NewBloomFilter 2) = Some bf \<and>
    MayContain (\<lambda>key. if key = [1] then 5 else 6) [1] (LoadBloomFilter (Bloom_Bytes bf)) = Some True"
  using bloom_no_false_negatives [of "[[1], [2]]" "\<lambda>key. if key = [1] then 5 else 6"]
  by (auto simp: max_bloom_keys_def HashKey_def numeral_2_eq_2)

end
