(* ===== verification/SkipList.thy ===== *)
theory SkipList
  imports Prelude
begin

text \<open>
  The memtable, \<^verbatim>\<open>src/engine/memtable/skiplist.go\<close>. Nodes live in an arena: a pointer is
  an index into \<open>arena\<close>, \<^verbatim>\<open>nil\<close> is \<open>None\<close>, allocation appends. An index out of range
  panics in Go; here it makes the operation return \<open>None\<close>, and so does a search that would
  never end, so every statement of the form \<open>SkipList_Put k v sl = Some sl'\<close> says that the call
  returns. The random generator is the stream of draws it will deliver. The mutex is not
  modelled: an operation is one atomic step.
\<close>

section \<open>The data structure\<close>

record node =
  Key :: bytes
  Value :: slice
  Next :: "nat option list"

record SkipList =
  arena :: "node list"
  Head :: nat
  Level :: nat
  Size :: nat
  SizeBytes :: int
  rand :: "nat \<Rightarrow> nat"

definition MaxLevel :: nat where
  "MaxLevel = 20"

text \<open>
  \<^verbatim>\<open>rand.Float64()\<close> is a 53-bit draw divided by \<open>2 ^ 53\<close>, exactly; it is below
  \<^verbatim>\<open>Probability = 0.5\<close> when twice the draw is below \<open>2 ^ 53\<close>.
\<close>

definition below_Probability :: "nat \<Rightarrow> bool" where
  "below_Probability draw \<longleftrightarrow> 2 * draw < 2 ^ 53"

definition NewSkipList :: "(nat \<Rightarrow> nat) \<Rightarrow> SkipList" where
  "NewSkipList rnd =
     \<lparr>arena = [\<lparr>Key = [], Value = None, Next = replicate MaxLevel None\<rparr>],
      Head = 0, Level = 1, Size = 0, SizeBytes = 0, rand = rnd\<rparr>"

function randomLevel_loop :: "nat \<Rightarrow> (nat \<Rightarrow> nat) \<Rightarrow> nat \<times> (nat \<Rightarrow> nat)" where
  "randomLevel_loop level rnd =
     (if below_Probability (rnd 0) \<and> level < MaxLevel
      then randomLevel_loop (level + 1) (\<lambda>n. rnd (n + 1))
      else (level, \<lambda>n. rnd (n + 1)))"
  by pat_completeness auto
termination
  by (relation "measure (\<lambda>(level, _). MaxLevel - level)") auto

declare randomLevel_loop.simps [simp del]

definition randomLevel :: "SkipList \<Rightarrow> nat \<times> SkipList" where
  "randomLevel sl = (let (level, rnd) = randomLevel_loop 1 (rand sl) in (level, sl\<lparr>rand := rnd\<rparr>))"

section \<open>Searching\<close>

text \<open>\<^verbatim>\<open>p.Next[i]\<close>, \<open>None\<close> where the dereference or the index panics.\<close>

definition next_at :: "node list \<Rightarrow> nat \<Rightarrow> nat \<Rightarrow> nat option option" where
  "next_at ns p i =
     (if p < length ns \<and> i < length (Next (ns ! p)) then Some (Next (ns ! p) ! i) else None)"

text \<open>The inner loop: move right on level \<open>i\<close> while the next key is smaller.\<close>

partial_function (option) advance :: "node list \<Rightarrow> bytes \<Rightarrow> nat \<Rightarrow> nat \<Rightarrow> nat option" where
  "advance ns key i current =
     (case next_at ns current i of
        None \<Rightarrow> None
      | Some None \<Rightarrow> Some current
      | Some (Some nxt) \<Rightarrow>
          if nxt < length ns
          then if bytes_Compare (Key (ns ! nxt)) key < 0 then advance ns key i nxt else Some current
          else None)"

text \<open>The outer loop of \<^verbatim>\<open>Put\<close>, from level \<open>i - 1\<close> down to 0, filling \<^verbatim>\<open>update\<close>.\<close>

fun search_update :: "node list \<Rightarrow> bytes \<Rightarrow> nat \<Rightarrow> nat \<Rightarrow> nat option list
    \<Rightarrow> (nat \<times> nat option list) option" where
  "search_update ns key 0 current update = Some (current, update)"
| "search_update ns key (Suc i) current update =
     (case advance ns key i current of
        None \<Rightarrow> None
      | Some c \<Rightarrow>
          if i < length update then search_update ns key i c (update[i := Some c]) else None)"

text \<open>The outer loop of \<^verbatim>\<open>Get\<close>, the same descent without \<^verbatim>\<open>update\<close>.\<close>

fun search :: "node list \<Rightarrow> bytes \<Rightarrow> nat \<Rightarrow> nat \<Rightarrow> nat option" where
  "search ns key 0 current = Some current"
| "search ns key (Suc i) current =
     (case advance ns key i current of None \<Rightarrow> None | Some c \<Rightarrow> search ns key i c)"

section \<open>Get, Put and the iterator\<close>

text \<open>The two results of \<^verbatim>\<open>Get\<close>: \<open>Some None\<close> is \<^verbatim>\<open>(nil, false)\<close>, \<open>Some (Some v)\<close> is
  \<^verbatim>\<open>(v, true)\<close> (where \<open>v\<close> itself may be the nil of a tombstone).\<close>

definition SkipList_Get :: "bytes \<Rightarrow> SkipList \<Rightarrow> slice option option" where
  "SkipList_Get key sl =
     (case search (arena sl) key (Level sl) (Head sl) of
        None \<Rightarrow> None
      | Some current \<Rightarrow>
          (case next_at (arena sl) current 0 of
             None \<Rightarrow> None
           | Some None \<Rightarrow> Some None
           | Some (Some nxt) \<Rightarrow>
               if nxt < length (arena sl)
               then if Key (arena sl ! nxt) = key then Some (Some (Value (arena sl ! nxt)))
                    else Some None
               else None))"

definition set_next :: "node list \<Rightarrow> nat \<Rightarrow> nat \<Rightarrow> nat option \<Rightarrow> node list" where
  "set_next ns p i q = ns[p := (ns ! p)\<lparr>Next := (Next (ns ! p))[i := q]\<rparr>]"

text \<open>
  One turn of the linking loop: \<^verbatim>\<open>newNode.Next[i] = update[i].Next[i]\<close> and then
  \<^verbatim>\<open>update[i].Next[i] = newNode\<close>; \<open>None\<close> for a nil \<^verbatim>\<open>update[i]\<close> or a bad index.
\<close>

definition link_level :: "nat option list \<Rightarrow> nat \<Rightarrow> nat \<Rightarrow> node list \<Rightarrow> node list option" where
  "link_level update newNode i ns =
     (if i < length update
      then (case update ! i of
              None \<Rightarrow> None
            | Some p \<Rightarrow>
                (case next_at ns p i of
                   None \<Rightarrow> None
                 | Some q \<Rightarrow>
                     if i < length (Next (ns ! newNode))
                     then Some (set_next (set_next ns newNode i q) p i (Some newNode))
                     else None))
      else None)"

fun link_levels :: "nat option list \<Rightarrow> nat \<Rightarrow> nat \<Rightarrow> node list \<Rightarrow> node list option" where
  "link_levels update newNode 0 ns = Some ns"
| "link_levels update newNode (Suc i) ns =
     (case link_levels update newNode i ns of
        None \<Rightarrow> None | Some ns' \<Rightarrow> link_level update newNode i ns')"

text \<open>\<^verbatim>\<open>for i := sl.Level; i < newLevel; i++ { update[i] = sl.Head }\<close>\<close>

fun raise_update :: "nat \<Rightarrow> nat list \<Rightarrow> nat option list \<Rightarrow> nat option list option" where
  "raise_update head [] update = Some update"
| "raise_update head (i # is) update =
     (if i < length update then raise_update head is (update[i := Some head]) else None)"

definition SkipList_Put :: "bytes \<Rightarrow> slice \<Rightarrow> SkipList \<Rightarrow> SkipList option" where
  "SkipList_Put key value sl =
     (case search_update (arena sl) key (Level sl) (Head sl) (replicate MaxLevel None) of
        None \<Rightarrow> None
      | Some (current, update) \<Rightarrow>
          (case next_at (arena sl) current 0 of
             None \<Rightarrow> None
           | Some nxt \<Rightarrow>
               (case (case nxt of
                        None \<Rightarrow> Some None
                      | Some p \<Rightarrow>
                          if p < length (arena sl)
                          then Some (if Key (arena sl ! p) = key then Some p else None)
                          else None) of
                  None \<Rightarrow> None
                | Some (Some p) \<Rightarrow>
                    Some (sl\<lparr>SizeBytes := SizeBytes sl
                               + (int (length (bytes_of value)) - int (length (bytes_of (Value (arena sl ! p))))),
                             arena := (arena sl)[p := (arena sl ! p)\<lparr>Value := value\<rparr>]\<rparr>)
                | Some None \<Rightarrow>
                    (case randomLevel sl of (newLevel, sl1) \<Rightarrow>
                      (case (if newLevel > Level sl1
                             then raise_update (Head sl1) [Level sl1..<newLevel] update
                             else Some update) of
                         None \<Rightarrow> None
                       | Some update1 \<Rightarrow>
                           (let sl2 = (if newLevel > Level sl1 then sl1\<lparr>Level := newLevel\<rparr> else sl1);
                                newNode = length (arena sl2)
                            in (case link_levels update1 newNode newLevel
                                       (arena sl2 @
                                         [\<lparr>Key = key, Value = value, Next = replicate newLevel None\<rparr>]) of
                                  None \<Rightarrow> None
                                | Some ns \<Rightarrow>
                                    Some (sl2\<lparr>arena := ns,
                                             SizeBytes := SizeBytes sl2
                                               + int (length key + length (bytes_of value)),
                                             Size := Size sl2 + 1\<rparr>))))))))"

text \<open>
  The iterator is the pointer \<^verbatim>\<open>current\<close>; \<open>Some (True, p)\<close> is a successful \<^verbatim>\<open>Next()\<close>
  that moved to \<open>p\<close>. \<open>iterate\<close> is a whole \<^verbatim>\<open>for iter.Next()\<close> loop: the keys and values
  its body sees, in order.
\<close>

definition NewIterator :: "SkipList \<Rightarrow> nat" where
  "NewIterator sl = Head sl"

definition Iterator_Next :: "node list \<Rightarrow> nat \<Rightarrow> (bool \<times> nat) option" where
  "Iterator_Next ns current =
     (case next_at ns current 0 of
        None \<Rightarrow> None
      | Some None \<Rightarrow> Some (False, current)
      | Some (Some nxt) \<Rightarrow> Some (True, nxt))"

partial_function (option) iterate :: "node list \<Rightarrow> nat \<Rightarrow> (bytes \<times> slice) list
    \<Rightarrow> (bytes \<times> slice) list option" where
  "iterate ns current acc =
     (case Iterator_Next ns current of
        None \<Rightarrow> None
      | Some (moved, nxt) \<Rightarrow>
          if moved
          then if nxt < length ns
               then iterate ns nxt (acc @ [(Key (ns ! nxt), Value (ns ! nxt))])
               else None
          else Some acc)"

definition SkipList_entries :: "SkipList \<Rightarrow> (bytes \<times> slice) list option" where
  "SkipList_entries sl = iterate (arena sl) (NewIterator sl) []"

section \<open>The invariant\<close>

definition height :: "node list \<Rightarrow> nat \<Rightarrow> nat" where
  "height ns a = length (Next (ns ! a))"

text \<open>\<open>chain ns i p as\<close>: following level \<open>i\<close> from \<open>p\<close> visits exactly \<open>as\<close> and ends in nil.\<close>

fun chain :: "node list \<Rightarrow> nat \<Rightarrow> nat \<Rightarrow> nat list \<Rightarrow> bool" where
  "chain ns i p [] \<longleftrightarrow> next_at ns p i = Some None"
| "chain ns i p (a # as) \<longleftrightarrow> next_at ns p i = Some (Some a) \<and> a < length ns \<and> chain ns i a as"

definition node_entry :: "node list \<Rightarrow> nat \<Rightarrow> bytes \<times> slice" where
  "node_entry ns a = (Key (ns ! a), Value (ns ! a))"

definition entry_bytes :: "(bytes \<times> slice) list \<Rightarrow> int" where
  "entry_bytes es = (\<Sum>(k, v) \<leftarrow> es. int (length k + length (bytes_of v)))"

text \<open>
  \<open>skip_repr sl as\<close>: the addresses \<open>as\<close> are the nodes in level-0 order; the chain of every
  level \<open>i\<close> is the sublist of the nodes taller than \<open>i\<close>; keys increase strictly; the counters
  agree with the content.
\<close>

definition skip_repr :: "SkipList \<Rightarrow> nat list \<Rightarrow> bool" where
  "skip_repr sl as \<longleftrightarrow>
     Head sl < length (arena sl) \<and> height (arena sl) (Head sl) = MaxLevel \<and>
     distinct (Head sl # as) \<and> (\<forall>a \<in> set as. a < length (arena sl)) \<and>
     (\<forall>a \<in> set as. 0 < height (arena sl) a \<and> height (arena sl) a \<le> Level sl) \<and>
     1 \<le> Level sl \<and> Level sl \<le> MaxLevel \<and>
     ksorted (map (node_entry (arena sl)) as) \<and>
     (\<forall>i < MaxLevel. chain (arena sl) i (Head sl) (filter (\<lambda>a. i < height (arena sl) a) as)) \<and>
     Size sl = length as \<and> SizeBytes sl = entry_bytes (map (node_entry (arena sl)) as)"

definition skip_ok :: "SkipList \<Rightarrow> bool" where
  "skip_ok sl \<longleftrightarrow> (\<exists>as. skip_repr sl as)"

text \<open>The abstract content of a memtable: what a full iteration delivers.\<close>

definition skip_content :: "SkipList \<Rightarrow> (bytes \<times> slice) list" where
  "skip_content sl = (case SkipList_entries sl of None \<Rightarrow> [] | Some es \<Rightarrow> es)"

lemma randomLevel_loop_bounds:
  "1 \<le> level \<Longrightarrow> level \<le> MaxLevel \<Longrightarrow>
    1 \<le> fst (randomLevel_loop level rnd) \<and> fst (randomLevel_loop level rnd) \<le> MaxLevel"
proof (induction level rnd rule: randomLevel_loop.induct)
  case (1 level rnd)
  show ?case
  proof (cases "below_Probability (rnd 0) \<and> level < MaxLevel")
    case True
    then have "randomLevel_loop level rnd = randomLevel_loop (level + 1) (\<lambda>n. rnd (n + 1))"
      by (subst randomLevel_loop.simps) simp
    with 1 True show ?thesis by simp
  next
    case False
    then have "randomLevel_loop level rnd = (level, \<lambda>n. rnd (n + 1))"
      by (subst randomLevel_loop.simps) auto
    with 1 show ?thesis by simp
  qed
qed

lemma randomLevel_bounds:
  assumes "randomLevel sl = (n, sl')"
  shows "1 \<le> n" "n \<le> MaxLevel" "\<exists>rnd. sl' = sl\<lparr>rand := rnd\<rparr>"
  using randomLevel_loop_bounds [of 1 "rand sl"] assms
  by (auto simp: randomLevel_def MaxLevel_def split: prod.splits)

section \<open>Chains and searching\<close>

lemma next_at_bound: "next_at ns p i = Some q \<Longrightarrow> p < length ns \<and> i < height ns p"
  by (auto simp: next_at_def height_def split: if_splits)

lemma chain_suffix: "chain ns i p (xs @ y # ys) \<Longrightarrow> chain ns i y ys"
  by (induction xs arbitrary: p) auto

lemma chain_from_last: "chain ns i p (xs @ ys) \<Longrightarrow> chain ns i (last (p # xs)) ys"
  by (induction xs arbitrary: p) (auto split: if_splits)

lemma chain_cong:
  "chain ns i p as \<Longrightarrow> \<forall>a \<in> set (p # as). next_at ns' a i = next_at ns a i \<Longrightarrow>
    length ns \<le> length ns' \<Longrightarrow> chain ns' i p as"
  by (induction as arbitrary: p) auto

lemma chain_insert:
  assumes "chain ns i p (us @ vs)" "distinct (p # us @ vs)"
    and "\<forall>a \<in> set (p # us @ vs). next_at ns' a i =
           (if a = last (p # us) then Some (Some new) else next_at ns a i)"
    and "next_at ns' new i = next_at ns (last (p # us)) i"
    and "length ns \<le> length ns'" "new < length ns'"
  shows "chain ns' i p (us @ new # vs)"
  using assms(1-4)
proof (induction us arbitrary: p)
  case Nil
  show ?case
  proof (cases vs)
    case Nil
    with Nil.prems assms(6) show ?thesis by simp
  next
    case (Cons v vs')
    have "chain ns' i v vs'"
      by (rule chain_cong [of ns]) (use Nil.prems Cons assms(5) in auto)
    with Nil.prems Cons assms(5,6) show ?thesis by auto
  qed
next
  case (Cons u us)
  have "chain ns' i u (us @ new # vs)"
    by (rule Cons.IH) (use Cons.prems in \<open>auto split: if_splits\<close>)
  moreover have "p \<noteq> last (u # us)"
    using Cons.prems(2) by (metis append_Cons distinct.simps(2) in_set_conv_decomp last_in_set
      list.distinct(1) set_append UnI1)
  ultimately show ?case using Cons.prems assms(5) by auto
qed

lemma advance_chain:
  "chain ns i p as \<Longrightarrow>
    advance ns key i p = Some (last (p # takeWhile (\<lambda>a. Key (ns ! a) < key) as))"
proof (induction as arbitrary: p)
  case Nil
  then show ?case by (simp add: advance.simps)
next
  case (Cons a as)
  then show ?case by (subst advance.simps) auto
qed

lemma takeWhile_eq_filter:
  "sorted_wrt R xs \<Longrightarrow> (\<And>x y. R x y \<Longrightarrow> P y \<Longrightarrow> P x) \<Longrightarrow> takeWhile P xs = filter P xs"
proof (induction xs)
  case Nil
  then show ?case by simp
next
  case (Cons x xs)
  have "filter P xs = []" if "\<not> P x"
    using Cons.prems that by (auto simp: filter_empty_conv)
  with Cons show ?case by auto
qed

lemma dropWhile_eq_filter:
  "sorted_wrt R xs \<Longrightarrow> (\<And>x y. R x y \<Longrightarrow> P y \<Longrightarrow> P x) \<Longrightarrow>
    dropWhile P xs = filter (\<lambda>x. \<not> P x) xs"
proof (induction xs)
  case Nil
  then show ?case by simp
next
  case (Cons x xs)
  have "filter (\<lambda>x. \<not> P x) xs = xs" if "\<not> P x"
    using Cons.prems that by (auto simp: filter_id_conv)
  with Cons show ?case by auto
qed

lemma ksorted_nodes:
  "ksorted (map (node_entry ns) as) \<longleftrightarrow> sorted_wrt (\<lambda>a b. Key (ns ! a) < Key (ns ! b)) as"
  by (simp add: sorted_wrt_map node_entry_def comp_def)

text \<open>The predecessor of \<open>key\<close> on level \<open>i\<close>: where both descents stand after that level.\<close>

definition pred_at :: "SkipList \<Rightarrow> nat list \<Rightarrow> bytes \<Rightarrow> nat \<Rightarrow> nat" where
  "pred_at sl as key i =
     last (Head sl # filter (\<lambda>a. i < height (arena sl) a \<and> Key (arena sl ! a) < key) as)"

lemma advance_pred:
  assumes "skip_repr sl as" "i < MaxLevel"
    and c: "c = Head sl \<or> c \<in> set as \<and> i < height (arena sl) c \<and> Key (arena sl ! c) < key"
  shows "advance (arena sl) key i c = Some (pred_at sl as key i)"
proof -
  let ?P = "\<lambda>a. Key (arena sl ! a) < key" and ?H = "\<lambda>a. i < height (arena sl) a"
  let ?fs = "filter ?H as"
  from assms(1,2) have ch: "chain (arena sl) i (Head sl) ?fs"
    and "ksorted (map (node_entry (arena sl)) as)"
    unfolding skip_repr_def by blast+
  then have sorted: "sorted_wrt (\<lambda>a b. Key (arena sl ! a) < Key (arena sl ! b)) ?fs"
    unfolding ksorted_nodes by (simp add: sorted_wrt_filter)
  have tw: "takeWhile ?P ?fs = filter ?P ?fs"
    by (rule takeWhile_eq_filter [OF sorted]) auto
  have pred: "pred_at sl as key i = last (Head sl # takeWhile ?P ?fs)"
    by (simp add: pred_at_def tw conj_commute)
  show ?thesis
  proof (cases "c = Head sl")
    case True
    with advance_chain [OF ch] pred show ?thesis by simp
  next
    case False
    with c have "c \<in> set (takeWhile ?P ?fs)" by (simp add: tw)
    then obtain us1 us2 where us: "takeWhile ?P ?fs = us1 @ c # us2"
      by (meson split_list)
    define vs where "vs = dropWhile ?P ?fs"
    have fs: "?fs = us1 @ c # (us2 @ vs)"
      using us takeWhile_dropWhile_id [of ?P ?fs] by (simp add: vs_def)
    have "chain (arena sl) i c (us2 @ vs)"
      using ch chain_suffix unfolding fs by blast
    moreover have "takeWhile ?P (us2 @ vs) = us2"
    proof -
      have "\<forall>a \<in> set us2. ?P a"
        using us set_takeWhileD [of _ ?P ?fs] by force
      moreover have "takeWhile ?P vs = []"
        unfolding vs_def by (metis dropWhile_eq_self_iff hd_dropWhile takeWhile_eq_Nil_iff)
      ultimately show ?thesis by (simp add: takeWhile_append2)
    qed
    ultimately show ?thesis
      using advance_chain [of "arena sl" i c "us2 @ vs" key] by (simp add: pred us)
  qed
qed

lemma pred_at_cases:
  "pred_at sl as key i = Head sl \<or>
    pred_at sl as key i \<in> set as \<and> i < height (arena sl) (pred_at sl as key i)
      \<and> Key (arena sl ! pred_at sl as key i) < key"
proof -
  let ?ps = "filter (\<lambda>a. i < height (arena sl) a \<and> Key (arena sl ! a) < key) as"
  show ?thesis
  proof (cases ?ps rule: rev_cases)
    case Nil
    then show ?thesis by (simp add: pred_at_def)
  next
    case (snoc ys y)
    have "y \<in> set ?ps" unfolding snoc by simp
    then have "y \<in> set as \<and> i < height (arena sl) y \<and> Key (arena sl ! y) < key" by simp
    with snoc show ?thesis by (simp add: pred_at_def)
  qed
qed

text \<open>The candidates from which level \<open>i - 1\<close> may be entered.\<close>

definition entry_point :: "SkipList \<Rightarrow> nat list \<Rightarrow> bytes \<Rightarrow> nat \<Rightarrow> nat \<Rightarrow> bool" where
  "entry_point sl as key i c \<longleftrightarrow>
     c = Head sl \<or> c \<in> set as \<and> i \<le> height (arena sl) c \<and> Key (arena sl ! c) < key"

lemma entry_point_pred: "i \<le> Suc j \<Longrightarrow> entry_point sl as key i (pred_at sl as key j)"
  using pred_at_cases [of sl as key j] by (auto simp: entry_point_def)

lemma search_spec:
  "skip_repr sl as \<Longrightarrow> i \<le> MaxLevel \<Longrightarrow> entry_point sl as key i c \<Longrightarrow>
    search (arena sl) key i c = Some (if i = 0 then c else pred_at sl as key 0)"
proof (induction i arbitrary: c)
  case 0
  then show ?case by simp
next
  case (Suc i)
  have "advance (arena sl) key i c = Some (pred_at sl as key i)"
    by (rule advance_pred) (use Suc.prems in \<open>auto simp: entry_point_def\<close>)
  with Suc.IH [of "pred_at sl as key i"] Suc.prems entry_point_pred show ?case
    by (auto simp: le_Suc_eq)
qed

lemma search_update_spec:
  "skip_repr sl as \<Longrightarrow> i \<le> MaxLevel \<Longrightarrow> length update = MaxLevel \<Longrightarrow>
    entry_point sl as key i c \<Longrightarrow>
    \<exists>update'. search_update (arena sl) key i c update
        = Some (if i = 0 then c else pred_at sl as key 0, update') \<and>
      length update' = MaxLevel \<and>
      (\<forall>j. update' ! j = (if j < i then Some (pred_at sl as key j) else update ! j))"
proof (induction i arbitrary: c update)
  case 0
  then show ?case by simp
next
  case (Suc i)
  let ?p = "pred_at sl as key i"
  have adv: "advance (arena sl) key i c = Some ?p"
    by (rule advance_pred) (use Suc.prems in \<open>auto simp: entry_point_def\<close>)
  have "entry_point sl as key i ?p" by (rule entry_point_pred) simp
  then obtain update' where IH:
    "search_update (arena sl) key i ?p (update[i := Some ?p])
        = Some (if i = 0 then ?p else pred_at sl as key 0, update')"
    "length update' = MaxLevel"
    "\<forall>j. update' ! j = (if j < i then Some (pred_at sl as key j) else (update[i := Some ?p]) ! j)"
    using Suc.IH [of "update[i := Some ?p]" ?p] Suc.prems by auto
  with adv Suc.prems show ?case by (auto simp: nth_list_update less_Suc_eq)
qed

lemma skip_repr_split:
  assumes "skip_repr sl as"
  shows "as = filter (\<lambda>a. Key (arena sl ! a) < key) as @ filter (\<lambda>a. \<not> Key (arena sl ! a) < key) as"
proof -
  let ?P = "\<lambda>a. Key (arena sl ! a) < key"
  from assms have s: "sorted_wrt (\<lambda>a b. Key (arena sl ! a) < Key (arena sl ! b)) as"
    unfolding skip_repr_def ksorted_nodes by blast
  have "takeWhile ?P as = filter ?P as"
    by (rule takeWhile_eq_filter [OF s]) auto
  moreover have "dropWhile ?P as = filter (\<lambda>a. \<not> ?P a) as"
    by (rule dropWhile_eq_filter [OF s]) auto
  ultimately show ?thesis by (metis takeWhile_dropWhile_id)
qed

lemma filter_tall: "skip_repr sl as \<Longrightarrow> filter (\<lambda>a. 0 < height (arena sl) a) as = as"
  by (auto simp: skip_repr_def filter_id_conv)

text \<open>After either descent, level 0 continues with the nodes whose key is not below \<open>key\<close>.\<close>

lemma chain_from_pred:
  assumes "skip_repr sl as" "i < MaxLevel"
  shows "chain (arena sl) i (pred_at sl as key i)
    (filter (\<lambda>a. i < height (arena sl) a \<and> \<not> Key (arena sl ! a) < key) as)"
proof -
  let ?P = "\<lambda>a. Key (arena sl ! a) < key" and ?H = "\<lambda>a. i < height (arena sl) a"
  from assms have ch: "chain (arena sl) i (Head sl) (filter ?H as)"
    unfolding skip_repr_def by blast
  have "filter ?H as = filter ?H (filter ?P as @ filter (\<lambda>a. \<not> ?P a) as)"
    using skip_repr_split [OF assms(1), of key] by simp
  then have "filter ?H as = filter (\<lambda>a. ?H a \<and> ?P a) as @ filter (\<lambda>a. ?H a \<and> \<not> ?P a) as"
    by (simp add: conj_commute)
  with ch show ?thesis
    using chain_from_last [of "arena sl" i "Head sl" "filter (\<lambda>a. ?H a \<and> ?P a) as"]
    by (simp add: pred_at_def)
qed

lemma next_of_pred:
  assumes "skip_repr sl as"
  shows "next_at (arena sl) (pred_at sl as key 0) 0 =
    Some (case filter (\<lambda>a. \<not> Key (arena sl ! a) < key) as of [] \<Rightarrow> None | b # _ \<Rightarrow> Some b)"
proof -
  have "filter (\<lambda>a. 0 < height (arena sl) a \<and> \<not> Key (arena sl ! a) < key) as
      = filter (\<lambda>a. \<not> Key (arena sl ! a) < key) as"
    using assms by (auto simp: skip_repr_def intro: filter_cong)
  then show ?thesis
    using chain_from_pred [OF assms, of 0 key]
    by (auto simp: MaxLevel_def split: list.splits)
qed

section \<open>Get\<close>

lemma repr_level: "skip_repr sl as \<Longrightarrow> 1 \<le> Level sl \<and> Level sl \<le> MaxLevel"
  by (simp add: skip_repr_def)

lemma SkipList_Get_repr:
  assumes r: "skip_repr sl as"
  shows "SkipList_Get key sl = Some (map_of (map (node_entry (arena sl)) as) key)"
proof -
  let ?us = "filter (\<lambda>a. Key (arena sl ! a) < key) as"
  let ?vs = "filter (\<lambda>a. \<not> Key (arena sl ! a) < key) as"
  let ?es = "map (node_entry (arena sl)) as"
  have srch: "search (arena sl) key (Level sl) (Head sl) = Some (pred_at sl as key 0)"
    using search_spec [OF r, of "Level sl" key "Head sl"] repr_level [OF r]
    by (simp add: entry_point_def)
  have as: "as = ?us @ ?vs" by (rule skip_repr_split [OF r])
  have "map_of (map (node_entry (arena sl)) ?us) key = None"
    by (auto simp: map_of_eq_None_iff node_entry_def)
  then have lookup: "map_of ?es key = map_of (map (node_entry (arena sl)) ?vs) key"
    by (subst as) (simp add: map_add_def)
  show ?thesis
  proof (cases ?vs)
    case Nil
    with srch next_of_pred [OF r, of key] lookup show ?thesis
      by (simp add: SkipList_Get_def)
  next
    case (Cons b bs)
    have b: "b \<in> set ?vs" unfolding Cons by simp
    then have bs: "b < length (arena sl)" using r by (auto simp: skip_repr_def)
    have "sorted_wrt (\<lambda>a b. Key (arena sl ! a) < Key (arena sl ! b)) ?vs"
      using r unfolding skip_repr_def ksorted_nodes by (blast intro: sorted_wrt_filter)
    then have "\<forall>a \<in> set bs. Key (arena sl ! b) < Key (arena sl ! a)" unfolding Cons by simp
    with b have "Key (arena sl ! b) \<noteq> key \<Longrightarrow> map_of (map (node_entry (arena sl)) bs) key = None"
      by (force simp: map_of_eq_None_iff node_entry_def)
    with srch next_of_pred [OF r, of key] lookup bs show ?thesis
      unfolding Cons by (auto simp: SkipList_Get_def node_entry_def)
  qed
qed

section \<open>Linking a new node\<close>

lemma set_next_simps [simp]:
  "length (set_next ns p i q) = length ns"
  "a < length ns \<Longrightarrow> Key (set_next ns p i q ! a) = Key (ns ! a)"
  "a < length ns \<Longrightarrow> Value (set_next ns p i q ! a) = Value (ns ! a)"
  "a < length ns \<Longrightarrow> height (set_next ns p i q) a = height ns a"
  by (auto simp: set_next_def height_def nth_upd)

lemma next_at_set_next:
  "p < length ns \<Longrightarrow> i < height ns p \<Longrightarrow>
    next_at (set_next ns p i q) a j = (if a = p \<and> j = i then Some q else next_at ns a j)"
  by (auto simp: set_next_def next_at_def height_def nth_list_update)

definition same_nodes :: "node list \<Rightarrow> node list \<Rightarrow> bool" where
  "same_nodes ns ns' \<longleftrightarrow> length ns' = length ns \<and>
     (\<forall>a < length ns. Key (ns' ! a) = Key (ns ! a) \<and> Value (ns' ! a) = Value (ns ! a)
        \<and> height ns' a = height ns a)"

lemma link_levels_spec:
  assumes "new < length ns"
    and "n \<le> height ns new"
    and "\<forall>i < n. i < length update \<and> update ! i = Some (pr i) \<and> pr i \<noteq> new
           \<and> pr i < length ns \<and> i < height ns (pr i)"
  shows "\<exists>ns'. link_levels update new n ns = Some ns' \<and> same_nodes ns ns' \<and>
    (\<forall>a j. next_at ns' a j =
       (if j < n \<and> a = new then next_at ns (pr j) j
        else if j < n \<and> a = pr j then Some (Some new)
        else next_at ns a j))"
  using assms(2,3)
proof (induction n)
  case 0
  then show ?case by (simp add: same_nodes_def)
next
  case (Suc n)
  then obtain ns1 where ns1: "link_levels update new n ns = Some ns1" "same_nodes ns ns1"
    and nx: "\<And>a j. next_at ns1 a j =
       (if j < n \<and> a = new then next_at ns (pr j) j
        else if j < n \<and> a = pr j then Some (Some new) else next_at ns a j)"
    by auto
  from Suc.prems have p: "n < length update" "update ! n = Some (pr n)" "pr n \<noteq> new"
    "pr n < length ns" "n < height ns (pr n)" "n < height ns new"
    by auto
  obtain q where q: "next_at ns (pr n) n = Some q"
    using p by (auto simp: next_at_def height_def)
  have q1: "next_at ns1 (pr n) n = Some q" using q nx by simp
  have b: "new < length ns1" "pr n < length ns1" "n < height ns1 new" "n < height ns1 (pr n)"
    using ns1(2) assms(1) p by (auto simp: same_nodes_def)
  let ?ns' = "set_next (set_next ns1 new n q) (pr n) n (Some new)"
  have "link_level update new n ns1 = Some ?ns'"
    using p q1 b by (simp add: link_level_def height_def)
  moreover have "same_nodes ns ?ns'"
    using ns1(2) by (simp add: same_nodes_def)
  moreover have "next_at ?ns' a j =
       (if j < Suc n \<and> a = new then next_at ns (pr j) j
        else if j < Suc n \<and> a = pr j then Some (Some new) else next_at ns a j)" for a j
    using b p q by (auto simp: next_at_set_next nx less_Suc_eq)
  ultimately show ?case using ns1(1) by auto
qed

lemma raise_update_spec:
  "\<forall>i \<in> set is. i < length update \<Longrightarrow>
    \<exists>update'. raise_update h is update = Some update' \<and> length update' = length update \<and>
      (\<forall>j < length update. update' ! j = (if j \<in> set is then Some h else update ! j))"
proof (induction "is" arbitrary: update)
  case Nil
  then show ?case by simp
next
  case (Cons i "is")
  from Cons.prems obtain update' where
    "raise_update h is (update[i := Some h]) = Some update'" "length update' = length update"
    "\<forall>j < length update. update' ! j = (if j \<in> set is then Some h else update[i := Some h] ! j)"
    using Cons.IH [of "update[i := Some h]"] by auto
  with Cons.prems show ?case by (auto simp: nth_upd)
qed

lemma pred_at_high:
  "skip_repr sl as \<Longrightarrow> Level sl \<le> i \<Longrightarrow> pred_at sl as key i = Head sl"
proof -
  assume r: "skip_repr sl as" and i: "Level sl \<le> i"
  have "filter (\<lambda>a. i < height (arena sl) a \<and> Key (arena sl ! a) < key) as = []"
    using r i by (fastforce simp: skip_repr_def filter_empty_conv)
  then show ?thesis by (simp add: pred_at_def)
qed

lemma pred_at_bound:
  assumes "skip_repr sl as" "i < MaxLevel"
  shows "pred_at sl as key i < length (arena sl) \<and> i < height (arena sl) (pred_at sl as key i)"
proof -
  have "\<exists>q. next_at (arena sl) (pred_at sl as key i) i = Some q"
    using chain_from_pred [OF assms, of key] by (auto elim: chain.elims)
  then show ?thesis using next_at_bound by blast
qed

lemma same_nodes_entry: "same_nodes ns ns' \<Longrightarrow> a < length ns \<Longrightarrow> node_entry ns' a = node_entry ns a"
  by (simp add: same_nodes_def node_entry_def)

text \<open>
  \<open>spliced sl as key value n ns'\<close>: the arena \<open>ns'\<close> is that of \<open>sl\<close> with a node of height \<open>n\<close>
  appended and linked in after the predecessors of \<open>key\<close>. Splicing restores the invariant:
  level by level, either the node is part of the chain (\<open>chain_insert\<close>) or the chain is
  untouched.
\<close>

definition spliced :: "SkipList \<Rightarrow> nat list \<Rightarrow> bytes \<Rightarrow> slice \<Rightarrow> nat \<Rightarrow> node list \<Rightarrow> bool" where
  "spliced sl as key value n ns' \<longleftrightarrow>
     (let ns = arena sl @ [\<lparr>Key = key, Value = value, Next = replicate n None\<rparr>];
          new = length (arena sl)
      in same_nodes ns ns' \<and>
         (\<forall>a j. next_at ns' a j =
            (if j < n \<and> a = new then next_at ns (pred_at sl as key j) j
             else if j < n \<and> a = pred_at sl as key j then Some (Some new)
             else next_at ns a j)))"

lemma spliced_nodes:
  assumes "spliced sl as key value n ns'"
  shows "length ns' = Suc (length (arena sl))"
    and "a < length (arena sl) \<Longrightarrow> node_entry ns' a = node_entry (arena sl) a"
    and "a < length (arena sl) \<Longrightarrow> height ns' a = height (arena sl) a"
    and "node_entry ns' (length (arena sl)) = (key, value)"
    and "height ns' (length (arena sl)) = n"
  using assms
  by (auto simp: spliced_def Let_def same_nodes_def node_entry_def height_def nth_append)

lemma spliced_next:
  assumes "spliced sl as key value n ns'"
  shows "a < length (arena sl) \<Longrightarrow> next_at ns' a j =
      (if j < n \<and> a = pred_at sl as key j then Some (Some (length (arena sl)))
       else next_at (arena sl) a j)"
    and "j < n \<Longrightarrow> pred_at sl as key j < length (arena sl) \<Longrightarrow>
      next_at ns' (length (arena sl)) j = next_at (arena sl) (pred_at sl as key j) j"
proof -
  let ?ns = "arena sl @ [\<lparr>Key = key, Value = value, Next = replicate n None\<rparr>]"
  have "next_at ?ns a j = next_at (arena sl) a j" if "a < length (arena sl)" for a j
    using that by (auto simp: next_at_def nth_append)
  with assms show "a < length (arena sl) \<Longrightarrow> next_at ns' a j =
      (if j < n \<and> a = pred_at sl as key j then Some (Some (length (arena sl)))
       else next_at (arena sl) a j)"
    and "j < n \<Longrightarrow> pred_at sl as key j < length (arena sl) \<Longrightarrow>
      next_at ns' (length (arena sl)) j = next_at (arena sl) (pred_at sl as key j) j"
    by (simp_all add: spliced_def Let_def)
qed

text \<open>The nodes below \<open>key\<close> and the others.\<close>

definition below :: "SkipList \<Rightarrow> nat list \<Rightarrow> bytes \<Rightarrow> nat list" where
  "below sl as key = filter (\<lambda>a. Key (arena sl ! a) < key) as"

definition above :: "SkipList \<Rightarrow> nat list \<Rightarrow> bytes \<Rightarrow> nat list" where
  "above sl as key = filter (\<lambda>a. \<not> Key (arena sl ! a) < key) as"

lemma below_above: "skip_repr sl as \<Longrightarrow> as = below sl as key @ above sl as key"
  unfolding below_def above_def by (rule skip_repr_split)

lemma repr_node:
  "skip_repr sl as \<Longrightarrow> a \<in> set as \<Longrightarrow>
    a < length (arena sl) \<and> 0 < height (arena sl) a \<and> height (arena sl) a \<le> Level sl"
  by (auto simp: skip_repr_def)

lemma splice_chain:
  assumes r: "skip_repr sl as" and sp: "spliced sl as key value n ns'" and i: "i < MaxLevel"
  shows "chain ns' i (Head sl)
    (filter (\<lambda>a. i < height ns' a) (below sl as key @ length (arena sl) # above sl as key))"
proof -
  let ?new = "length (arena sl)" and ?H = "\<lambda>a. i < height (arena sl) a"
  let ?us = "filter ?H (below sl as key)" and ?vs = "filter ?H (above sl as key)"
  have ch: "chain (arena sl) i (Head sl) (?us @ ?vs)"
    using r i below_above [OF r, of key] unfolding skip_repr_def by (metis filter_append)
  have "distinct (Head sl # (below sl as key @ above sl as key))"
    using r below_above [OF r, of key] unfolding skip_repr_def by metis
  then have dist: "distinct (Head sl # ?us @ ?vs)" by auto
  have fu: "filter (\<lambda>a. i < height ns' a) (below sl as key) = ?us"
    and fv: "filter (\<lambda>a. i < height ns' a) (above sl as key) = ?vs"
    using repr_node [OF r] spliced_nodes(3) [OF sp]
    by (auto simp: below_def above_def intro!: filter_cong)
  have lst: "last (Head sl # ?us) = pred_at sl as key i"
    by (simp add: pred_at_def below_def conj_commute)
  have bnd: "\<forall>a \<in> set (Head sl # ?us @ ?vs). a < ?new"
    using repr_node [OF r] r by (auto simp: below_def above_def skip_repr_def)
  note nxt = spliced_next [OF sp] and hn = spliced_nodes(5) [OF sp]
  show ?thesis
  proof (cases "i < n")
    case True
    have pb: "pred_at sl as key i < ?new" using pred_at_bound [OF r i] by blast
    have "chain ns' i (Head sl) (?us @ ?new # ?vs)"
    proof (rule chain_insert [OF ch dist])
      show "\<forall>a \<in> set (Head sl # ?us @ ?vs). next_at ns' a i =
          (if a = last (Head sl # ?us) then Some (Some ?new) else next_at (arena sl) a i)"
        using bnd True unfolding lst by (auto simp: nxt)
      show "next_at ns' ?new i = next_at (arena sl) (last (Head sl # ?us)) i"
        unfolding lst using True pb by (simp add: nxt)
    qed (simp_all add: spliced_nodes(1) [OF sp])
    with True show ?thesis by (simp add: fu fv hn)
  next
    case False
    have "chain ns' i (Head sl) (?us @ ?vs)"
      by (rule chain_cong [OF ch])
        (use bnd False in \<open>auto simp: nxt spliced_nodes(1) [OF sp]\<close>)
    with False show ?thesis by (simp add: fu fv hn)
  qed
qed

lemma splice_entries:
  assumes r: "skip_repr sl as" and sp: "spliced sl as key value n ns'"
    and absent: "\<forall>a \<in> set as. Key (arena sl ! a) \<noteq> key"
  shows "map (node_entry ns') (below sl as key @ length (arena sl) # above sl as key)
    = alist_put key value (map (node_entry (arena sl)) as)"
proof -
  let ?E = "node_entry (arena sl)"
  have "\<forall>e \<in> set (map ?E (below sl as key)). fst e < key"
    by (auto simp: below_def node_entry_def)
  moreover have "\<forall>e \<in> set (map ?E (above sl as key)). key < fst e"
    using absent by (auto simp: above_def node_entry_def)
  ultimately have "alist_put key value (map ?E (below sl as key @ above sl as key))
      = map ?E (below sl as key) @ (key, value) # map ?E (above sl as key)"
    by (simp add: alist_put_append alist_put_front)
  moreover have "map (node_entry ns') (below sl as key) = map ?E (below sl as key)"
    and "map (node_entry ns') (above sl as key) = map ?E (above sl as key)"
    using repr_node [OF r] spliced_nodes(2) [OF sp] by (auto simp: below_def above_def)
  ultimately show ?thesis
    by (simp add: below_above [OF r, of key, symmetric] spliced_nodes(4) [OF sp])
qed

lemma entry_bytes_alist_put:
  "\<forall>e \<in> set es. fst e \<noteq> k \<Longrightarrow>
    entry_bytes (alist_put k v es) = entry_bytes es + int (length k + length (bytes_of v))"
  by (induction es) (auto simp: entry_bytes_def)

lemma length_alist_put: "\<forall>e \<in> set es. fst e \<noteq> k \<Longrightarrow> length (alist_put k v es) = length es + 1"
  by (induction es) auto

lemma insert_repr:
  assumes r: "skip_repr sl as" and sp: "spliced sl as key value n ns'"
    and absent: "\<forall>a \<in> set as. Key (arena sl ! a) \<noteq> key" and n: "1 \<le> n" "n \<le> MaxLevel"
  shows "skip_repr (sl\<lparr>rand := rnd, Level := max (Level sl) n, arena := ns',
      SizeBytes := SizeBytes sl + int (length key + length (bytes_of value)),
      Size := Size sl + 1\<rparr>) (below sl as key @ length (arena sl) # above sl as key)"
proof -
  let ?new = "length (arena sl)" and ?as = "below sl as key @ length (arena sl) # above sl as key"
  let ?es = "map (node_entry (arena sl)) as"
  have keys: "\<forall>e \<in> set ?es. fst e \<noteq> key" using absent by (auto simp: node_entry_def)
  have head: "Head sl < ?new" "height (arena sl) (Head sl) = MaxLevel"
    using r by (auto simp: skip_repr_def)
  have "distinct (Head sl # below sl as key @ above sl as key)"
    using r below_above [OF r, of key] unfolding skip_repr_def by metis
  moreover have "?new \<notin> set as" using repr_node [OF r] by blast
  ultimately have "distinct (Head sl # ?as)"
    using head by (auto simp: below_def above_def)
  moreover have "\<forall>a \<in> set ?as. a < length ns' \<and> 0 < height ns' a \<and> height ns' a \<le> max (Level sl) n"
    using repr_node [OF r] spliced_nodes(1,3,5) [OF sp] n
    by (auto simp: below_def above_def le_max_iff_disj less_Suc_eq)
  moreover have "ksorted (map (node_entry ns') ?as)"
    unfolding splice_entries [OF r sp absent]
    using r by (intro ksorted_alist_put) (simp only: skip_repr_def)
  moreover have "SizeBytes sl + int (length key + length (bytes_of value))
      = entry_bytes (map (node_entry ns') ?as)"
    unfolding splice_entries [OF r sp absent] entry_bytes_alist_put [OF keys]
    using r by (simp add: skip_repr_def)
  moreover have "length (map (node_entry ns') ?as) = length ?es + 1"
    unfolding splice_entries [OF r sp absent] by (rule length_alist_put [OF keys])
  moreover have "height ns' (Head sl) = MaxLevel" using head spliced_nodes(3) [OF sp] by simp
  ultimately show ?thesis
    using splice_chain [OF r sp] r n head spliced_nodes(1) [OF sp]
    unfolding skip_repr_def by auto
qed

section \<open>Put\<close>

lemma next_at_set_value [simp]: "next_at (ns[p := (ns ! p)\<lparr>Value := v\<rparr>]) a i = next_at ns a i"
  by (cases "p < length ns") (auto simp: next_at_def nth_list_update)

lemma height_set_value [simp]: "height (ns[p := (ns ! p)\<lparr>Value := v\<rparr>]) a = height ns a"
  by (cases "p < length ns") (auto simp: height_def nth_list_update list_update_beyond)

lemma chain_set_value [simp]: "chain (ns[p := (ns ! p)\<lparr>Value := v\<rparr>]) i q as = chain ns i q as"
  by (induction as arbitrary: q) auto

lemma overwrite_repr:
  fixes val :: slice
  assumes r: "skip_repr sl as" and p: "above sl as key = p # ps" "Key (arena sl ! p) = key"
  defines "sl' \<equiv> sl\<lparr>SizeBytes := SizeBytes sl
      + (int (length (bytes_of val)) - int (length (bytes_of (Value (arena sl ! p))))),
    arena := (arena sl)[p := (arena sl ! p)\<lparr>Value := val\<rparr>]\<rparr>"
  shows "map (node_entry (arena sl')) as = alist_put key val (map (node_entry (arena sl)) as)"
    and "skip_repr sl' as"
proof -
  let ?E = "node_entry (arena sl)"
  have as: "as = below sl as key @ p # ps" using below_above [OF r, of key] p(1) by simp
  have dist: "distinct as" using r by (simp add: skip_repr_def)
  have "p \<in> set as" by (subst as) simp
  then have pb: "p < length (arena sl)" using repr_node [OF r] by blast
  have other: "node_entry (arena sl') a = ?E a" if "a \<noteq> p" for a
    using that by (simp add: sl'_def node_entry_def)
  have atp: "node_entry (arena sl') p = (key, val)"
    using pb p(2) by (simp add: sl'_def node_entry_def)
  have notin: "p \<notin> set (below sl as key)" "p \<notin> set ps"
    using dist as by (metis distinct_append distinct.simps(2) not_distinct_conv_prefix)+
  have new: "map (node_entry (arena sl')) as
      = map ?E (below sl as key) @ (key, val) # map ?E ps"
  proof -
    have "map (node_entry (arena sl')) xs = map ?E xs" if "p \<notin> set xs" for xs
      by (rule map_cong [OF refl], rule other) (use that in blast)
    with notin show ?thesis by (subst as) (simp add: atp)
  qed
  have old: "map ?E as = map ?E (below sl as key) @ (key, Value (arena sl ! p)) # map ?E ps"
    using p(2) by (subst as) (simp add: node_entry_def)
  have "\<forall>e \<in> set (map ?E (below sl as key)). fst e < key"
    by (auto simp: below_def node_entry_def)
  then show put: "map (node_entry (arena sl')) as = alist_put key val (map ?E as)"
    unfolding new old by (simp add: alist_put_append)
  have "SizeBytes sl' = entry_bytes (map (node_entry (arena sl')) as)"
    using r unfolding new skip_repr_def old by (simp add: sl'_def entry_bytes_def)
  moreover have "ksorted (map (node_entry (arena sl')) as)"
    unfolding put using r by (intro ksorted_alist_put) (simp only: skip_repr_def)
  ultimately show "skip_repr sl' as"
    using r unfolding skip_repr_def by (simp add: sl'_def)
qed

lemma SkipList_Put_insert:
  assumes r: "skip_repr sl as" and absent: "\<forall>a \<in> set as. Key (arena sl ! a) \<noteq> key"
    and upd: "length update = MaxLevel"
      "\<forall>j < Level sl. update ! j = Some (pred_at sl as key j)"
    and rl: "randomLevel sl = (n, sl1)"
  shows "\<exists>update1 ns'.
    (if n > Level sl1 then raise_update (Head sl1) [Level sl1..<n] update else Some update) = Some update1
    \<and> link_levels update1 (length (arena sl)) n
        (arena sl @ [\<lparr>Key = key, Value = value, Next = replicate n None\<rparr>]) = Some ns'
    \<and> spliced sl as key value n ns'"
proof -
  let ?ns = "arena sl @ [\<lparr>Key = key, Value = value, Next = replicate n None\<rparr>]"
  from randomLevel_bounds [OF rl] obtain rnd where n: "n \<le> MaxLevel" and sl1: "sl1 = sl\<lparr>rand := rnd\<rparr>"
    by blast
  have up: "\<exists>update1.
      (if n > Level sl1 then raise_update (Head sl1) [Level sl1..<n] update else Some update) = Some update1
      \<and> length update1 = MaxLevel \<and> (\<forall>j < n. update1 ! j = Some (pred_at sl as key j))"
  proof (cases "n > Level sl")
    case True
    then show ?thesis
      using raise_update_spec [of "[Level sl..<n]" update "Head sl"] n upd pred_at_high [OF r]
      by (fastforce simp: sl1)
  next
    case False
    then show ?thesis using upd by (simp add: sl1)
  qed
  then obtain update1 where u:
    "(if n > Level sl1 then raise_update (Head sl1) [Level sl1..<n] update else Some update) = Some update1"
    "length update1 = MaxLevel" "\<forall>j < n. update1 ! j = Some (pred_at sl as key j)"
    by blast
  have "\<forall>i < n. i < length update1 \<and> update1 ! i = Some (pred_at sl as key i)
      \<and> pred_at sl as key i \<noteq> length (arena sl) \<and> pred_at sl as key i < length ?ns
      \<and> i < height ?ns (pred_at sl as key i)"
  proof (intro allI impI)
    fix i
    assume i: "i < n"
    with n have "i < MaxLevel" by simp
    from pred_at_bound [OF r this, of key] show "i < length update1
        \<and> update1 ! i = Some (pred_at sl as key i) \<and> pred_at sl as key i \<noteq> length (arena sl)
        \<and> pred_at sl as key i < length ?ns \<and> i < height ?ns (pred_at sl as key i)"
      using i u(2,3) \<open>i < MaxLevel\<close> by (simp add: height_def nth_append)
  qed
  from link_levels_spec [OF _ _ this] u(1) show ?thesis
    by (auto simp: spliced_def Let_def height_def)
qed

lemma SkipList_Put_repr:
  assumes r: "skip_repr sl as"
  shows "\<exists>sl' as'. SkipList_Put key value sl = Some sl' \<and> skip_repr sl' as' \<and>
    map (node_entry (arena sl')) as' = alist_put key value (map (node_entry (arena sl)) as)"
proof -
  obtain update where su:
    "search_update (arena sl) key (Level sl) (Head sl) (replicate MaxLevel None)
      = Some (pred_at sl as key 0, update)"
    "length update = MaxLevel" "\<forall>j < Level sl. update ! j = Some (pred_at sl as key j)"
    using search_update_spec [OF r, of "Level sl" "replicate MaxLevel None" key "Head sl"]
      repr_level [OF r] by (auto simp: entry_point_def)
  note nxt = next_of_pred [OF r, of key, folded above_def]
  have srt: "sorted_wrt (\<lambda>a b. Key (arena sl ! a) < Key (arena sl ! b)) (above sl as key)"
    using r unfolding skip_repr_def ksorted_nodes above_def by (blast intro: sorted_wrt_filter)
  have abv: "\<forall>a \<in> set (above sl as key). a < length (arena sl) \<and> \<not> Key (arena sl ! a) < key"
    using repr_node [OF r] by (auto simp: above_def)
  show ?thesis
  proof (cases "\<exists>p ps. above sl as key = p # ps \<and> Key (arena sl ! p) = key")
    case True
    then obtain p ps where p: "above sl as key = p # ps" "Key (arena sl ! p) = key" by blast
    with abv su(1) nxt overwrite_repr [OF r p, of "value"] show ?thesis
      by (auto simp: SkipList_Put_def)
  next
    case False
    have absent: "\<forall>a \<in> set as. Key (arena sl ! a) \<noteq> key"
    proof
      fix a
      assume "a \<in> set as"
      then have "a \<in> set (below sl as key @ above sl as key)"
        using below_above [OF r, of key] by simp
      then show "Key (arena sl ! a) \<noteq> key"
        using False srt abv by (cases "above sl as key") (auto simp: below_def)
    qed
    obtain n sl1 where rl: "randomLevel sl = (n, sl1)" by force
    obtain rnd where n: "1 \<le> n" "n \<le> MaxLevel" and sl1: "sl1 = sl\<lparr>rand := rnd\<rparr>"
      using randomLevel_bounds [OF rl] by blast
    from SkipList_Put_insert [OF r absent su(2,3) rl] obtain update1 ns' where
      l: "(if n > Level sl1 then raise_update (Head sl1) [Level sl1..<n] update
           else Some update) = Some update1"
        "link_levels update1 (length (arena sl)) n
          (arena sl @ [\<lparr>Key = key, Value = value, Next = replicate n None\<rparr>]) = Some ns'"
      and sp: "spliced sl as key value n ns'"
      by blast
    let ?sl' = "sl\<lparr>rand := rnd, Level := max (Level sl) n, arena := ns',
      SizeBytes := SizeBytes sl + int (length key + length (bytes_of value)), Size := Size sl + 1\<rparr>"
    have "SkipList_Put key value sl = Some ?sl'"
      using su(1) nxt False abv l rl
      by (cases "above sl as key") (auto simp: SkipList_Put_def sl1 Let_def max_def)
    then show ?thesis
      using insert_repr [OF r sp absent n, of rnd] splice_entries [OF r sp absent] by force
  qed
qed

section \<open>Iteration, and the memtable as an ordered store\<close>

lemma iterate_chain:
  "chain ns 0 p as \<Longrightarrow> iterate ns p acc = Some (acc @ map (node_entry ns) as)"
proof (induction as arbitrary: p acc)
  case Nil
  then show ?case by (simp add: iterate.simps Iterator_Next_def)
next
  case (Cons a as)
  then show ?case by (subst iterate.simps) (simp add: Iterator_Next_def node_entry_def)
qed

lemma SkipList_entries_repr:
  assumes "skip_repr sl as"
  shows "SkipList_entries sl = Some (map (node_entry (arena sl)) as)"
proof -
  have "chain (arena sl) 0 (Head sl) as"
    using assms filter_tall [OF assms] unfolding skip_repr_def MaxLevel_def by force
  then show ?thesis by (simp add: SkipList_entries_def NewIterator_def iterate_chain)
qed

lemma skip_content_repr:
  "skip_repr sl as \<Longrightarrow> skip_content sl = map (node_entry (arena sl)) as"
  by (simp add: skip_content_def SkipList_entries_repr)

lemma SkipList_entries_ok: "skip_ok sl \<Longrightarrow> SkipList_entries sl = Some (skip_content sl)"
  by (auto simp: skip_ok_def SkipList_entries_repr skip_content_repr)

lemma NewSkipList_repr: "skip_repr (NewSkipList rnd) []"
  by (simp add: skip_repr_def NewSkipList_def height_def MaxLevel_def next_at_def entry_bytes_def)

interpretation memtable: ordered_store skip_ok SkipList_Put SkipList_Get skip_content
proof
  fix sl key val
  assume "skip_ok sl"
  then obtain as where r: "skip_repr sl as" by (auto simp: skip_ok_def)
  show "\<exists>sl'. SkipList_Put key val sl = Some sl' \<and> skip_ok sl' \<and>
      skip_content sl' = alist_put key val (skip_content sl)"
    using SkipList_Put_repr [OF r, of key val] r by (force simp: skip_ok_def skip_content_repr)
next
  fix sl key
  assume "skip_ok sl"
  then show "SkipList_Get key sl = Some (map_of (skip_content sl) key)"
    by (auto simp: skip_ok_def skip_content_repr SkipList_Get_repr)
next
  fix sl
  assume "skip_ok sl"
  then obtain as where r: "skip_repr sl as" by (auto simp: skip_ok_def)
  then show "ksorted (skip_content sl)"
    unfolding skip_content_repr [OF r] by (simp only: skip_repr_def)
qed

section \<open>Correctness of the memtable\<close>

lemma skip_ok_New [simp]: "skip_ok (NewSkipList rnd)"
  using NewSkipList_repr by (auto simp: skip_ok_def)

lemma skip_content_New [simp]: "skip_content (NewSkipList rnd) = []"
  using skip_content_repr [OF NewSkipList_repr] by simp

lemma skip_ok_Size: "skip_ok sl \<Longrightarrow> Size sl = length (skip_content sl)"
  by (auto simp: skip_ok_def skip_content_repr) (simp add: skip_repr_def)

lemma skip_ok_SizeBytes: "skip_ok sl \<Longrightarrow> SizeBytes sl = entry_bytes (skip_content sl)"
  by (auto simp: skip_ok_def skip_content_repr) (simp add: skip_repr_def)

text \<open>
  \<^verbatim>\<open>Put\<close> and \<^verbatim>\<open>Get\<close> of the skip list. On a well-formed list, whatever levels the
  random generator draws, \<^verbatim>\<open>Put\<close> returns (no index out of range, no endless search), the result
  is well formed, and \<^verbatim>\<open>Get\<close> returns the new value for the key and for every other key what it
  returned before.
\<close>

lemma memtable_put_get:
  assumes "skip_ok sl"
  shows "\<exists>sl'. SkipList_Put k v sl = Some sl' \<and> skip_ok sl' \<and>
    (\<forall>k'. SkipList_Get k' sl' = (if k' = k then Some (Some v) else SkipList_Get k' sl))"
proof -
  obtain sl' where sl': "SkipList_Put k v sl = Some sl'" using memtable.put_total [OF assms] by blast
  with memtable.put_invar [OF assms sl'] memtable.get_after_put [OF assms sl'] show ?thesis
    by (auto simp: memtable.get_spec [OF assms])
qed

text \<open>
  C19: a memtable is the sorted map of its writes. Any sequence of writes into a new skip list
  returns, with every draw of levels; iterating over the result delivers the last value written for
  each key, in strictly increasing order of keys; a lookup agrees with the iteration; and the
  counters are the number of entries and of key and value bytes.
\<close>

theorem memtable_refines_sorted_map:
  "\<exists>sl es. put_all SkipList_Put kvs (NewSkipList rnd) = Some sl \<and> SkipList_entries sl = Some es \<and>
    ksorted es \<and> map_of es = map_of (rev kvs) \<and> (\<forall>k. SkipList_Get k sl = Some (map_of (rev kvs) k)) \<and>
    Size sl = length es \<and> SizeBytes sl = entry_bytes es"
proof -
  obtain sl where sl: "put_all SkipList_Put kvs (NewSkipList rnd) = Some sl" "skip_ok sl"
    "skip_content sl = fold (\<lambda>(k, v). alist_put k v) kvs []"
    using memtable.put_all_spec [OF skip_ok_New, of kvs rnd] by auto
  then have "map_of (skip_content sl) = map_of (rev kvs)" by (simp add: map_of_fold_alist_put)
  with sl(1,2) show ?thesis
    by (intro exI [of _ sl] exI [of _ "skip_content sl"])
      (simp add: SkipList_entries_ok memtable.content_sorted memtable.get_spec skip_ok_Size skip_ok_SizeBytes)
qed

text \<open>
  The level drawn for a new node is between 1 and \<^verbatim>\<open>MaxLevel\<close>, for every stream of random
  numbers, and drawing it changes nothing but the stream.
\<close>

lemma randomLevel_in_range:
  "1 \<le> fst (randomLevel sl) \<and> fst (randomLevel sl) \<le> MaxLevel \<and>
    (snd (randomLevel sl))\<lparr>rand := rand sl\<rparr> = sl"
proof (cases "randomLevel sl")
  case (Pair n sl')
  then show ?thesis using randomLevel_bounds [OF Pair] by auto
qed

end
