(* ===== verification/Builder.thy ===== *)
theory Builder
  imports Files Bloom SkipList
begin

text \<open>
  Writing an SSTable, \<^verbatim>\<open>src/engine/sstable/builder.go\<close>: a data block of sorted entries, the
  Bloom filter, the sparse index and a 16-byte footer with the offsets of the last two, written
  to a temporary file that is renamed into place at the end. Every write is a system call that may
  fail; \<open>write_seq\<close> is a run of writes that stops at the first failure.
\<close>

section \<open>Decimal numbers in file names\<close>

fun dec_nat :: "nat \<Rightarrow> string" where
  "dec_nat n = (if n < 10 then [char_of (48 + n)] else dec_nat (n div 10) @ [char_of (48 + n mod 10)])"

declare dec_nat.simps [simp del]

text \<open>\<^verbatim>\<open>%d\<close> of \<^verbatim>\<open>fmt.Sprintf\<close>\<close>

definition Sprintf_d :: "int \<Rightarrow> string" where
  "Sprintf_d i = (if i < 0 then ''-'' @ dec_nat (nat (- i)) else dec_nat (nat i))"

section \<open>The builder\<close>

definition IndexInterval :: int where
  "IndexInterval = 1024"

record IndexEntry =
  IndexKey :: bytes
  Offset :: int

record Builder =
  b_file :: nat
  tmpFilename :: string
  finalFilename :: string
  index :: "IndexEntry list"
  bytesWritten :: int
  lastIndexPos :: int
  hashes :: "u32 list"

definition NewBuilder :: "string \<Rightarrow> int \<Rightarrow> fs \<Rightarrow> (error + Builder) \<times> fs" where
  "NewBuilder filename now s =
     (let tmp = filename @ ''.tmp.'' @ Sprintf_d now
      in (case os_Create tmp s of
            (Inl e, s1) \<Rightarrow> (Inl e, s1)
          | (Inr i, s1) \<Rightarrow>
              (Inr \<lparr>b_file = i, tmpFilename = tmp, finalFilename = filename, index = [],
                    bytesWritten = 0, lastIndexPos = 0, hashes = []\<rparr>, s1)))"

fun write_seq :: "nat \<Rightarrow> bytes list \<Rightarrow> fs \<Rightarrow> error option \<times> fs" where
  "write_seq i [] s = (None, s)"
| "write_seq i (b # bs) s =
     (case file_Write i b s of (Some e, s1) \<Rightarrow> (Some e, s1) | (None, s1) \<Rightarrow> write_seq i bs s1)"

text \<open>
  \<^verbatim>\<open>Add\<close>: remember the hash, put the first key and then one key per \<open>IndexInterval\<close> bytes into
  the index (\<open>note_key\<close>), then write key size, value size, key and value.
\<close>

definition note_key :: "(bytes \<Rightarrow> u32) \<Rightarrow> bytes \<Rightarrow> Builder \<Rightarrow> Builder" where
  "note_key murmur key b =
     (let b1 = b\<lparr>hashes := hashes b @ [HashKey murmur key]\<rparr>;
          startOffset = bytesWritten b1
      in if startOffset = 0 \<or> startOffset - lastIndexPos b1 \<ge> IndexInterval
         then b1\<lparr>index := index b1 @ [\<lparr>IndexKey = key, Offset = startOffset\<rparr>],
                 lastIndexPos := startOffset\<rparr>
         else b1)"

definition Builder_Add :: "(bytes \<Rightarrow> u32) \<Rightarrow> bytes \<Rightarrow> slice \<Rightarrow> Builder \<Rightarrow> fs \<Rightarrow> error option \<times> Builder \<times> fs" where
  "Builder_Add murmur key val b s =
     (let b1 = note_key murmur key b
      in (case write_seq (b_file b1)
                 [PutUint32 (of_nat (length key)), PutUint32 (of_nat (length (bytes_of val))),
                  key, bytes_of val] s of
            (Some e, s1) \<Rightarrow> (Some e, b1, s1)
          | (None, s1) \<Rightarrow>
              (None, b1\<lparr>bytesWritten := bytesWritten b1 + int (8 + length key + length (bytes_of val))\<rparr>, s1)))"

definition cleanup :: "Builder \<Rightarrow> fs \<Rightarrow> fs" where
  "cleanup b s = snd (os_Remove (tmpFilename b) (snd (file_Close (b_file b) s)))"

definition index_writes :: "IndexEntry list \<Rightarrow> bytes list" where
  "index_writes es = PutUint32 (of_nat (length es)) #
     concat (map (\<lambda>e. [PutUint32 (of_nat (length (IndexKey e))), IndexKey e, PutUint64 (of_int (Offset e))]) es)"

definition writeIndex :: "Builder \<Rightarrow> fs \<Rightarrow> error option \<times> fs" where
  "writeIndex b s = write_seq (b_file b) (index_writes (index b)) s"

text \<open>
  The number of bytes \<^verbatim>\<open>writeIndex\<close> adds is not tracked in \<^verbatim>\<open>bytesWritten\<close>; the result
  \<open>None\<close> is the division by zero of a Bloom filter whose bit count wraps to zero.
\<close>

definition Finish :: "Builder \<Rightarrow> fs \<Rightarrow> (error option \<times> fs) option" where
  "Finish b s =
     (let filterOffset = bytesWritten b
      in (case add_hashes (hashes b) (NewBloomFilter (length (hashes b))) of
            None \<Rightarrow> None
          | Some bf \<Rightarrow>
              (let filterData = Bloom_Bytes bf
               in (case write_seq (b_file b) [PutUint32 (of_nat (length filterData)), filterData] s of
                     (Some e, s1) \<Rightarrow> Some (Some e, cleanup b s1)
                   | (None, s1) \<Rightarrow>
                       (let indexOffset = bytesWritten b + int (4 + length filterData)
                        in (case writeIndex b s1 of
                              (Some e, s2) \<Rightarrow> Some (Some e, cleanup b s2)
                            | (None, s2) \<Rightarrow>
                                (case write_seq (b_file b)
                                        [PutUint64 (of_int indexOffset), PutUint64 (of_int filterOffset)] s2 of
                                   (Some e, s3) \<Rightarrow> Some (Some e, cleanup b s3)
                                 | (None, s3) \<Rightarrow>
                                     (case file_Sync (b_file b) s3 of
                                        (Some e, s4) \<Rightarrow> Some (Some e, cleanup b s4)
                                      | (None, s4) \<Rightarrow>
                                          (case file_Close (b_file b) s4 of
                                             (Some e, s5) \<Rightarrow> Some (Some e, cleanup b s5)
                                           | (None, s5) \<Rightarrow>
                                               (case os_Rename (tmpFilename b) (finalFilename b) s5 of
                                                  (Some e, s6) \<Rightarrow> Some (Some e, cleanup b s6)
                                                | (None, s6) \<Rightarrow> Some (None, s6)))))))))))"

text \<open>\<^verbatim>\<open>Flush\<close>: every entry of the skip list in order, then \<^verbatim>\<open>Finish\<close>.\<close>

fun add_all :: "(bytes \<Rightarrow> u32) \<Rightarrow> (bytes \<times> slice) list \<Rightarrow> Builder \<Rightarrow> fs \<Rightarrow> error option \<times> Builder \<times> fs" where
  "add_all murmur [] b s = (None, b, s)"
| "add_all murmur ((k, v) # kvs) b s =
     (case Builder_Add murmur k v b s of
        (Some e, b1, s1) \<Rightarrow> (Some e, b1, s1)
      | (None, b1, s1) \<Rightarrow> add_all murmur kvs b1 s1)"

definition Builder_Flush :: "(bytes \<Rightarrow> u32) \<Rightarrow> SkipList \<Rightarrow> Builder \<Rightarrow> fs \<Rightarrow> (error option \<times> fs) option" where
  "Builder_Flush murmur skiplist b s =
     (case SkipList_entries skiplist of
        None \<Rightarrow> None
      | Some es \<Rightarrow>
          (case add_all murmur es b s of
             (Some e, b1, s1) \<Rightarrow> Some (Some e, cleanup b1 s1)
           | (None, b1, s1) \<Rightarrow> Finish b1 s1))"

section \<open>The image of a table\<close>

definition sst_record :: "bytes \<times> bytes \<Rightarrow> bytes" where
  "sst_record e = PutUint32 (of_nat (length (fst e))) @ PutUint32 (of_nat (length (snd e))) @ fst e @ snd e"

abbreviation sst_block :: "(bytes \<times> bytes) list \<Rightarrow> bytes" where
  "sst_block es \<equiv> concat (map sst_record es)"

text \<open>The sparse index of a list of entries: which positions get an index entry.\<close>

fun index_from :: "int \<Rightarrow> int \<Rightarrow> (bytes \<times> bytes) list \<Rightarrow> IndexEntry list" where
  "index_from pos last_pos [] = []"
| "index_from pos last_pos (e # es) =
     (let pos' = pos + int (length (sst_record e))
      in if pos = 0 \<or> pos - last_pos \<ge> IndexInterval
         then \<lparr>IndexKey = fst e, Offset = pos\<rparr> # index_from pos' pos es
         else index_from pos' last_pos es)"

definition sst_index :: "(bytes \<times> bytes) list \<Rightarrow> IndexEntry list" where
  "sst_index es = index_from 0 0 es"

definition sst_filter :: "(bytes \<Rightarrow> u32) \<Rightarrow> (bytes \<times> bytes) list \<Rightarrow> bytes" where
  "sst_filter murmur es =
     (case add_hashes (map (\<lambda>e. HashKey murmur (fst e)) es) (NewBloomFilter (length es)) of
        None \<Rightarrow> [] | Some bf \<Rightarrow> Bloom_Bytes bf)"

text \<open>The whole file: data block, filter block, index block, footer.\<close>

definition sst_image :: "(bytes \<Rightarrow> u32) \<Rightarrow> (bytes \<times> bytes) list \<Rightarrow> bytes" where
  "sst_image murmur es =
     (let block = sst_block es; fd = sst_filter murmur es
      in block @ PutUint32 (of_nat (length fd)) @ fd @ concat (index_writes (sst_index es))
         @ PutUint64 (of_int (int (length block + 4 + length fd)))
         @ PutUint64 (of_int (int (length block))))"

abbreviation plain :: "bytes \<times> slice \<Rightarrow> bytes \<times> bytes" where
  "plain e \<equiv> (fst e, bytes_of (snd e))"

lemma map_of_plain: "map_of (map plain es) k = map_option bytes_of (map_of es k)"
  by (induction es) auto

lemma length_sst_record [simp]: "length (sst_record e) = 8 + length (fst e) + length (snd e)"
  by (simp add: sst_record_def)

section \<open>What a build without faults writes\<close>

lemma write_seq_quiet:
  "quiet s \<Longrightarrow> i < length (fs_data s) \<Longrightarrow>
    write_seq i bs s = (None, s\<lparr>fs_data := (fs_data s)[i := fs_data s ! i @ concat bs]\<rparr>)"
proof (induction bs arbitrary: s)
  case Nil
  then show ?case by simp
next
  case (Cons b bs)
  then show ?case by (simp add: file_Write_quiet)
qed

lemma note_key_simps [simp]:
  "b_file (note_key murmur key b) = b_file b"
  "tmpFilename (note_key murmur key b) = tmpFilename b"
  "finalFilename (note_key murmur key b) = finalFilename b"
  "bytesWritten (note_key murmur key b) = bytesWritten b"
  "hashes (note_key murmur key b) = hashes b @ [HashKey murmur key]"
  by (simp_all add: note_key_def Let_def)

lemma note_key_index:
  "index (note_key murmur k b) @
     index_from (bytesWritten b + int (length (sst_record (k, v)))) (lastIndexPos (note_key murmur k b)) es
   = index b @ index_from (bytesWritten b) (lastIndexPos b) ((k, v) # es)"
  by (simp add: note_key_def Let_def)

lemma Builder_Add_quiet:
  assumes "quiet s" "b_file b < length (fs_data s)"
  shows "Builder_Add murmur k v b s =
    (None, (note_key murmur k b)\<lparr>bytesWritten := bytesWritten b + int (length (sst_record (k, bytes_of v)))\<rparr>,
     s\<lparr>fs_data := (fs_data s)[b_file b := fs_data s ! b_file b @ sst_record (k, bytes_of v)]\<rparr>)"
  unfolding Builder_Add_def Let_def note_key_simps write_seq_quiet [OF assms]
  by (simp add: sst_record_def)

text \<open>The state of the builder after some entries, over the file it started from.\<close>

definition built :: "(bytes \<Rightarrow> u32) \<Rightarrow> (bytes \<times> bytes) list \<Rightarrow> Builder \<Rightarrow> Builder \<Rightarrow> bool" where
  "built murmur es b0 b \<longleftrightarrow>
     b_file b = b_file b0 \<and> tmpFilename b = tmpFilename b0 \<and> finalFilename b = finalFilename b0 \<and>
     bytesWritten b = bytesWritten b0 + int (length (sst_block es)) \<and>
     hashes b = hashes b0 @ map (\<lambda>e. HashKey murmur (fst e)) es \<and>
     index b = index b0 @ index_from (bytesWritten b0) (lastIndexPos b0) es"

lemma add_all_quiet:
  "quiet s \<Longrightarrow> b_file b < length (fs_data s) \<Longrightarrow>
    \<exists>b'. add_all murmur es b s =
        (None, b', s\<lparr>fs_data := (fs_data s)[b_file b := fs_data s ! b_file b @ sst_block (map plain es)]\<rparr>)
      \<and> built murmur (map plain es) b b'"
proof (induction es arbitrary: b s)
  case Nil
  then show ?case by (simp add: built_def)
next
  case (Cons e es)
  obtain k v where e: "e = (k, v)" by force
  let ?b1 = "(note_key murmur k b)\<lparr>bytesWritten := bytesWritten b + int (length (sst_record (k, bytes_of v)))\<rparr>"
  let ?s1 = "s\<lparr>fs_data := (fs_data s)[b_file b := fs_data s ! b_file b @ sst_record (k, bytes_of v)]\<rparr>"
  obtain b2 where b2: "add_all murmur es ?b1 ?s1 =
        (None, b2, ?s1\<lparr>fs_data := (fs_data ?s1)[b_file b := fs_data ?s1 ! b_file b @ sst_block (map plain es)]\<rparr>)"
    "built murmur (map plain es) ?b1 b2"
    using Cons.IH [of ?s1 ?b1] Cons.prems by auto
  have "built murmur (map plain (e # es)) b b2"
    using b2(2) note_key_index [of murmur k b "bytes_of v" "map plain es"]
    by (simp add: built_def e)
  with b2(1) Builder_Add_quiet [OF Cons.prems, of murmur k v] Cons.prems show ?case
    by (auto simp: e)
qed

lemma concat_index_writes: "concat (index_writes ies) =
    PutUint32 (of_nat (length ies)) @
      concat (map (\<lambda>e. PutUint32 (of_nat (length (IndexKey e))) @ IndexKey e @ PutUint64 (of_int (Offset e))) ies)"
  by (induction ies) (simp_all add: index_writes_def)

text \<open>
  A whole build: without faults the temporary file ends up, complete, under its final name.
\<close>

lemma Finish_quiet:
  assumes q: "quiet s" and b: "built murmur es b0 b"
    and b0: "bytesWritten b0 = 0" "lastIndexPos b0 = 0" "index b0 = []" "hashes b0 = []"
    and i: "b_file b < length (fs_data s)" "fs_data s ! b_file b = sst_block es"
    and n: "length es \<le> max_bloom_keys"
    and d: "map_of (fs_dir s) (tmpFilename b) = Some (b_file b)" "tmpFilename b \<noteq> finalFilename b"
  shows "Finish b s = Some (None,
    s\<lparr>fs_data := (fs_data s)[b_file b := sst_image murmur es],
      fs_dir := AList.update (finalFilename b) (b_file b) (AList.delete (tmpFilename b) (fs_dir s))\<rparr>)"
proof -
  let ?hs = "map (\<lambda>e. HashKey murmur (fst e)) es"
  obtain bf where bf: "add_hashes ?hs (NewBloomFilter (length es)) = Some bf"
    using add_hashes_total [OF NewBloomFilter_bit_length [OF n]] by blast
  have fd: "sst_filter murmur es = Bloom_Bytes bf" by (simp add: sst_filter_def bf)
  have bs: "bytesWritten b = int (length (sst_block es))" "hashes b = ?hs" "index b = sst_index es"
    using b b0 by (simp_all add: built_def sst_index_def)
  note [simp] = write_seq_quiet [OF _]
  show ?thesis
    using q i d bf
    by (simp add: Finish_def writeIndex_def bs Let_def file_Sync_quiet file_Close_quiet os_Rename_def
        sst_image_def fd add.assoc del: write_seq.simps)
qed

text \<open>Creating, filling and finishing a table under a fresh temporary name.\<close>

definition tmp_name :: "string \<Rightarrow> int \<Rightarrow> string" where
  "tmp_name path now = path @ ''.tmp.'' @ Sprintf_d now"

definition new_table :: "string \<Rightarrow> int \<Rightarrow> bytes \<Rightarrow> fs \<Rightarrow> fs" where
  "new_table path now img s =
     s\<lparr>fs_data := fs_data s @ [img],
       fs_dir := AList.update path (length (fs_data s))
         (AList.delete (tmp_name path now) (AList.update (tmp_name path now) (length (fs_data s)) (fs_dir s)))\<rparr>"

definition fresh_builder :: "string \<Rightarrow> int \<Rightarrow> fs \<Rightarrow> Builder" where
  "fresh_builder path now s =
     \<lparr>b_file = length (fs_data s), tmpFilename = tmp_name path now, finalFilename = path, index = [],
      bytesWritten = 0, lastIndexPos = 0, hashes = []\<rparr>"

lemma NewBuilder_quiet:
  assumes "quiet s" "map_of (fs_dir s) (tmp_name path now) = None"
  shows "NewBuilder path now s =
    (Inr (fresh_builder path now s), snd (new_inode (tmp_name path now) s))"
  using assms
  by (simp add: NewBuilder_def os_Create_def tmp_name_def fresh_builder_def Let_def new_inode_def)

lemma add_all_Finish_quiet:
  fixes path :: string and now :: int
  assumes "quiet s" "length es \<le> max_bloom_keys"
  defines "s1 \<equiv> snd (new_inode (tmp_name path now) s)"
  shows "\<exists>b' s2. add_all murmur es (fresh_builder path now s) s1 = (None, b', s2) \<and>
    Finish b' s2 = Some (None, new_table path now (sst_image murmur (map plain es)) s)"
proof -
  let ?b = "fresh_builder path now s"
  have s1: "quiet s1" "b_file ?b < length (fs_data s1)" "fs_data s1 = fs_data s @ [[]]"
    "fs_dir s1 = AList.update (tmp_name path now) (length (fs_data s)) (fs_dir s)"
    using assms by (simp_all add: s1_def new_inode_def fresh_builder_def)
  obtain b' where b': "add_all murmur es ?b s1 =
      (None, b', s1\<lparr>fs_data := (fs_data s1)[b_file ?b := fs_data s1 ! b_file ?b @ sst_block (map plain es)]\<rparr>)"
    "built murmur (map plain es) ?b b'"
    using add_all_quiet [OF s1(1,2)] by blast
  let ?s2 = "s1\<lparr>fs_data := (fs_data s1)[b_file ?b := fs_data s1 ! b_file ?b @ sst_block (map plain es)]\<rparr>"
  have names: "b_file b' = length (fs_data s)" "tmpFilename b' = tmp_name path now" "finalFilename b' = path"
    using b'(2) by (simp_all add: built_def fresh_builder_def)
  have "Finish b' ?s2 = Some (None,
    ?s2\<lparr>fs_data := (fs_data ?s2)[b_file b' := sst_image murmur (map plain es)],
      fs_dir := AList.update (finalFilename b') (b_file b') (AList.delete (tmpFilename b') (fs_dir ?s2))\<rparr>)"
    by (rule Finish_quiet [OF _ b'(2)])
      (use assms(2) s1 names in \<open>auto simp: fresh_builder_def AList.update_conv' tmp_name_def\<close>)
  also have "?s2\<lparr>fs_data := (fs_data ?s2)[b_file b' := sst_image murmur (map plain es)],
      fs_dir := AList.update (finalFilename b') (b_file b') (AList.delete (tmpFilename b') (fs_dir ?s2))\<rparr>
      = new_table path now (sst_image murmur (map plain es)) s"
    using names s1 by (simp add: new_table_def fresh_builder_def s1_def new_inode_def)
  finally show ?thesis using b'(1) by blast
qed

lemma Builder_Flush_quiet:
  assumes "quiet s" "skip_ok sl" "length (skip_content sl) \<le> max_bloom_keys"
  shows "Builder_Flush murmur sl (fresh_builder path now s) (snd (new_inode (tmp_name path now) s)) =
    Some (None, new_table path now (sst_image murmur (map plain (skip_content sl))) s)"
  using add_all_Finish_quiet [OF assms(1,3), where path = path and now = now and murmur = murmur]
  by (auto simp: Builder_Flush_def SkipList_entries_ok [OF assms(2)])

lemma new_table_simps [simp]:
  "fs_data (new_table path now img s) = fs_data s @ [img]"
  "fs_faults (new_table path now img s) = fs_faults s"
  by (simp_all add: new_table_def)

lemma new_table_dir:
  assumes "map_of (fs_dir s) (tmp_name path now) = None"
  shows "map_of (fs_dir (new_table path now img s)) = (map_of (fs_dir s))(path \<mapsto> length (fs_data s))"
  using assms
  by (auto simp: new_table_def AList.update_conv' AList.delete_conv' fun_eq_iff)

end
