(* ===== verification/Reader.thy ===== *)
theory Reader
  imports Builder
begin

text \<open>
  Reading an SSTable, \<^verbatim>\<open>src/engine/sstable/reader.go\<close> and
  \<^verbatim>\<open>src/engine/sstable/iterator.go\<close>: loading the filter and the sparse index from the footer,
  point lookups (filter, binary search in the index, forward scan), \<^verbatim>\<open>ReadAll\<close> and the
  sequential iterator. An open table is never written again, so an iterator carries the bytes it
  has not read yet. Results are as in the memtable: \<open>Some None\<close> is \<^verbatim>\<open>(nil, false)\<close> and
  \<open>None\<close> is a panic.
\<close>

section \<open>Opening a table\<close>

record Reader =
  r_path :: string
  r_file :: nat
  r_open :: bool
  r_index :: "IndexEntry list"
  r_filter :: "BloomFilter option"

text \<open>\<^verbatim>\<open>Seek(offset, 0)\<close> fails on a negative offset; past the end the reads fail.\<close>

definition Seek :: "int \<Rightarrow> bytes \<Rightarrow> error + bytes" where
  "Seek offset content = (if offset < 0 then Inl ErrIO else Inr (drop (nat offset) content))"

text \<open>The two offsets of the 16-byte footer, as 64-bit signed integers.\<close>

definition footer_index :: "bytes \<Rightarrow> int" where
  "footer_index content = sint (Uint64 (take 8 (drop (length content - 16) content)))"

definition footer_filter :: "bytes \<Rightarrow> int" where
  "footer_filter content = sint (Uint64 (take 8 (drop (length content - 8) content)))"

fun read_index :: "nat \<Rightarrow> bytes \<Rightarrow> error + IndexEntry list" where
  "read_index 0 rest = Inr []"
| "read_index (Suc n) rest =
     (case Read_u32 rest of
        Inl e \<Rightarrow> Inl (ErrRead e)
      | Inr (keyLen, r1) \<Rightarrow>
          (case ReadFull (unat keyLen) r1 of
             Inl e \<Rightarrow> Inl (ErrRead e)
           | Inr (key, r2) \<Rightarrow>
               (case Read_u64 r2 of
                  Inl e \<Rightarrow> Inl (ErrRead e)
                | Inr (offset, r3) \<Rightarrow>
                    (case read_index n r3 of
                       Inl e \<Rightarrow> Inl e
                     | Inr es \<Rightarrow> Inr (\<lparr>IndexKey = key, Offset = sint offset\<rparr> # es)))))"

definition loadIndex :: "bytes \<Rightarrow> error + IndexEntry list \<times> BloomFilter option" where
  "loadIndex content =
     (if length content < 16 then Inr ([], None)
      else (case Seek (footer_filter content) content of
              Inl e \<Rightarrow> Inl e
            | Inr r1 \<Rightarrow>
                (case Read_u32 r1 of
                   Inl e \<Rightarrow> Inl (ErrRead e)
                 | Inr (filterLen, r2) \<Rightarrow>
                     (case ReadFull (unat filterLen) r2 of
                        Inl e \<Rightarrow> Inl (ErrRead e)
                      | Inr (filterData, _) \<Rightarrow>
                          (case Seek (footer_index content) content of
                             Inl e \<Rightarrow> Inl e
                           | Inr r3 \<Rightarrow>
                               (case Read_u32 r3 of
                                  Inl e \<Rightarrow> Inl (ErrRead e)
                                | Inr (numEntries, r4) \<Rightarrow>
                                    (case read_index (unat numEntries) r4 of
                                       Inl e \<Rightarrow> Inl e
                                     | Inr es \<Rightarrow> Inr (es, Some (LoadBloomFilter filterData)))))))))"

definition NewReader :: "string \<Rightarrow> fs \<Rightarrow> (error + Reader) \<times> fs" where
  "NewReader filename s =
     (case os_Open filename s of
        (Inl e, s1) \<Rightarrow> (Inl e, s1)
      | (Inr i, s1) \<Rightarrow>
          (case loadIndex (fs_data s1 ! i) of
             Inl e \<Rightarrow> (Inl e, snd (file_Close i s1))
           | Inr (ies, bf) \<Rightarrow>
               (Inr \<lparr>r_path = filename, r_file = i, r_open = True, r_index = ies, r_filter = bf\<rparr>, s1)))"

definition Reader_Close :: "Reader \<Rightarrow> fs \<Rightarrow> error option \<times> Reader \<times> fs" where
  "Reader_Close r s =
     (if \<not> r_open r then (Some ErrClosed, r, s)
      else (case file_Close (r_file r) s of (e, s1) \<Rightarrow> (e, r\<lparr>r_open := False\<rparr>, s1)))"

definition Reader_Path :: "Reader \<Rightarrow> string" where
  "Reader_Path r = r_path r"

section \<open>Point lookup\<close>

function find_loop :: "IndexEntry list \<Rightarrow> bytes \<Rightarrow> int \<Rightarrow> int \<Rightarrow> int \<Rightarrow> int" where
  "find_loop idx searchKey left right result =
     (if left \<le> right
      then (let mid = (left + right) div 2;
                cmp = bytes_Compare (IndexKey (idx ! nat mid)) searchKey
            in if cmp \<le> 0 then find_loop idx searchKey (mid + 1) right (Offset (idx ! nat mid))
               else find_loop idx searchKey left (mid - 1) result)
      else result)"
  by pat_completeness auto
termination
  by (relation "measure (\<lambda>(idx, k, left, right, res). nat (right - left + 1))") auto

declare find_loop.simps [simp del]

definition findIndexEntry :: "IndexEntry list \<Rightarrow> bytes \<Rightarrow> int" where
  "findIndexEntry idx searchKey =
     (if length idx = 0 then 0 else find_loop idx searchKey 0 (int (length idx) - 1) 0)"

text \<open>
  The scan. It stops at the end of the file, at a larger key, or where a read fails; it knows
  nothing of where the data block ends.
\<close>

function get_loop :: "bytes \<Rightarrow> bytes \<Rightarrow> bytes option" where
  "get_loop searchKey rest =
     (case Read_u32 rest of
        Inl _ \<Rightarrow> None
      | Inr (keySize, r1) \<Rightarrow>
          (case Read_u32 r1 of
             Inl _ \<Rightarrow> None
           | Inr (valSize, r2) \<Rightarrow>
               (case ReadFull (unat keySize) r2 of
                  Inl _ \<Rightarrow> None
                | Inr (key, r3) \<Rightarrow>
                    (let cmp = bytes_Compare key searchKey
                     in if cmp = 0
                        then (case ReadFull (unat valSize) r3 of Inl _ \<Rightarrow> None | Inr (val, _) \<Rightarrow> Some val)
                        else if cmp > 0 then None
                        else get_loop searchKey (drop (unat valSize) r3)))))"
  by pat_completeness auto
termination
  by (relation "measure (\<lambda>(k, rest). length rest)")
    (auto dest!: Read_u32_length simp: ReadFull_Inr)

declare get_loop.simps [simp del]

definition Reader_Get :: "(bytes \<Rightarrow> u32) \<Rightarrow> bytes \<Rightarrow> Reader \<Rightarrow> fs \<Rightarrow> bytes option option" where
  "Reader_Get murmur searchKey r s =
     (case (case r_filter r of None \<Rightarrow> Some True | Some bf \<Rightarrow> MayContain murmur searchKey bf) of
        None \<Rightarrow> None
      | Some False \<Rightarrow> Some None
      | Some True \<Rightarrow>
          if \<not> r_open r then Some None
          else (case Seek (findIndexEntry (r_index r) searchKey) (fs_data s ! r_file r) of
                  Inl _ \<Rightarrow> Some None
                | Inr rest \<Rightarrow> Some (get_loop searchKey rest)))"

section \<open>Reading a whole table\<close>

text \<open>What \<^verbatim>\<open>ReadAll\<close> and \<^verbatim>\<open>Iterator.Next\<close> read after the key size.\<close>

definition read_tail :: "u32 \<Rightarrow> bytes \<Rightarrow> read_err + (bytes \<times> bytes) \<times> bytes" where
  "read_tail keySize r1 =
     (case Read_u32 r1 of
        Inl e \<Rightarrow> Inl e
      | Inr (valSize, r2) \<Rightarrow>
          (case ReadFull (unat keySize) r2 of
             Inl e \<Rightarrow> Inl e
           | Inr (key, r3) \<Rightarrow>
               (case ReadFull (unat valSize) r3 of
                  Inl e \<Rightarrow> Inl e
                | Inr (val, r4) \<Rightarrow> Inr ((key, val), r4))))"

text \<open>\<^verbatim>\<open>int64(8 + keySize + valSize)\<close>, the sum taken in 32 bits.\<close>

definition entry_size :: "bytes \<Rightarrow> bytes \<Rightarrow> int" where
  "entry_size key val = uint (8 + of_nat (length key) + of_nat (length val) :: u32)"

definition data_limit :: "bytes \<Rightarrow> int" where
  "data_limit content =
     (if length content > 16 then footer_filter content else int (length content))"

lemma read_tail_length: "read_tail ks r1 = Inr (e, r4) \<Longrightarrow> length r4 < length r1"
  by (auto simp: read_tail_def ReadFull_Inr dest!: Read_u32_length split: sum.splits)

function readall_loop :: "int \<Rightarrow> int \<Rightarrow> bytes \<Rightarrow> (bytes \<times> bytes) list \<Rightarrow> error + (bytes \<times> bytes) list" where
  "readall_loop lim currentPos rest data =
     (if currentPos < lim
      then (case Read_u32 rest of
              Inl EOF \<Rightarrow> Inr data
            | Inl e \<Rightarrow> Inl (ErrRead e)
            | Inr (keySize, r1) \<Rightarrow>
                (case read_tail keySize r1 of
                   Inl e \<Rightarrow> Inl (ErrRead e)
                 | Inr ((key, val), r4) \<Rightarrow>
                     readall_loop lim (currentPos + entry_size key val) r4 (AList.update key val data)))
      else Inr data)"
  by pat_completeness auto
termination
  by (relation "measure (\<lambda>(lim, pos, rest, data). length rest)")
    (auto dest!: Read_u32_length read_tail_length)

declare readall_loop.simps [simp del]

definition ReadAll :: "Reader \<Rightarrow> fs \<Rightarrow> error + (bytes \<times> bytes) list" where
  "ReadAll r s =
     (if \<not> r_open r then Inl ErrClosed
      else (let content = fs_data s ! r_file r
            in readall_loop (data_limit content) 0 content []))"

record Iterator =
  it_file :: nat
  it_open :: bool
  it_rest :: bytes
  it_limit :: int
  it_pos :: int
  it_key :: bytes
  it_val :: bytes
  it_err :: "read_err option"

text \<open>\<^verbatim>\<open>NewIterator\<close> opens the file again, by its name.\<close>

definition Reader_NewIterator :: "Reader \<Rightarrow> fs \<Rightarrow> (error + Iterator) \<times> fs" where
  "Reader_NewIterator r s =
     (case os_Open (r_path r) s of
        (Inl e, s1) \<Rightarrow> (Inl e, s1)
      | (Inr i, s1) \<Rightarrow>
          (Inr \<lparr>it_file = i, it_open = True, it_rest = fs_data s1 ! i, it_limit = data_limit (fs_data s1 ! i), it_pos = 0,
                it_key = [], it_val = [], it_err = None\<rparr>, s1))"

definition SST_Next :: "Iterator \<Rightarrow> bool \<times> Iterator" where
  "SST_Next it =
     (if it_pos it \<ge> it_limit it then (False, it)
      else (case Read_u32 (it_rest it) of
              Inl e \<Rightarrow> (False, it\<lparr>it_err := Some e\<rparr>)
            | Inr (keySize, r1) \<Rightarrow>
                (case read_tail keySize r1 of
                   Inl e \<Rightarrow> (False, it\<lparr>it_err := Some e\<rparr>)
                 | Inr ((key, val), r4) \<Rightarrow>
                     (True, it\<lparr>it_key := key, it_val := val, it_rest := r4,
                               it_pos := it_pos it + entry_size key val\<rparr>))))"

definition SST_Error :: "Iterator \<Rightarrow> read_err option" where
  "SST_Error it = (if it_err it = Some EOF then None else it_err it)"

definition SST_Close :: "Iterator \<Rightarrow> fs \<Rightarrow> error option \<times> Iterator \<times> fs" where
  "SST_Close it s =
     (if \<not> it_open it then (Some ErrClosed, it, s)
      else (case file_Close (it_file it) s of (r, s1) \<Rightarrow> (r, it\<lparr>it_open := False\<rparr>, s1)))"

lemma SST_Close_quiet [simp]: "quiet s \<Longrightarrow> snd (snd (SST_Close it s)) = s"
  by (simp add: SST_Close_def file_Close_quiet)

lemma SST_Next_length: "SST_Next it = (True, it') \<Longrightarrow> length (it_rest it') < length (it_rest it)"
  by (auto simp: SST_Next_def dest!: Read_u32_length read_tail_length split: if_splits sum.splits)

text \<open>A whole \<^verbatim>\<open>for iter.Next()\<close> loop: the entries its body sees, and the final iterator.\<close>

function iter_all :: "Iterator \<Rightarrow> (bytes \<times> bytes) list \<times> Iterator" where
  "iter_all it =
     (case SST_Next it of
        (True, it') \<Rightarrow> (let (es, it'') = iter_all it' in ((it_key it', it_val it') # es, it''))
      | (False, it') \<Rightarrow> ([], it'))"
  by pat_completeness auto
termination
  by (relation "measure (\<lambda>it. length (it_rest it))") (auto dest!: SST_Next_length [OF sym])

declare iter_all.simps [simp del]

section \<open>Loading what the builder wrote\<close>

definition sst_fits :: "bytes \<times> bytes \<Rightarrow> bool" where
  "sst_fits e \<longleftrightarrow> 8 + length (fst e) + length (snd e) < 2 ^ 32"

text \<open>The tables the format can represent, in the order the builder is fed.\<close>

definition table_ok :: "(bytes \<Rightarrow> u32) \<Rightarrow> (bytes \<times> bytes) list \<Rightarrow> bool" where
  "table_ok murmur es \<longleftrightarrow> ksorted es \<and> list_all sst_fits es \<and> length es \<le> max_bloom_keys \<and>
     length (sst_image murmur es) < 2 ^ 63"

lemma sint_of_int_64: "0 \<le> x \<Longrightarrow> x < 2 ^ 63 \<Longrightarrow> sint (of_int x :: u64) = x"
  by (simp add: signed_of_int signed_take_bit_int_eq_self)

lemma entry_size_fits: "sst_fits e \<Longrightarrow> entry_size (fst e) (snd e) = int (length (sst_record e))"
proof -
  assume "sst_fits e"
  then have a: "8 + length (fst e) + length (snd e) < 2 ^ 32" by (simp add: sst_fits_def)
  have "(8 + of_nat (length (fst e)) + of_nat (length (snd e)) :: u32)
      = of_nat (8 + length (fst e) + length (snd e))" by simp
  then have "unat (8 + of_nat (length (fst e)) + of_nat (length (snd e)) :: u32)
      = 8 + length (fst e) + length (snd e)" using a by (simp only: unat_of_nat_u32)
  then show ?thesis by (simp add: entry_size_def uint_nat)
qed

definition sst_decode :: "bytes \<Rightarrow> ((bytes \<times> bytes) \<times> bytes) option" where
  "sst_decode b =
     (case Read_u32 b of
        Inl _ \<Rightarrow> None
      | Inr (keySize, r1) \<Rightarrow> (case read_tail keySize r1 of Inl _ \<Rightarrow> None | Inr x \<Rightarrow> Some x))"

lemma read_tail_record:
  "length (fst e) < 2 ^ 32 \<Longrightarrow> length (snd e) < 2 ^ 32 \<Longrightarrow>
    read_tail (of_nat (length (fst e))) (PutUint32 (of_nat (length (snd e))) @ fst e @ snd e @ rest)
      = Inr (e, rest)"
  by (simp add: read_tail_def ReadFull_append unat_of_nat_u32)

lemma Read_u32_record:
  "Read_u32 (sst_record e @ rest) =
    Inr (of_nat (length (fst e)), PutUint32 (of_nat (length (snd e))) @ fst e @ snd e @ rest)"
  by (simp add: sst_record_def)

lemma sst_decode_sound:
  assumes "sst_decode b = Some (e, rest)"
  shows "b = sst_record e @ rest \<and> length (fst e) < 2 ^ 32 \<and> length (snd e) < 2 ^ 32"
proof -
  obtain key val where e: "e = (key, val)" by force
  from assms obtain kb vb where
    "length kb = 4" "length vb = 4" "b = kb @ vb @ key @ val @ rest"
    "length key = unat (Uint32 kb)" "length val = unat (Uint32 vb)"
    by (auto simp: e sst_decode_def read_tail_def Read_u32_def ReadFull_Inr split: sum.splits)
  then show ?thesis
    using unat_u32_bound [of "Uint32 kb"] unat_u32_bound [of "Uint32 vb"]
    by (simp add: e sst_record_def PutUint32_Uint32)
qed

lemma sst_decode_record:
  "length (fst e) < 2 ^ 32 \<Longrightarrow> length (snd e) < 2 ^ 32 \<Longrightarrow>
    sst_decode (sst_record e @ rest) = Some (e, rest)"
  by (simp add: sst_decode_def Read_u32_record read_tail_record)

interpretation sst_frames: framing sst_record sst_decode sst_fits
proof
  show "sst_fits e \<Longrightarrow> sst_decode (sst_record e @ rest) = Some (e, rest)" for e rest
    by (rule sst_decode_record) (simp_all add: sst_fits_def)
next
  fix e p
  assume e: "sst_fits e" "strict_prefix p (sst_record e)"
  show "sst_decode p = None"
  proof (cases "sst_decode p")
    case (Some x)
    then obtain e' rest where x: "sst_decode p = Some (e', rest)" by (cases x) auto
    obtain q where q: "sst_record e = p @ q" "q \<noteq> []"
      using e(2) by (metis prefix_order.less_le prefixE append_Nil2)
    from sst_decode_sound [OF x] have "sst_decode (p @ q) = Some (e', rest @ q)"
      by (simp add: sst_decode_record)
    moreover have "sst_decode (p @ q) = Some (e, [])"
      using sst_decode_record [of e "[]"] e(1) q(1) by (simp add: sst_fits_def)
    ultimately show ?thesis using q(2) by simp
  qed simp
qed

subsection \<open>The index and the footer\<close>

definition ie_fits :: "IndexEntry \<Rightarrow> bool" where
  "ie_fits e \<longleftrightarrow> length (IndexKey e) < 2 ^ 32 \<and> 0 \<le> Offset e \<and> Offset e < 2 ^ 63"

lemma read_index_writes:
  "list_all ie_fits ies \<Longrightarrow>
    read_index (length ies)
      (concat (map (\<lambda>e. PutUint32 (of_nat (length (IndexKey e))) @ IndexKey e @ PutUint64 (of_int (Offset e))) ies)
         @ rest) = Inr ies"
  by (induction ies)
    (simp_all add: ReadFull_append unat_of_nat_u32 sint_of_int_64 ie_fits_def)

text \<open>Every index entry points at the start of a record and carries its key.\<close>

lemma index_from_points:
  "ie \<in> set (index_from pos lp es) \<Longrightarrow>
    \<exists>es1 e es2. es = es1 @ e # es2 \<and> IndexKey ie = fst e \<and> Offset ie = pos + int (length (sst_block es1))"
proof (induction es arbitrary: pos lp)
  case Nil
  then show ?case by simp
next
  case (Cons e es)
  let ?pos' = "pos + int (length (sst_record e))"
  consider "ie = \<lparr>IndexKey = fst e, Offset = pos\<rparr>" | lp' where "ie \<in> set (index_from ?pos' lp' es)"
    using Cons.prems by (auto simp: Let_def split: if_splits)
  then show ?case
  proof cases
    case 1
    then have "e # es = [] @ e # es \<and> IndexKey ie = fst e \<and> Offset ie = pos + int (length (sst_block []))"
      by simp
    then show ?thesis by blast
  next
    case 2
    then obtain es1 e' es2 where "es = es1 @ e' # es2" "IndexKey ie = fst e'"
      "Offset ie = ?pos' + int (length (sst_block es1))"
      using Cons.IH by blast
    then have "e # es = (e # es1) @ e' # es2 \<and> IndexKey ie = fst e'
        \<and> Offset ie = pos + int (length (sst_block (e # es1)))" by simp
    then show ?thesis by blast
  qed
qed

lemma length_index_from: "length (index_from pos lp es) \<le> length es"
  by (induction es arbitrary: pos lp) (auto simp: Let_def intro: le_SucI)

lemma index_from_keys: "ie \<in> set (index_from pos lp es) \<Longrightarrow> IndexKey ie \<in> fst ` set es"
  using index_from_points by fastforce

lemma index_from_sorted:
  "ksorted es \<Longrightarrow> sorted_wrt (<) (map IndexKey (index_from pos lp es))"
  by (induction es arbitrary: pos lp) (fastforce simp: Let_def dest: index_from_keys)+

lemma sst_image_split:
  "sst_image murmur es = (sst_block es @ PutUint32 (of_nat (length (sst_filter murmur es)))
      @ sst_filter murmur es @ concat (index_writes (sst_index es)))
    @ PutUint64 (of_int (int (length (sst_block es) + 4 + length (sst_filter murmur es))))
    @ PutUint64 (of_int (int (length (sst_block es))))"
  by (simp add: sst_image_def Let_def)

lemma sst_filter_length:
  "length es \<le> max_bloom_keys \<Longrightarrow>
    sst_filter murmur es \<noteq> [] \<and> length (sst_filter murmur es) < 2 ^ 32 \<and>
    bit_length (sst_filter murmur es) \<noteq> 0 \<and>
    (\<forall>e \<in> set es. passes (HashKey murmur (fst e)) (sst_filter murmur es))"
proof -
  assume n: "length es \<le> max_bloom_keys"
  let ?hs = "map (\<lambda>e. HashKey murmur (fst e)) es"
  obtain bf where bf: "add_hashes ?hs (NewBloomFilter (length es)) = Some bf"
    "length (bitset bf) = length (bitset (NewBloomFilter (length es)))"
    using add_hashes_total [OF NewBloomFilter_bit_length [OF n]] by blast
  then have "sst_filter murmur es = bitset bf" by (simp add: sst_filter_def Bloom_Bytes_def)
  moreover have "bit_length (bitset bf) \<noteq> 0"
    using bf(2) NewBloomFilter_bit_length [OF n] by (simp add: bit_length_def)
  moreover have "0 < length (bitset bf)" "length (bitset bf) < 2 ^ 32"
    using n unfolding bf(2) NewBloomFilter_length by (auto simp: max_bloom_keys_def)
  ultimately show ?thesis using add_hashes_passes [OF bf(1)] by auto
qed

lemma sst_footer:
  assumes "length (sst_image murmur es) < 2 ^ 63"
  shows "footer_filter (sst_image murmur es) = int (length (sst_block es))"
    and "footer_index (sst_image murmur es) = int (length (sst_block es) + 4 + length (sst_filter murmur es))"
proof -
  let ?pre = "sst_block es @ PutUint32 (of_nat (length (sst_filter murmur es)))
      @ sst_filter murmur es @ concat (index_writes (sst_index es))"
  let ?fi = "int (length (sst_block es) + 4 + length (sst_filter murmur es))"
  let ?ff = "int (length (sst_block es))"
  have img: "sst_image murmur es = ?pre @ PutUint64 (of_int ?fi) @ PutUint64 (of_int ?ff)"
    by (rule sst_image_split)
  have b: "?fi < 2 ^ 63" "?ff < 2 ^ 63" using assms unfolding img by auto
  have "drop (length (sst_image murmur es) - 16) (sst_image murmur es) = PutUint64 (of_int ?fi) @ PutUint64 (of_int ?ff)"
    "drop (length (sst_image murmur es) - 8) (sst_image murmur es) = PutUint64 (of_int ?ff)"
    unfolding img by simp_all
  moreover have "take 8 (PutUint64 x @ y) = PutUint64 x" "take 8 (PutUint64 x) = PutUint64 x" for x y
    by simp_all
  moreover have "sint (of_int ?fi :: u64) = ?fi" "sint (of_int ?ff :: u64) = ?ff"
    by (rule sint_of_int_64; use b in linarith)+
  ultimately show "footer_filter (sst_image murmur es) = ?ff" "footer_index (sst_image murmur es) = ?fi"
    unfolding footer_filter_def footer_index_def by (simp_all only: Uint64_PutUint64)
qed

lemma loadIndex_image:
  assumes "table_ok murmur es"
  shows "loadIndex (sst_image murmur es) =
    Inr (sst_index es, Some (LoadBloomFilter (sst_filter murmur es)))"
proof -
  let ?img = "sst_image murmur es" and ?fd = "sst_filter murmur es" and ?blk = "sst_block es"
  let ?ie = "concat (map (\<lambda>e. PutUint32 (of_nat (length (IndexKey e))) @ IndexKey e
                              @ PutUint64 (of_int (Offset e))) (sst_index es))"
  define foot where "foot = PutUint64 (of_int (int (length ?blk + 4 + length ?fd)))
     @ PutUint64 (of_int (int (length ?blk)))"
  from assms have ok: "length es \<le> max_bloom_keys" "length ?img < 2 ^ 63" "list_all sst_fits es"
    by (auto simp: table_ok_def)
  have img: "?img = ?blk @ PutUint32 (of_nat (length ?fd)) @ ?fd
      @ (PutUint32 (of_nat (length (sst_index es))) @ ?ie @ foot)"
    by (simp add: sst_image_def Let_def concat_index_writes foot_def)
  have d1: "drop (nat (int (length ?blk))) ?img = PutUint32 (of_nat (length ?fd)) @ ?fd
      @ (PutUint32 (of_nat (length (sst_index es))) @ ?ie @ foot)"
    unfolding img by simp
  have d2: "drop (nat (int (length ?blk + 4 + length ?fd))) ?img
      = PutUint32 (of_nat (length (sst_index es))) @ ?ie @ foot"
    unfolding img nat_int by simp
  have "length (sst_index es) < 2 ^ 32"
    using length_index_from [of 0 0 es] ok(1) unfolding sst_index_def max_bloom_keys_def by simp
  then have ni: "unat (of_nat (length (sst_index es)) :: u32) = length (sst_index es)"
    by (rule unat_of_nat_u32)
  have nf: "unat (of_nat (length ?fd) :: u32) = length ?fd"
    using sst_filter_length [OF ok(1)] unat_of_nat_u32 by blast
  have "list_all ie_fits (sst_index es)"
    unfolding list_all_iff
  proof
    fix ie
    assume "ie \<in> set (sst_index es)"
    then obtain es1 e es2 where ie: "es = es1 @ e # es2" "IndexKey ie = fst e"
        "Offset ie = int (length (sst_block es1))"
      unfolding sst_index_def using index_from_points by fastforce
    with ok(3) have "sst_fits e" by simp
    moreover have "length (sst_block es1) \<le> length ?img" unfolding img by (simp add: ie(1))
    ultimately show "ie_fits ie" using ie ok(2) by (auto simp: ie_fits_def sst_fits_def)
  qed
  then have ri: "read_index (length (sst_index es)) (?ie @ foot) = Inr (sst_index es)"
    by (rule read_index_writes)
  have "\<not> length ?img < 16" unfolding img foot_def by simp
  then show ?thesis
    by (simp add: loadIndex_def Seek_def sst_footer [OF ok(2)] d1 [simplified] d2 [simplified]
        ReadFull_append ni nf ri)
qed

lemma data_limit_image:
  "length (sst_image murmur es) < 2 ^ 63 \<Longrightarrow> es \<noteq> [] \<or> sst_filter murmur es \<noteq> [] \<Longrightarrow>
    data_limit (sst_image murmur es) = int (length (sst_block es))"
proof -
  assume a: "length (sst_image murmur es) < 2 ^ 63" "es \<noteq> [] \<or> sst_filter murmur es \<noteq> []"
  have "length (sst_image murmur es) > 16" by (simp add: sst_image_def Let_def)
  with a show ?thesis by (simp add: data_limit_def sst_footer)
qed

section \<open>Lookup finds what the builder wrote\<close>

subsection \<open>Binary search in the sparse index\<close>

lemma find_loop_spec:
  "sorted_wrt (<) (map IndexKey idx) \<Longrightarrow> 0 \<le> left \<Longrightarrow> left \<le> right + 1 \<Longrightarrow> right < int (length idx) \<Longrightarrow>
    (\<forall>i < nat left. IndexKey (idx ! i) \<le> k) \<Longrightarrow>
    (\<forall>i. nat (right + 1) \<le> i \<and> i < length idx \<longrightarrow> k < IndexKey (idx ! i)) \<Longrightarrow>
    res = (if left = 0 then 0 else Offset (idx ! nat (left - 1))) \<Longrightarrow>
    \<exists>n \<le> length idx. (\<forall>i < n. IndexKey (idx ! i) \<le> k) \<and>
      (\<forall>i. n \<le> i \<and> i < length idx \<longrightarrow> k < IndexKey (idx ! i)) \<and>
      find_loop idx k left right res = (if n = 0 then 0 else Offset (idx ! (n - 1)))"
proof (induction idx k left right res rule: find_loop.induct)
  case (1 idx k left right res)
  have mono: "IndexKey (idx ! i) \<le> IndexKey (idx ! j)" if "i \<le> j" "j < length idx" for i j
    using "1.prems"(1) that sorted_wrt_nth_less [of "(<)" "map IndexKey idx" i j]
    by (cases "i = j") (auto intro: less_imp_le)
  show ?case
  proof (cases "left \<le> right")
    case True
    let ?mid = "(left + right) div 2"
    have m: "left \<le> ?mid" "?mid \<le> right" "nat ?mid < length idx" using True "1.prems" by linarith+
    show ?thesis
    proof (cases "IndexKey (idx ! nat ?mid) \<le> k")
      case le: True
      have step: "find_loop idx k left right res = find_loop idx k (?mid + 1) right (Offset (idx ! nat ?mid))"
        using True le by (subst find_loop.simps) (simp add: Let_def)
      have "\<forall>i < nat (?mid + 1). IndexKey (idx ! i) \<le> k"
      proof (intro allI impI)
        fix i
        assume "i < nat (?mid + 1)"
        then have "i \<le> nat ?mid" by linarith
        with mono m(3) le show "IndexKey (idx ! i) \<le> k" by (blast intro: order_trans)
      qed
      then show ?thesis
        unfolding step using "1.IH"(1) [OF True refl refl] le m "1.prems" by auto
    next
      case gt: False
      have step: "find_loop idx k left right res = find_loop idx k left (?mid - 1) res"
        using True gt by (subst find_loop.simps) (simp add: Let_def)
      have "\<forall>i. nat (?mid - 1 + 1) \<le> i \<and> i < length idx \<longrightarrow> k < IndexKey (idx ! i)"
        using mono [of "nat ?mid"] gt by (auto simp: not_le dest: less_le_trans)
      then show ?thesis
        unfolding step using "1.IH"(2) [OF True refl refl] gt m "1.prems" by auto
    qed
  next
    case False
    then have "right + 1 = left" using "1.prems" by simp
    moreover have "find_loop idx k left right res = res"
      using False by (subst find_loop.simps) simp
    ultimately show ?thesis
      using "1.prems" by (intro exI [of _ "nat left"]) (auto simp: nat_diff_distrib)
  qed
qed

text \<open>The binary search agrees with a linear scan for the last entry not above the key.\<close>

lemma findIndexEntry_last:
  assumes "sorted_wrt (<) (map IndexKey idx)"
  shows "findIndexEntry idx k =
    (let below = filter (\<lambda>e. IndexKey e \<le> k) idx in if below = [] then 0 else Offset (last below))"
proof (cases "idx = []")
  case True
  then show ?thesis by (simp add: findIndexEntry_def)
next
  case False
  have "\<exists>n \<le> length idx. (\<forall>i < n. IndexKey (idx ! i) \<le> k) \<and>
      (\<forall>i. n \<le> i \<and> i < length idx \<longrightarrow> k < IndexKey (idx ! i)) \<and>
      find_loop idx k 0 (int (length idx) - 1) 0 = (if n = 0 then 0 else Offset (idx ! (n - 1)))"
    by (rule find_loop_spec [OF assms]) auto
  then obtain n where n: "n \<le> length idx" "\<forall>i < n. IndexKey (idx ! i) \<le> k"
    "\<forall>i. n \<le> i \<and> i < length idx \<longrightarrow> k < IndexKey (idx ! i)"
    "findIndexEntry idx k = (if n = 0 then 0 else Offset (idx ! (n - 1)))"
    using False unfolding findIndexEntry_def by auto
  have "filter (\<lambda>e. IndexKey e \<le> k) (take n idx) = take n idx"
    using n(1,2) by (auto simp: filter_id_conv in_set_conv_nth)
  moreover have "filter (\<lambda>e. IndexKey e \<le> k) (drop n idx) = []"
    using n(1,3) by (auto simp: filter_empty_conv in_set_conv_nth not_le)
  ultimately have "filter (\<lambda>e. IndexKey e \<le> k) idx = take n idx"
    by (metis append_take_drop_id filter_append append_Nil2)
  with n(1,4) show ?thesis by (auto simp: Let_def last_conv_nth min_def)
qed

text \<open>So a lookup starts at a record boundary with only smaller keys before it.\<close>

lemma findIndexEntry_start:
  assumes "ksorted es"
  shows "\<exists>es1 es2. es = es1 @ es2 \<and> (\<forall>e \<in> set es1. fst e < k) \<and>
    findIndexEntry (sst_index es) k = int (length (sst_block es1))"
proof -
  let ?below = "filter (\<lambda>e. IndexKey e \<le> k) (sst_index es)"
  have f: "findIndexEntry (sst_index es) k = (if ?below = [] then 0 else Offset (last ?below))"
    using findIndexEntry_last [of "sst_index es" k] index_from_sorted [OF assms]
    by (simp add: sst_index_def Let_def)
  show ?thesis
  proof (cases "?below = []")
    case True
    with f have "es = [] @ es \<and> findIndexEntry (sst_index es) k = int (length (sst_block []))" by simp
    then show ?thesis by (metis empty_iff empty_set)
  next
    case False
    then have "last ?below \<in> set ?below" by (rule last_in_set)
    then have "last ?below \<in> set (index_from 0 0 es)" "IndexKey (last ?below) \<le> k"
      by (simp_all add: sst_index_def)
    then obtain es1 e es2 where e: "es = es1 @ e # es2" "fst e \<le> k"
        "Offset (last ?below) = int (length (sst_block es1))"
      using index_from_points by fastforce
    moreover have "\<forall>x \<in> set es1. fst x < k"
      using assms e(2) unfolding e(1) by (auto simp: sorted_wrt_append intro: less_le_trans)
    ultimately show ?thesis using False f by auto
  qed
qed

subsection \<open>The scan\<close>

lemma get_loop_record:
  assumes "sst_fits e"
  shows "get_loop k (sst_record e @ rest) =
    (if fst e = k then Some (snd e) else if k < fst e then None else get_loop k rest)"
  using assms
  by (subst get_loop.simps)
    (auto simp: sst_record_def sst_fits_def ReadFull_append unat_of_nat_u32 Let_def)

lemma get_loop_block:
  "ksorted es \<Longrightarrow> list_all sst_fits es \<Longrightarrow>
    get_loop k (sst_block es @ tail) =
      (case map_of es k of Some v \<Rightarrow> Some v
       | None \<Rightarrow> if \<exists>e \<in> set es. k < fst e then None else get_loop k tail)"
proof (induction es)
  case Nil
  then show ?case by simp
next
  case (Cons e es)
  have "map_of es k = None" if "k < fst e"
    using Cons.prems(1) that by (force simp: map_of_eq_None_iff)
  with Cons show ?case
    by (cases e) (auto simp: get_loop_record split: option.splits)
qed

section \<open>Iterating over what the builder wrote\<close>

lemma SST_Next_record:
  assumes "sst_fits e" "it_rest it = sst_record e @ rest" "it_pos it < it_limit it"
  shows "SST_Next it = (True, it\<lparr>it_key := fst e, it_val := snd e, it_rest := rest,
    it_pos := it_pos it + int (length (sst_record e))\<rparr>)"
proof -
  have "read_tail (of_nat (length (fst e))) (PutUint32 (of_nat (length (snd e))) @ fst e @ snd e @ rest)
      = Inr (e, rest)"
    using assms(1) by (intro read_tail_record) (simp_all add: sst_fits_def)
  then show ?thesis
    using assms entry_size_fits [OF assms(1)]
    by (cases e) (simp add: SST_Next_def Read_u32_record)
qed

lemma iter_all_block:
  "list_all sst_fits es \<Longrightarrow> it_rest it = sst_block es @ tail \<Longrightarrow>
    it_limit it = it_pos it + int (length (sst_block es)) \<Longrightarrow>
    \<exists>it'. iter_all it = (es, it') \<and> it_err it' = it_err it"
proof (induction es arbitrary: it)
  case Nil
  then show ?case by (subst iter_all.simps) (simp add: SST_Next_def)
next
  case (Cons e es)
  let ?it1 = "it\<lparr>it_key := fst e, it_val := snd e, it_rest := sst_block es @ tail,
    it_pos := it_pos it + int (length (sst_record e))\<rparr>"
  have "SST_Next it = (True, ?it1)"
    by (rule SST_Next_record) (use Cons.prems in auto)
  moreover obtain it' where "iter_all ?it1 = (es, it')" "it_err it' = it_err it"
    using Cons.IH [of ?it1] Cons.prems by auto
  ultimately show ?case by (subst iter_all.simps) simp
qed

lemma readall_loop_block:
  "list_all sst_fits es \<Longrightarrow>
    readall_loop (pos + int (length (sst_block es))) pos (sst_block es @ tail) data
      = Inr (map_puts es data)"
proof (induction es arbitrary: pos data)
  case Nil
  then show ?case by (subst readall_loop.simps) simp
next
  case (Cons e es)
  obtain k v where e: "e = (k, v)" by force
  have "read_tail (of_nat (length (fst e))) (PutUint32 (of_nat (length (snd e))) @ fst e @ snd e
      @ (sst_block es @ tail)) = Inr (e, sst_block es @ tail)"
    using Cons.prems by (intro read_tail_record) (simp_all add: sst_fits_def)
  then have "readall_loop (pos + int (length (sst_block (e # es)))) pos (sst_block (e # es) @ tail) data
      = readall_loop (pos + int (length (sst_block (e # es)))) (pos + int (length (sst_record e)))
          (sst_block es @ tail) (AList.update k v data)"
    using Cons.prems entry_size_fits [of e] Read_u32_record [of e "sst_block es @ tail"]
    by (subst readall_loop.simps) (simp add: e)
  also have "\<dots> = Inr (map_puts es (AList.update k v data))"
    using Cons.IH [of "pos + int (length (sst_record e))" "AList.update k v data"] Cons.prems
    by (simp add: add.assoc)
  finally show ?case by (simp add: e)
qed

lemma map_of_rev_ksorted: "ksorted es \<Longrightarrow> map_of (rev es) = map_of es"
  using ksorted_distinct [of es] by (simp add: map_of_inject_set rev_map [symmetric])

section \<open>Open tables\<close>

text \<open>\<open>reads_table murmur s r es\<close>: the open reader \<open>r\<close> reads a file that holds the table \<open>es\<close>.\<close>

definition reads_table :: "(bytes \<Rightarrow> u32) \<Rightarrow> fs \<Rightarrow> Reader \<Rightarrow> (bytes \<times> bytes) list \<Rightarrow> bool" where
  "reads_table murmur s r es \<longleftrightarrow> table_ok murmur es \<and> r_open r \<and> r_file r < length (fs_data s) \<and>
     fs_data s ! r_file r = sst_image murmur es \<and> r_index r = sst_index es \<and>
     r_filter r = Some (LoadBloomFilter (sst_filter murmur es))"

definition sst_tail :: "(bytes \<Rightarrow> u32) \<Rightarrow> (bytes \<times> bytes) list \<Rightarrow> bytes" where
  "sst_tail murmur es = drop (length (sst_block es)) (sst_image murmur es)"

text \<open>
  What a lookup of an absent key returns. The filter answers most of them; a false positive
  below the largest key of the table is refused by the scan; a false positive above it lets the
  scan run on into the filter block and interpret its bytes as records.
\<close>

definition ghost :: "(bytes \<Rightarrow> u32) \<Rightarrow> (bytes \<times> bytes) list \<Rightarrow> bytes \<Rightarrow> bytes option" where
  "ghost murmur es k =
     (if MayContain murmur k (LoadBloomFilter (sst_filter murmur es)) = Some True
         \<and> list_all (\<lambda>e. \<not> k < fst e) es
      then get_loop k (sst_tail murmur es) else None)"

lemma NewReader_image:
  assumes "quiet s" "map_of (fs_dir s) path = Some i" "i < length (fs_data s)"
    and "fs_data s ! i = sst_image murmur es" "table_ok murmur es"
  shows "\<exists>r. NewReader path s = (Inr r, s) \<and> reads_table murmur s r es \<and> r_path r = path \<and> r_file r = i"
  using assms by (simp add: NewReader_def os_Open_def loadIndex_image reads_table_def)

lemma reads_table_Get:
  assumes "reads_table murmur s r es"
  shows "Reader_Get murmur k r s =
    Some (case map_of es k of Some v \<Rightarrow> Some v | None \<Rightarrow> ghost murmur es k)"
proof -
  from assms have ok: "table_ok murmur es" by (simp add: reads_table_def)
  then have srt: "ksorted es" and fits: "list_all sst_fits es" and n: "length es \<le> max_bloom_keys"
    by (auto simp: table_ok_def)
  let ?bf = "LoadBloomFilter (sst_filter murmur es)"
  obtain hit where hit: "MayContain murmur k ?bf = Some hit"
    using sst_filter_length [OF n, of murmur] by (simp add: MayContain_def LoadBloomFilter_def Let_def)
  obtain es1 es2 where es: "es = es1 @ es2" "\<forall>e \<in> set es1. fst e < k"
    "findIndexEntry (sst_index es) k = int (length (sst_block es1))"
    using findIndexEntry_start [OF srt] by blast
  have "drop (length (sst_block es1)) (sst_image murmur es) = sst_block es2 @ sst_tail murmur es"
    by (simp add: sst_image_def sst_tail_def Let_def es(1))
  moreover have "get_loop k (sst_block es2 @ sst_tail murmur es) =
      (case map_of es2 k of Some v \<Rightarrow> Some v
       | None \<Rightarrow> if \<exists>e \<in> set es2. k < fst e then None else get_loop k (sst_tail murmur es))"
    using srt fits unfolding es(1) by (intro get_loop_block) (simp_all add: sorted_wrt_append)
  moreover have "map_of es k = map_of es2 k"
  proof -
    have "map_of es1 k = None" using es(2) by (auto simp: map_of_eq_None_iff)
    then show ?thesis by (simp add: es(1) map_add_def)
  qed
  moreover have "(\<exists>e \<in> set es2. k < fst e) \<longleftrightarrow> \<not> list_all (\<lambda>e. \<not> k < fst e) es"
    using es(2) by (auto simp: es(1) list_all_iff)
  moreover have "hit" if "map_of es k = Some v" for v
  proof -
    from that have "(k, v) \<in> set es" by (rule map_of_SomeD)
    with sst_filter_length [OF n, of murmur] have "MayContain murmur k ?bf = Some True"
      by (intro MayContain_passes) (auto simp: LoadBloomFilter_def)
    with hit show ?thesis by simp
  qed
  ultimately show ?thesis
    using assms hit unfolding Reader_Get_def reads_table_def
    by (cases hit) (auto simp: Seek_def es(3) ghost_def split: option.splits)
qed

lemma reads_table_ReadAll: "reads_table murmur s r es \<Longrightarrow> ReadAll r s = Inr es"
proof -
  assume r: "reads_table murmur s r es"
  then have ok: "table_ok murmur es" by (simp add: reads_table_def)
  have lim: "data_limit (sst_image murmur es) = int (length (sst_block es))"
    using ok sst_filter_length [of es murmur] by (intro data_limit_image) (auto simp: table_ok_def)
  have "sst_image murmur es = sst_block es @ sst_tail murmur es"
    by (simp add: sst_image_def sst_tail_def Let_def)
  then show ?thesis
    using r readall_loop_block [of es 0 "sst_tail murmur es" "[]"] ok lim
    by (simp add: ReadAll_def reads_table_def table_ok_def map_puts_fresh ksorted_distinct Let_def)
qed

text \<open>The size of a table: the sparse index is at most twice the data, the filter below 4 GiB.\<close>

lemma index_size:
  "length (concat (map (\<lambda>e. PutUint32 (of_nat (length (IndexKey e))) @ IndexKey e @ PutUint64 (of_int (Offset e)))
      (index_from pos last_pos es))) \<le> 2 * length (sst_block es)"
proof (induction es arbitrary: pos last_pos)
  case (Cons e es)
  note IH = Cons.IH [of "pos + int (length (sst_record e))"]
  show ?case using IH [of pos] IH [of last_pos] by (simp add: Let_def)
qed simp

lemma table_ok_small:
  assumes "ksorted es" "list_all sst_fits es" "length es \<le> max_bloom_keys" "length (sst_block es) < 2 ^ 60"
  shows "table_ok murmur es"
proof -
  have "length (concat (index_writes (sst_index es))) \<le> 4 + 2 * length (sst_block es)"
    using index_size [of 0 0 es] by (simp add: concat_index_writes sst_index_def)
  moreover have "length (sst_filter murmur es) < 2 ^ 32" using sst_filter_length [OF assms(3)] by blast
  ultimately have "length (sst_image murmur es) < 2 ^ 63"
    using assms(4) by (simp add: sst_image_def Let_def)
  with assms show ?thesis by (simp add: table_ok_def)
qed

text \<open>An iterator that will deliver exactly \<open>es\<close>, without an error.\<close>

definition delivers :: "Iterator \<Rightarrow> (bytes \<times> bytes) list \<Rightarrow> bool" where
  "delivers it es \<longleftrightarrow> (\<exists>it'. iter_all it = (es, it') \<and> SST_Error it' = None)"

lemma Reader_NewIterator_image:
  assumes "quiet s" "map_of (fs_dir s) (r_path r) = Some i"
    and "fs_data s ! i = sst_image murmur es" "table_ok murmur es"
  shows "\<exists>it. Reader_NewIterator r s = (Inr it, s) \<and> delivers it es"
proof -
  let ?img = "sst_image murmur es"
  let ?it = "\<lparr>it_file = i, it_open = True, it_rest = ?img, it_limit = data_limit ?img, it_pos = 0,
                it_key = [], it_val = [], it_err = None\<rparr>"
  have lim: "data_limit ?img = int (length (sst_block es))"
    using assms(4) sst_filter_length [of es murmur] by (intro data_limit_image) (auto simp: table_ok_def)
  have "?img = sst_block es @ sst_tail murmur es"
    by (simp add: sst_image_def sst_tail_def Let_def)
  then have "\<exists>it'. iter_all ?it = (es, it') \<and> it_err it' = it_err ?it"
    using assms(4) lim by (intro iter_all_block) (auto simp: table_ok_def)
  then have "delivers ?it es" by (auto simp: delivers_def SST_Error_def)
  with assms(1-3) show ?thesis by (simp add: Reader_NewIterator_def os_Open_def)
qed

text \<open>
  C11: an SSTable gives back what was put in. Building a table from a memtable, opening it and
  reading it: the build and the open succeed; a lookup of a key of the memtable returns its value
  (so the filter has no false negative and the sparse index never skips past a key); \<^verbatim>\<open>ReadAll\<close>
  and the iterator return exactly the entries, in order, and no error; and an absent key is
  reported absent unless the scan leaves the data block (\<open>ghost\<close>).
\<close>

theorem sstable_roundtrip:
  assumes "quiet s" "skip_ok sl" "table_ok murmur (map plain (skip_content sl))"
    and "map_of (fs_dir s) (tmp_name path now) = None"
  shows "\<exists>b s1 s2 r it. NewBuilder path now s = (Inr b, s1) \<and>
    Builder_Flush murmur sl b s1 = Some (None, s2) \<and> NewReader path s2 = (Inr r, s2) \<and>
    (\<forall>k. Reader_Get murmur k r s2 =
      Some (case map_of (skip_content sl) k of
              Some v \<Rightarrow> Some (bytes_of v)
            | None \<Rightarrow> ghost murmur (map plain (skip_content sl)) k)) \<and>
    ReadAll r s2 = Inr (map plain (skip_content sl)) \<and>
    Reader_NewIterator r s2 = (Inr it, s2) \<and> delivers it (map plain (skip_content sl))"
proof -
  let ?es = "map plain (skip_content sl)"
  let ?s2 = "new_table path now (sst_image murmur ?es) s"
  have n: "length (skip_content sl) \<le> max_bloom_keys" using assms(3) by (simp add: table_ok_def)
  have q: "quiet ?s2" using assms(1) by simp
  have dir: "map_of (fs_dir ?s2) path = Some (length (fs_data s))"
    by (simp add: new_table_dir [OF assms(4)])
  have img: "fs_data ?s2 ! length (fs_data s) = sst_image murmur ?es" by simp
  obtain r where r: "NewReader path ?s2 = (Inr r, ?s2)" "reads_table murmur ?s2 r ?es" "r_path r = path"
    using NewReader_image [OF q dir _ img assms(3)] by auto
  obtain it where "Reader_NewIterator r ?s2 = (Inr it, ?s2)" "delivers it ?es"
    using Reader_NewIterator_image [OF q, of r _ murmur ?es] dir img assms(3) r(3) by auto
  then show ?thesis
    using NewBuilder_quiet [OF assms(1,4)] Builder_Flush_quiet [OF assms(1,2) n, of murmur path now]
      r reads_table_Get [OF r(2)] reads_table_ReadAll [OF r(2)]
    by (fastforce simp: map_of_plain fun_eq_iff split: option.splits)
qed

theorem sstable_roundtrip_witness:
  "\<exists>sl b s1 s2 r. SkipList_Put [1] (Some [7]) (NewSkipList (\<lambda>_. 0)) = Some sl \<and>
    NewBuilder ''t.sst'' 9 \<lparr>fs_dir = [], fs_data = [], fs_faults = []\<rparr> = (Inr b, s1) \<and>
    Builder_Flush (\<lambda>_. 0) sl b s1 = Some (None, s2) \<and> NewReader ''t.sst'' s2 = (Inr r, s2) \<and>
    Reader_Get (\<lambda>_. 0) [1] r s2 = Some (Some [7]) \<and> ReadAll r s2 = Inr [([1], [7])]"
proof -
  obtain sl where sl: "SkipList_Put [1] (Some [7]) (NewSkipList (\<lambda>_. 0)) = Some sl"
    using memtable.put_total [OF skip_ok_New] by blast
  have c: "skip_content sl = [([1], Some [7])]" using memtable.put_content [OF skip_ok_New sl] by simp
  have ok: "table_ok (\<lambda>_. 0) (map plain (skip_content sl))"
    by (rule table_ok_small) (simp_all add: c sst_fits_def max_bloom_keys_def)
  let ?s = "\<lparr>fs_dir = [], fs_data = [], fs_faults = []\<rparr>"
  have q: "quiet ?s" "map_of (fs_dir ?s) (tmp_name ''t.sst'' 9) = None" by simp_all
  obtain b s1 s2 r where "NewBuilder ''t.sst'' 9 ?s = (Inr b, s1)" "Builder_Flush (\<lambda>_. 0) sl b s1 = Some (None, s2)"
    "NewReader ''t.sst'' s2 = (Inr r, s2)" "ReadAll r s2 = Inr (map plain (skip_content sl))"
    "\<forall>k. Reader_Get (\<lambda>_. 0) k r s2 = Some (case map_of (skip_content sl) k of
              Some v \<Rightarrow> Some (bytes_of v) | None \<Rightarrow> ghost (\<lambda>_. 0) (map plain (skip_content sl)) k)"
    using sstable_roundtrip [OF q(1) memtable.put_invar [OF skip_ok_New sl] ok q(2)] by blast
  then show ?thesis using sl c by auto
qed

end
