(* ===== verification/Merge.thy ===== *)
theory Merge
  imports Reader "HOL-Library.Multiset" "HOL-Library.Product_Lexorder"
begin

text \<open>
  The k-way merge of compaction, \<^verbatim>\<open>src/engine/sstable/merge.go\<close>, on the binary heap of
  \<^verbatim>\<open>container/heap\<close> (sift-up and sift-down as in the Go library, on a list). An iterator is
  referenced by exactly one heap item, so the item carries it.
\<close>

section \<open>container/heap\<close>

definition heap_Swap :: "nat \<Rightarrow> nat \<Rightarrow> 'a list \<Rightarrow> 'a list" where
  "heap_Swap i j h = h[i := h ! j, j := h ! i]"

function heap_up :: "('a \<Rightarrow> 'a \<Rightarrow> bool) \<Rightarrow> nat \<Rightarrow> 'a list \<Rightarrow> 'a list" where
  "heap_up lt j h =
     (let i = (j - 1) div 2
      in if i = j \<or> \<not> lt (h ! j) (h ! i) then h else heap_up lt i (heap_Swap i j h))"
  by pat_completeness auto
termination
  by (relation "measure (\<lambda>(lt, j, h). j)") auto

text \<open>The smaller of the two children of \<open>i\<close>, the left one where there is no right one.\<close>

definition min_child :: "('a \<Rightarrow> 'a \<Rightarrow> bool) \<Rightarrow> nat \<Rightarrow> nat \<Rightarrow> 'a list \<Rightarrow> nat" where
  "min_child lt i n h =
     (let j1 = 2 * i + 1; j2 = j1 + 1
      in if j2 < n \<and> lt (h ! j2) (h ! j1) then j2 else j1)"

lemma min_child_bounds: "2 * i + 1 < n \<Longrightarrow> i < min_child lt i n h \<and> min_child lt i n h < n"
  by (auto simp: min_child_def Let_def)

function heap_down :: "('a \<Rightarrow> 'a \<Rightarrow> bool) \<Rightarrow> nat \<Rightarrow> nat \<Rightarrow> 'a list \<Rightarrow> 'a list" where
  "heap_down lt i n h =
     (if 2 * i + 1 \<ge> n then h
      else (let j = min_child lt i n h
            in if \<not> lt (h ! j) (h ! i) then h
               else heap_down lt j n (heap_Swap i j h)))"
  by pat_completeness auto
termination
proof (relation "measure (\<lambda>(lt, i, n, h). n - i)", goal_cases)
  case (2 lt i n h j)
  then show ?case using min_child_bounds [of i n lt h] by (simp add: diff_less_mono2)
qed simp

declare heap_up.simps [simp del] heap_down.simps [simp del]

definition heap_Push :: "('a \<Rightarrow> 'a \<Rightarrow> bool) \<Rightarrow> 'a \<Rightarrow> 'a list \<Rightarrow> 'a list" where
  "heap_Push lt x h = heap_up lt (length h) (h @ [x])"

definition heap_Pop :: "('a \<Rightarrow> 'a \<Rightarrow> bool) \<Rightarrow> 'a list \<Rightarrow> 'a \<times> 'a list" where
  "heap_Pop lt h =
     (let n = length h - 1;
          h' = heap_down lt 0 n (heap_Swap 0 n h)
      in (h' ! n, take n h'))"

section \<open>The heap operations permute\<close>

lemma length_heap_Swap [simp]: "length (heap_Swap i j h) = length h"
  by (simp add: heap_Swap_def)

lemma mset_heap_Swap: "i < length h \<Longrightarrow> j < length h \<Longrightarrow> mset (heap_Swap i j h) = mset h"
  by (simp add: heap_Swap_def mset_swap)

lemma heap_up_perm: "j < length h \<Longrightarrow> mset (heap_up lt j h) = mset h \<and> length (heap_up lt j h) = length h"
proof (induction lt j h rule: heap_up.induct)
  case (1 lt j h)
  show ?case
  proof (cases "(j - 1) div 2 = j \<or> \<not> lt (h ! j) (h ! ((j - 1) div 2))")
    case True
    then show ?thesis by (subst heap_up.simps, subst (2) heap_up.simps) (auto simp: Let_def)
  next
    case False
    then have "heap_up lt j h = heap_up lt ((j - 1) div 2) (heap_Swap ((j - 1) div 2) j h)"
      by (subst heap_up.simps) (simp add: Let_def)
    with 1 False show ?thesis by (simp add: mset_heap_Swap)
  qed
qed

lemma heap_down_stop:
  "n \<le> 2 * i + 1 \<or> \<not> lt (h ! min_child lt i n h) (h ! i) \<Longrightarrow> heap_down lt i n h = h"
  by (subst heap_down.simps) (auto simp: Let_def)

lemma heap_down_step:
  "2 * i + 1 < n \<Longrightarrow> lt (h ! min_child lt i n h) (h ! i) \<Longrightarrow>
    heap_down lt i n h = heap_down lt (min_child lt i n h) n (heap_Swap i (min_child lt i n h) h)"
  by (subst heap_down.simps) (simp add: Let_def)

lemma heap_down_frame:
  "n \<le> length h \<Longrightarrow> i < length h \<Longrightarrow>
    mset (heap_down lt i n h) = mset h \<and> length (heap_down lt i n h) = length h \<and>
    (\<forall>m. n \<le> m \<longrightarrow> heap_down lt i n h ! m = h ! m)"
proof (induction lt i n h rule: heap_down.induct)
  case (1 lt i n h)
  let ?j = "min_child lt i n h"
  show ?case
  proof (cases "2 * i + 1 < n \<and> lt (h ! ?j) (h ! i)")
    case False
    then show ?thesis using heap_down_stop [of n i lt h] by auto
  next
    case True
    then have j: "i < ?j" "?j < n" using min_child_bounds [of i n lt h] by auto
    with True 1 have IH: "mset (heap_down lt ?j n (heap_Swap i ?j h)) = mset (heap_Swap i ?j h)"
      "length (heap_down lt ?j n (heap_Swap i ?j h)) = length h"
      "\<forall>m. n \<le> m \<longrightarrow> heap_down lt ?j n (heap_Swap i ?j h) ! m = heap_Swap i ?j h ! m"
      by auto
    moreover have "heap_Swap i ?j h ! m = h ! m" if "n \<le> m" for m
      using that j by (simp add: heap_Swap_def)
    ultimately show ?thesis using j True 1(2) by (simp add: heap_down_step mset_heap_Swap)
  qed
qed

section \<open>The interface of a priority queue\<close>

text \<open>
  What the merge relies on: pushing adds an item, popping a non-empty queue removes one of least
  rank. The clients only use the set of items and their number.
\<close>

locale priority_queue =
  fixes invar :: "'a list \<Rightarrow> bool"
    and push :: "'a \<Rightarrow> 'a list \<Rightarrow> 'a list"
    and pop :: "'a list \<Rightarrow> 'a \<times> 'a list"
    and rank :: "'a \<Rightarrow> 'k::linorder"
  assumes invar_empty: "invar []"
    and push_spec: "invar h \<Longrightarrow> invar (push x h) \<and> mset (push x h) = add_mset x (mset h)"
    and pop_spec: "invar h \<Longrightarrow> h \<noteq> [] \<Longrightarrow> pop h = (x, h') \<Longrightarrow>
      invar h' \<and> mset h = add_mset x (mset h') \<and> (\<forall>y \<in> set h. rank x \<le> rank y)"
begin

lemma push_invar: "invar h \<Longrightarrow> invar (push x h)"
  using push_spec by blast

lemma push_set: "invar h \<Longrightarrow> set (push x h) = insert x (set h)"
  using push_spec by (metis set_mset_add_mset_insert set_mset_mset)

lemma pop_invar: "invar h \<Longrightarrow> h \<noteq> [] \<Longrightarrow> pop h = (x, h') \<Longrightarrow> invar h'"
  using pop_spec by blast

lemma pop_set: "invar h \<Longrightarrow> h \<noteq> [] \<Longrightarrow> pop h = (x, h') \<Longrightarrow> set h = insert x (set h')"
  using pop_spec by (metis set_mset_add_mset_insert set_mset_mset)

lemma pop_least: "invar h \<Longrightarrow> h \<noteq> [] \<Longrightarrow> pop h = (x, h') \<Longrightarrow> y \<in> set h \<Longrightarrow> rank x \<le> rank y"
  using pop_spec by blast

lemma pop_distinct:
  assumes "invar h" "h \<noteq> []" "pop h = (x, h')" "distinct (map f h)"
  shows "distinct (map f h') \<and> f x \<notin> f ` set h'"
proof -
  have "mset h = mset (x # h')" using pop_spec [OF assms(1-3)] by simp
  then have "mset (map f h) = mset (map f (x # h'))" by (metis mset_map)
  with assms(4) have "distinct (map f (x # h'))" by (metis mset_eq_imp_distinct_iff)
  then show ?thesis by simp
qed

lemma push_distinct:
  assumes "invar h" "distinct (map f h)" "f x \<notin> f ` set h"
  shows "distinct (map f (push x h))"
proof -
  have "mset (push x h) = mset (x # h)" using push_spec [OF assms(1)] by simp
  then have "mset (map f (push x h)) = mset (map f (x # h))" by (metis mset_map)
  with assms(2,3) show ?thesis by (metis mset_eq_imp_distinct_iff distinct.simps(2) list.simps(9) set_map)
qed

end

section \<open>The heap order\<close>

definition heap_inv :: "('a \<Rightarrow> 'k::linorder) \<Rightarrow> nat \<Rightarrow> 'a list \<Rightarrow> bool" where
  "heap_inv rank n h \<longleftrightarrow> (\<forall>j. 0 < j \<and> j < n \<longrightarrow> rank (h ! ((j - 1) div 2)) \<le> rank (h ! j))"

text \<open>The heap order except between \<open>j\<close> and its parent, and except between \<open>i\<close> and its children.\<close>

definition up_ok :: "('a \<Rightarrow> 'k::linorder) \<Rightarrow> nat \<Rightarrow> nat \<Rightarrow> 'a list \<Rightarrow> bool" where
  "up_ok rank j n h \<longleftrightarrow>
     (\<forall>m. 0 < m \<and> m < n \<and> m \<noteq> j \<longrightarrow> rank (h ! ((m - 1) div 2)) \<le> rank (h ! m)) \<and>
     (\<forall>m. 0 < m \<and> m < n \<and> (m - 1) div 2 = j \<and> 0 < j \<longrightarrow> rank (h ! ((j - 1) div 2)) \<le> rank (h ! m))"

definition down_ok :: "('a \<Rightarrow> 'k::linorder) \<Rightarrow> nat \<Rightarrow> nat \<Rightarrow> 'a list \<Rightarrow> bool" where
  "down_ok rank i n h \<longleftrightarrow>
     (\<forall>m. 0 < m \<and> m < n \<and> (m - 1) div 2 \<noteq> i \<longrightarrow> rank (h ! ((m - 1) div 2)) \<le> rank (h ! m)) \<and>
     (\<forall>m. 0 < m \<and> m < n \<and> (m - 1) div 2 = i \<and> 0 < i \<longrightarrow> rank (h ! ((i - 1) div 2)) \<le> rank (h ! m))"

lemma nth_heap_Swap:
  "i < length h \<Longrightarrow> j < length h \<Longrightarrow> m < length h \<Longrightarrow>
    heap_Swap i j h ! m = (if m = i then h ! j else if m = j then h ! i else h ! m)"
  by (auto simp: heap_Swap_def nth_list_update)

lemma up_swap:
  assumes up: "up_ok rank j (length h) h" and j: "0 < j" "j < length h"
    and i: "i = (j - 1) div 2" and lt: "rank (h ! j) < rank (h ! i)"
  shows "up_ok rank i (length h) (heap_Swap i j h)"
proof -
  have ij: "i < j" using i j by linarith
  have par: "rank (h ! ((m - 1) div 2)) \<le> rank (h ! m)" if "0 < m" "m < length h" "m \<noteq> j" for m
    using up that by (auto simp: up_ok_def)
  have kids: "rank (h ! i) \<le> rank (h ! m)" if "0 < m" "m < length h" "(m - 1) div 2 = j" for m
    using up that j i by (auto simp: up_ok_def)
  have plt: "(m - 1) div 2 < m" if "0 < m" for m :: nat using that by linarith
  note sw = nth_heap_Swap [of i h j]
  show ?thesis
    unfolding up_ok_def
  proof (intro conjI allI impI)
    fix m
    assume m: "0 < m \<and> m < length h \<and> m \<noteq> i"
    let ?p = "(m - 1) div 2"
    have p: "?p < m" "?p < length h" using plt m by auto
    consider "m = j" | "m \<noteq> j" "?p = j" | "m \<noteq> j" "?p = i" | "m \<noteq> j" "?p \<noteq> j" "?p \<noteq> i" by blast
    then show "rank (heap_Swap i j h ! ?p) \<le> rank (heap_Swap i j h ! m)"
    proof cases
      case 1
      then have "?p = i" using i by simp
      with 1 show ?thesis using lt ij j by (simp add: sw less_imp_le)
    next
      case 2
      then show ?thesis using kids m ij j by (simp add: sw)
    next
      case 3
      then show ?thesis using par [of m] m lt ij j by (auto simp: sw)
    next
      case 4
      then show ?thesis using par [of m] m p ij j by (simp add: sw)
    qed
  next
    fix m
    assume m: "0 < m \<and> m < length h \<and> (m - 1) div 2 = i \<and> 0 < i"
    then have pi: "(i - 1) div 2 < i" using plt by blast
    have "rank (h ! ((i - 1) div 2)) \<le> rank (h ! i)" using par [of i] m ij j by simp
    moreover have "m \<noteq> i" using m by linarith
    ultimately show "rank (heap_Swap i j h ! ((i - 1) div 2)) \<le> rank (heap_Swap i j h ! m)"
      using par [of m] m pi ij j by (auto simp: sw)
  qed
qed

lemma heap_up_inv:
  assumes lt: "\<And>a b. lt a b \<longleftrightarrow> rank a < rank b"
  shows "j < length h \<Longrightarrow> up_ok rank j (length h) h \<Longrightarrow> heap_inv rank (length h) (heap_up lt j h)"
proof (induction j arbitrary: h rule: less_induct)
  case (less j)
  let ?i = "(j - 1) div 2"
  show ?case
  proof (cases "?i = j \<or> \<not> lt (h ! j) (h ! ?i)")
    case True
    then have "heap_up lt j h = h" by (subst heap_up.simps) (simp add: Let_def)
    moreover have "j = 0 \<or> rank (h ! ?i) \<le> rank (h ! j)"
      using True lt by (cases "j = 0") (auto simp: not_less)
    ultimately show ?thesis using less.prems by (auto simp: heap_inv_def up_ok_def)
  next
    case False
    then have "heap_up lt j h = heap_up lt ?i (heap_Swap ?i j h)"
      by (subst heap_up.simps) (simp add: Let_def)
    moreover have "?i < j" "0 < j" using False by (cases j; simp)+
    moreover have "up_ok rank ?i (length h) (heap_Swap ?i j h)"
      by (rule up_swap) (use less.prems False lt \<open>0 < j\<close> in auto)
    ultimately show ?thesis using less.IH [of ?i "heap_Swap ?i j h"] less.prems by simp
  qed
qed

lemma down_swap:
  assumes lt: "\<And>a b. lt a b \<longleftrightarrow> rank a < rank b"
    and dn: "down_ok rank i n h" and n: "n \<le> length h" "2 * i + 1 < n"
    and j: "j = min_child lt i n h" and less: "rank (h ! j) < rank (h ! i)"
  shows "down_ok rank j n (heap_Swap i j h)"
proof -
  have ij: "i < j" "j < n" using min_child_bounds [OF n(2)] j by auto
  have par: "rank (h ! ((m - 1) div 2)) \<le> rank (h ! m)" if "0 < m" "m < n" "(m - 1) div 2 \<noteq> i" for m
    using dn that by (auto simp: down_ok_def)
  have least: "rank (h ! j) \<le> rank (h ! m)" if "0 < m" "m < n" "(m - 1) div 2 = i" for m
  proof -
    have "m = 2 * i + 1 \<or> m = 2 * i + 2" using that by linarith
    then show ?thesis using that lt unfolding j min_child_def Let_def by (auto simp: not_less)
  qed
  have up: "rank (h ! ((i - 1) div 2)) \<le> rank (h ! j)" if "0 < i"
  proof -
    have "(j - 1) div 2 = i" unfolding j min_child_def Let_def by auto
    with dn that ij show ?thesis by (auto simp: down_ok_def)
  qed
  note sw = nth_heap_Swap [of i h j]
  show ?thesis
    unfolding down_ok_def
  proof (intro conjI allI impI)
    fix m
    assume m: "0 < m \<and> m < n \<and> (m - 1) div 2 \<noteq> j"
    let ?p = "(m - 1) div 2"
    have p: "?p < m" "?p < length h" "m < length h" using m n by auto
    consider "?p = i" | "m = i" | "?p \<noteq> i" "m \<noteq> i" by blast
    then show "rank (heap_Swap i j h ! ?p) \<le> rank (heap_Swap i j h ! m)"
    proof cases
      case 1
      then show ?thesis using least [of m] less m p ij n by (auto simp: sw less_imp_le)
    next
      case 2
      then show ?thesis using up m p ij n by (simp add: sw)
    next
      case 3
      have "m \<noteq> j" using 3(1) unfolding j min_child_def Let_def by auto
      with 3 show ?thesis using par [of m] m p ij n by (simp add: sw)
    qed
  next
    fix m
    assume m: "0 < m \<and> m < n \<and> (m - 1) div 2 = j \<and> 0 < j"
    have "(j - 1) div 2 = i" unfolding j min_child_def Let_def by auto
    moreover have "m \<noteq> i" "m \<noteq> j" using m ij by linarith+
    ultimately show "rank (heap_Swap i j h ! ((j - 1) div 2)) \<le> rank (heap_Swap i j h ! m)"
      using par [of m] m ij n by (simp add: sw)
  qed
qed

lemma heap_down_inv:
  assumes lt: "\<And>a b. lt a b \<longleftrightarrow> rank a < rank b"
  shows "n \<le> length h \<Longrightarrow> down_ok rank i n h \<Longrightarrow> heap_inv rank n (heap_down lt i n h)"
proof (induction "n - i" arbitrary: i h rule: less_induct)
  case less
  let ?j = "min_child lt i n h"
  show ?case
  proof (cases "2 * i + 1 < n \<and> lt (h ! ?j) (h ! i)")
    case True
    then have j: "i < ?j" "?j < n" using min_child_bounds [of i n lt h] by auto
    have "down_ok rank ?j n (heap_Swap i ?j h)"
      by (rule down_swap [OF lt less.prems(2,1) _ refl]) (use True lt in \<open>blast+\<close>)
    with less.hyps [of ?j "heap_Swap i ?j h"] less.prems j True show ?thesis
      by (simp add: heap_down_step)
  next
    case False
    have "rank (h ! i) \<le> rank (h ! m)" if "0 < m" "m < n" "(m - 1) div 2 = i" for m
    proof -
      have "m = 2 * i + 1 \<or> m = 2 * i + 2" using that by linarith
      then show ?thesis using that False lt by (auto simp: min_child_def Let_def not_less split: if_splits)
    qed
    moreover have "heap_down lt i n h = h" using False heap_down_stop [of n i lt h] by auto
    ultimately show ?thesis using less.prems by (auto simp: heap_inv_def down_ok_def)
  qed
qed

lemma heap_inv_least:
  assumes "heap_inv rank n h"
  shows "m < n \<Longrightarrow> rank (h ! 0) \<le> rank (h ! m)"
proof (induction m rule: less_induct)
  case (less m)
  show ?case
  proof (cases "m = 0")
    case False
    then have "(m - 1) div 2 < m" by linarith
    with less False assms show ?thesis
      by (metis heap_inv_def less_trans not_gr_zero order_trans)
  qed simp
qed

lemma heap_Push_spec:
  assumes "\<And>a b. lt a b \<longleftrightarrow> rank a < rank b" "heap_inv rank (length h) h"
  shows "heap_inv rank (length (heap_Push lt x h)) (heap_Push lt x h) \<and>
    mset (heap_Push lt x h) = add_mset x (mset h)"
proof -
  have "up_ok rank (length h) (length (h @ [x])) (h @ [x])"
    unfolding up_ok_def
  proof (intro conjI allI impI)
    fix m
    assume m: "0 < m \<and> m < length (h @ [x]) \<and> m \<noteq> length h"
    then have "(m - 1) div 2 < length h" "m < length h" by auto
    with m assms(2) show "rank ((h @ [x]) ! ((m - 1) div 2)) \<le> rank ((h @ [x]) ! m)"
      by (simp add: nth_append heap_inv_def)
  next
    fix m
    assume "0 < m \<and> m < length (h @ [x]) \<and> (m - 1) div 2 = length h \<and> 0 < length h"
    then have False by auto
    then show "rank ((h @ [x]) ! ((length h - 1) div 2)) \<le> rank ((h @ [x]) ! m)" ..
  qed
  then have "heap_inv rank (length (h @ [x])) (heap_up lt (length h) (h @ [x]))"
    by (intro heap_up_inv [OF assms(1)]) simp
  with heap_up_perm [of "length h" "h @ [x]" lt] show ?thesis by (simp add: heap_Push_def)
qed

lemma heap_Pop_spec:
  assumes "\<And>a b. lt a b \<longleftrightarrow> rank a < rank b" "heap_inv rank (length h) h" "h \<noteq> []"
    and "heap_Pop lt h = (x, h')"
  shows "heap_inv rank (length h') h' \<and> mset h = add_mset x (mset h') \<and>
    (\<forall>y \<in> set h. rank x \<le> rank y)"
proof -
  let ?n = "length h - 1"
  let ?s = "heap_Swap 0 ?n h"
  let ?d = "heap_down lt 0 ?n ?s"
  have n: "?n < length h" "0 < length h" using assms(3) by auto
  have fr: "mset ?d = mset h" "length ?d = length h" "?d ! ?n = ?s ! ?n"
    using heap_down_frame [of ?n ?s 0 lt] n by (simp_all add: mset_heap_Swap)
  have x: "x = h ! 0" "h' = take ?n ?d"
    using assms(4) fr(3) n by (auto simp: heap_Pop_def Let_def nth_heap_Swap)
  have "down_ok rank 0 ?n ?s"
    using assms(2) n unfolding down_ok_def heap_inv_def by (auto simp: nth_heap_Swap)
  then have "heap_inv rank ?n ?d" using n by (intro heap_down_inv [OF assms(1)]) auto
  then have "heap_inv rank (length h') h'" using fr(2) by (auto simp: heap_inv_def x(2))
  moreover have "mset h = add_mset x (mset h')"
  proof -
    have "?d = h' @ [x]"
      using fr(2,3) n x assms(4) by (metis Suc_diff_1 heap_Pop_def Pair_inject take_Suc_conv_app_nth take_all
          order_refl lessI)
    then show ?thesis using fr(1) by (metis add_mset_add_single mset.simps mset_append)
  qed
  moreover have "\<forall>y \<in> set h. rank x \<le> rank y"
    using heap_inv_least [OF assms(2)] x(1) by (auto simp: in_set_conv_nth)
  ultimately show ?thesis by blast
qed


lemma heap_Pop_mset: "h \<noteq> [] \<Longrightarrow> heap_Pop lt h = (x, h') \<Longrightarrow> mset h = add_mset x (mset h')"
proof -
  assume a: "h \<noteq> []" "heap_Pop lt h = (x, h')"
  let ?n = "length h - 1"
  let ?d = "heap_down lt 0 ?n (heap_Swap 0 ?n h)"
  have "mset ?d = mset h" "length ?d = Suc ?n"
    using heap_down_frame [of ?n "heap_Swap 0 ?n h" 0 lt] a(1) by (simp_all add: mset_heap_Swap)
  moreover from this(2) have "?d = take ?n ?d @ [?d ! ?n]"
    by (metis lessI order_refl take_Suc_conv_app_nth take_all)
  ultimately show ?thesis
    using a(2) by (metis Pair_inject add_mset_add_single heap_Pop_def mset.simps mset_append)
qed

lemma heap_Push_mset: "mset (heap_Push lt x h) = add_mset x (mset h)"
  using heap_up_perm [of "length h" "h @ [x]" lt] by (simp add: heap_Push_def)

section \<open>The k-way merge\<close>

record mergeItem =
  mi_key :: bytes
  mi_val :: bytes
  iterIdx :: nat
  mi_iter :: Iterator

definition mergeHeap_Less :: "mergeItem \<Rightarrow> mergeItem \<Rightarrow> bool" where
  "mergeHeap_Less a b =
     (let cmp = bytes_Compare (mi_key a) (mi_key b)
      in if cmp = 0 then iterIdx a < iterIdx b else cmp < 0)"

text \<open>Seeding the heap with the first entry of each iterator, numbered from \<open>i\<close>.\<close>

fun merge_seed :: "nat \<Rightarrow> Iterator list \<Rightarrow> mergeItem list \<Rightarrow> read_err + mergeItem list" where
  "merge_seed i [] h = Inr h"
| "merge_seed i (it # its) h =
     (case SST_Next it of
        (True, it') \<Rightarrow>
          merge_seed (Suc i) its
            (heap_Push mergeHeap_Less
               \<lparr>mi_key = it_key it', mi_val = it_val it', iterIdx = i, mi_iter = it'\<rparr> h)
      | (False, it') \<Rightarrow>
          (case SST_Error it' of Some e \<Rightarrow> Inl e | None \<Rightarrow> merge_seed (Suc i) its h))"

definition merge_size :: "mergeItem list \<Rightarrow> nat" where
  "merge_size h = (\<Sum>i \<in># mset h. Suc (length (it_rest (mi_iter i))))"

lemma merge_size_pop: "heap_Pop lt h = (x, h1) \<Longrightarrow> h \<noteq> [] \<Longrightarrow>
    merge_size h = merge_size h1 + Suc (length (it_rest (mi_iter x)))"
  by (simp add: merge_size_def heap_Pop_mset)

lemma merge_size_push: "merge_size (heap_Push lt x h) = merge_size h + Suc (length (it_rest (mi_iter x)))"
  by (simp add: merge_size_def heap_Push_mset)

function merge_loop ::
  "(bytes \<Rightarrow> u32) \<Rightarrow> bytes option \<Rightarrow> mergeItem list \<Rightarrow> Builder \<Rightarrow> fs \<Rightarrow> (error option \<times> fs) option" where
  "merge_loop murmur lastKey h b s =
     (if h = [] then Finish b s
      else (case heap_Pop mergeHeap_Less h of (item, h1) \<Rightarrow>
        (case (if lastKey = None \<or> lastKey \<noteq> Some (mi_key item)
               then (case Builder_Add murmur (mi_key item) (Some (mi_val item)) b s of
                       (e, b1, s1) \<Rightarrow> (e, Some (mi_key item), b1, s1))
               else (None, lastKey, b, s)) of
           (Some e, _, _, s1) \<Rightarrow> Some (Some e, s1)
         | (None, lastKey1, b1, s1) \<Rightarrow>
             (case SST_Next (mi_iter item) of
                (True, it') \<Rightarrow>
                  merge_loop murmur lastKey1
                    (heap_Push mergeHeap_Less
                       (item\<lparr>mi_key := it_key it', mi_val := it_val it', mi_iter := it'\<rparr>) h1) b1 s1
              | (False, it') \<Rightarrow>
                  (case SST_Error it' of
                     Some e \<Rightarrow> Some (Some (ErrRead e), s1)
                   | None \<Rightarrow> merge_loop murmur lastKey1 h1 b1 s1)))))"
  by pat_completeness auto
termination
  by (relation "measure (\<lambda>(murmur, lastKey, h, b, s). merge_size h)")
    (auto simp: merge_size_push dest!: SST_Next_length [OF sym] merge_size_pop [OF sym])

declare merge_loop.simps [simp del]

definition Merge :: "(bytes \<Rightarrow> u32) \<Rightarrow> Iterator list \<Rightarrow> Builder \<Rightarrow> fs \<Rightarrow> (error option \<times> fs) option" where
  "Merge murmur iters b s =
     (case merge_seed 0 iters [] of
        Inl e \<Rightarrow> Some (Some (ErrRead e), s)
      | Inr h \<Rightarrow> merge_loop murmur None h b s)"

section \<open>The heap of the merge\<close>

definition item_rank :: "mergeItem \<Rightarrow> bytes \<times> nat" where
  "item_rank i = (mi_key i, iterIdx i)"

lemma mergeHeap_Less_rank: "mergeHeap_Less a b \<longleftrightarrow> item_rank a < item_rank b"
  by (auto simp: mergeHeap_Less_def item_rank_def Let_def less_prod_def)

definition merge_heap :: "mergeItem list \<Rightarrow> bool" where
  "merge_heap h \<longleftrightarrow> heap_inv item_rank (length h) h"

interpretation merge_queue:
  priority_queue merge_heap "heap_Push mergeHeap_Less" "heap_Pop mergeHeap_Less" item_rank
proof unfold_locales
  show "merge_heap []" by (simp add: merge_heap_def heap_inv_def)
next
  fix h x
  assume "merge_heap h"
  then show "merge_heap (heap_Push mergeHeap_Less x h) \<and>
      mset (heap_Push mergeHeap_Less x h) = add_mset x (mset h)"
    unfolding merge_heap_def by (rule heap_Push_spec [OF mergeHeap_Less_rank])
next
  fix h x h'
  assume "merge_heap h" "h \<noteq> []" "heap_Pop mergeHeap_Less h = (x, h')"
  then show "merge_heap h' \<and> mset h = add_mset x (mset h') \<and> (\<forall>y \<in> set h. item_rank x \<le> item_rank y)"
    unfolding merge_heap_def by (rule heap_Pop_spec [OF mergeHeap_Less_rank])
qed

section \<open>What the merge writes\<close>

text \<open>
  The reference: the tables are given newest first; the merged table holds, in key order, every
  key of any of them with the value of the newest table that has it.
\<close>

fun first_of :: "(bytes \<times> 'v) list list \<Rightarrow> bytes \<Rightarrow> 'v option" where
  "first_of [] k = None"
| "first_of (t # ts) k = (case map_of t k of Some v \<Rightarrow> Some v | None \<Rightarrow> first_of ts k)"

definition merged :: "(bytes \<times> 'v) list list \<Rightarrow> (bytes \<times> 'v) list" where
  "merged ts = foldr (\<lambda>t. fold (\<lambda>(k, v). alist_put k v) t) ts []"

lemma ksorted_fold_alist_put:
  "ksorted es \<Longrightarrow> ksorted (fold (\<lambda>(k, v). alist_put k v) t es)"
  by (induction t arbitrary: es) (auto simp: ksorted_alist_put)

lemma ksorted_merged: "ksorted (merged ts)"
  by (induction ts) (simp_all add: merged_def ksorted_fold_alist_put)

lemma map_of_merged: "list_all ksorted ts \<Longrightarrow> map_of (merged ts) = first_of ts"
proof (induction ts)
  case Nil
  then show ?case by (simp add: merged_def fun_eq_iff)
next
  case (Cons t ts)
  then show ?case
    by (auto simp: merged_def fun_eq_iff map_of_fold_alist_put map_of_rev_ksorted map_add_def
        split: option.splits)
qed

lemma ksorted_unique: "ksorted xs \<Longrightarrow> ksorted ys \<Longrightarrow> map_of xs = map_of ys \<Longrightarrow> xs = ys"
proof -
  assume a: "ksorted xs" "ksorted ys" "map_of xs = map_of ys"
  have st: "set xs = set ys"
    using a by (metis ksorted_distinct map_of_inject_set)
  then have "map fst xs = map fst ys"
    using strict_sorted_equal [OF a(1,2)] by simp
  moreover have "inj_on fst (set xs \<union> set ys)"
    using ksorted_distinct [OF a(1)] st by (simp add: distinct_map)
  ultimately show ?thesis by (simp add: inj_on_map_eq_map)
qed

definition item_entries :: "mergeItem \<Rightarrow> (bytes \<times> bytes) list" where
  "item_entries i = (mi_key i, mi_val i) # fst (iter_all (mi_iter i))"

definition item_ok :: "mergeItem \<Rightarrow> bool" where
  "item_ok i \<longleftrightarrow> ksorted (item_entries i) \<and> SST_Error (snd (iter_all (mi_iter i))) = None"

text \<open>\<open>newest H k v\<close>: of the items that still hold \<open>k\<close>, the newest holds \<open>v\<close> for it.\<close>

definition newest :: "mergeItem set \<Rightarrow> bytes \<Rightarrow> bytes \<Rightarrow> bool" where
  "newest H k v \<longleftrightarrow> (\<exists>i \<in> H. map_of (item_entries i) k = Some v \<and>
     (\<forall>j \<in> H. map_of (item_entries j) k \<noteq> None \<longrightarrow> iterIdx i \<le> iterIdx j))"

lemma newest_drop: "map_of (item_entries x) k = None \<Longrightarrow> newest (insert x H) k v \<longleftrightarrow> newest H k v"
  by (auto simp: newest_def)

lemma newest_replace:
  "map_of (item_entries x) k = map_of (item_entries y) k \<Longrightarrow> iterIdx x = iterIdx y \<Longrightarrow>
    newest (insert x H) k v \<longleftrightarrow> newest (insert y H) k v"
  by (auto simp: newest_def)

lemma iter_all_step:
  "SST_Next it = (True, it') \<Longrightarrow> iter_all it = ((it_key it', it_val it') # fst (iter_all it'), snd (iter_all it'))"
  "SST_Next it = (False, it') \<Longrightarrow> iter_all it = ([], it')"
  by (subst iter_all.simps; simp add: case_prod_beta Let_def)+

text \<open>Advancing an item drops its first entry.\<close>

lemma item_advance:
  assumes "item_ok x" "SST_Next (mi_iter x) = (True, it')"
  defines "y \<equiv> x\<lparr>mi_key := it_key it', mi_val := it_val it', mi_iter := it'\<rparr>"
  shows "item_ok y \<and> item_entries x = (mi_key x, mi_val x) # item_entries y \<and> iterIdx y = iterIdx x"
  using assms iter_all_step(1) [OF assms(2)] by (auto simp: item_ok_def item_entries_def y_def)

lemma item_last:
  assumes "item_ok x" "SST_Next (mi_iter x) = (False, it')"
  shows "item_entries x = [(mi_key x, mi_val x)] \<and> SST_Error it' = None"
  using assms iter_all_step(2) [OF assms(2)] by (auto simp: item_ok_def item_entries_def)

lemma item_key_least: "item_ok i \<Longrightarrow> map_of (item_entries i) k = Some v \<Longrightarrow> mi_key i \<le> k"
  by (auto simp: item_ok_def item_entries_def less_imp_le dest!: map_of_SomeD split: if_splits)

lemma newest_least:
  assumes ok: "\<forall>i \<in> H. item_ok i" and x: "x \<in> H" "\<forall>y \<in> H. item_rank x \<le> item_rank y"
    and d: "inj_on iterIdx H"
  shows "newest H (mi_key x) v \<longleftrightarrow> v = mi_val x"
proof -
  have hit: "map_of (item_entries x) (mi_key x) = Some (mi_val x)" by (simp add: item_entries_def)
  have le: "iterIdx x \<le> iterIdx j" if "j \<in> H" "map_of (item_entries j) (mi_key x) = Some w" for j w
  proof -
    have "mi_key j \<le> mi_key x" using item_key_least ok that by blast
    with x(2) that(1) show ?thesis by (auto simp: item_rank_def less_eq_prod_def)
  qed
  then have "newest H (mi_key x) (mi_val x)" using x(1) hit by (auto simp: newest_def)
  moreover have "v = mi_val x" if n: "newest H (mi_key x) v"
  proof -
    from n obtain i where i: "i \<in> H" "map_of (item_entries i) (mi_key x) = Some v" "iterIdx i \<le> iterIdx x"
      using x(1) hit by (auto simp: newest_def)
    with le d x(1) have "i = x" by (metis inj_onD le_antisym)
    with i(2) hit show ?thesis by simp
  qed
  ultimately show ?thesis by blast
qed

text \<open>The heaps the loop sees: ordered, one item per iterator, every iterator well-behaved.\<close>

definition merge_state :: "mergeItem list \<Rightarrow> bool" where
  "merge_state h \<longleftrightarrow> merge_heap h \<and> (\<forall>i \<in> set h. item_ok i) \<and> distinct (map iterIdx h)"

definition next_heap :: "mergeItem \<Rightarrow> mergeItem list \<Rightarrow> mergeItem list" where
  "next_heap x h1 =
     (case SST_Next (mi_iter x) of
        (True, it') \<Rightarrow> heap_Push mergeHeap_Less
          (x\<lparr>mi_key := it_key it', mi_val := it_val it', mi_iter := it'\<rparr>) h1
      | (False, it') \<Rightarrow> h1)"

lemma merge_pop:
  assumes h: "merge_state h" "h \<noteq> []" and pop: "heap_Pop mergeHeap_Less h = (x, h1)"
  shows "item_ok x" "set h = insert x (set h1)" "iterIdx x \<notin> iterIdx ` set h1" "merge_state h1"
    "\<forall>i \<in> set h. mi_key x \<le> mi_key i" "\<And>v. newest (set h) (mi_key x) v \<longleftrightarrow> v = mi_val x"
proof -
  have mh: "merge_heap h" "\<forall>i \<in> set h. item_ok i" "distinct (map iterIdx h)"
    using h(1) by (simp_all add: merge_state_def)
  show st: "set h = insert x (set h1)" by (rule merge_queue.pop_set [OF mh(1) h(2) pop])
  have least: "\<forall>i \<in> set h. item_rank x \<le> item_rank i"
    using merge_queue.pop_least [OF mh(1) h(2) pop] by blast
  then show "\<forall>i \<in> set h. mi_key x \<le> mi_key i" by (auto simp: item_rank_def less_eq_prod_def)
  show "item_ok x" using mh(2) st by simp
  show "iterIdx x \<notin> iterIdx ` set h1" "merge_state h1"
    using merge_queue.pop_distinct [OF mh(1) h(2) pop mh(3)] merge_queue.pop_invar [OF mh(1) h(2) pop]
      mh(2) st by (auto simp: merge_state_def)
  show "newest (set h) (mi_key x) v \<longleftrightarrow> v = mi_val x" for v
    by (rule newest_least) (use mh least st in \<open>auto simp: distinct_map\<close>)
qed

lemma merge_advance:
  assumes h: "merge_state h" "h \<noteq> []" and pop: "heap_Pop mergeHeap_Less h = (x, h1)"
  defines "h2 \<equiv> next_heap x h1"
  shows "merge_state h2" "merge_size h2 < merge_size h" "\<forall>i \<in> set h2. mi_key x \<le> mi_key i"
    "\<And>k v. k \<noteq> mi_key x \<Longrightarrow> newest (set h) k v \<longleftrightarrow> newest (set h2) k v"
    "snd (SST_Next (mi_iter x)) = it' \<Longrightarrow> \<not> fst (SST_Next (mi_iter x)) \<Longrightarrow> SST_Error it' = None"
proof -
  note px = merge_pop [OF h pop]
  note sz = merge_size_pop [OF pop h(2)]
  have "merge_state h2 \<and> merge_size h2 < merge_size h \<and> (\<forall>i \<in> set h2. mi_key x \<le> mi_key i) \<and>
    (\<forall>k v. k \<noteq> mi_key x \<longrightarrow> (newest (set h) k v \<longleftrightarrow> newest (set h2) k v))"
  proof (cases "SST_Next (mi_iter x)")
    case (Pair more it1)
    show ?thesis
    proof (cases more)
      case True
      let ?y = "x\<lparr>mi_key := it_key it1, mi_val := it_val it1, mi_iter := it1\<rparr>"
      have h2: "h2 = heap_Push mergeHeap_Less ?y h1" using Pair True by (simp add: h2_def next_heap_def)
      have y: "item_ok ?y" "item_entries x = (mi_key x, mi_val x) # item_entries ?y" "iterIdx ?y = iterIdx x"
        using item_advance [OF px(1)] Pair True by auto
      have mh1: "merge_heap h1" using px(4) by (simp add: merge_state_def)
      have s2: "set h2 = insert ?y (set h1)" unfolding h2 by (rule merge_queue.push_set [OF mh1])
      have "mi_key x \<le> mi_key ?y"
        using px(1) y(2) by (simp add: item_ok_def item_entries_def less_imp_le)
      moreover have "merge_state h2"
        using px(3,4) y(1,3) s2 merge_queue.push_invar [OF mh1] merge_queue.push_distinct [OF mh1, of iterIdx ?y]
        by (auto simp: merge_state_def h2)
      moreover have "merge_size h2 < merge_size h"
        using SST_Next_length [of "mi_iter x" it1] Pair True sz by (simp add: h2 merge_size_push)
      moreover have "newest (set h) k v \<longleftrightarrow> newest (set h2) k v" if "k \<noteq> mi_key x" for k v
        unfolding px(2) s2 using that y by (intro newest_replace) auto
      ultimately show ?thesis using s2 px(2,5) by auto
    next
      case False
      then have h2: "h2 = h1" using Pair by (simp add: h2_def next_heap_def)
      have "item_entries x = [(mi_key x, mi_val x)]" using item_last [OF px(1)] Pair False by auto
      then have "newest (set h) k v \<longleftrightarrow> newest (set h2) k v" if "k \<noteq> mi_key x" for k v
        unfolding px(2) h2 using that by (intro newest_drop) auto
      then show ?thesis using px sz by (simp add: h2)
    qed
  qed
  then show "merge_state h2" "merge_size h2 < merge_size h" "\<forall>i \<in> set h2. mi_key x \<le> mi_key i"
    "\<And>k v. k \<noteq> mi_key x \<Longrightarrow> newest (set h) k v \<longleftrightarrow> newest (set h2) k v" by blast+
  show "SST_Error it' = None" if "snd (SST_Next (mi_iter x)) = it'" "\<not> fst (SST_Next (mi_iter x))"
    using item_last [OF px(1), of it'] that by (cases "SST_Next (mi_iter x)") auto
qed

text \<open>One round of the loop on a good state: what is added, and where it goes on.\<close>

lemma merge_round:
  assumes "merge_state h" "h \<noteq> []" "heap_Pop mergeHeap_Less h = (x, h1)"
  shows "lk = Some (mi_key x) \<Longrightarrow> merge_loop murmur lk h b s = merge_loop murmur lk (next_heap x h1) b s"
    "lk \<noteq> Some (mi_key x) \<Longrightarrow> Builder_Add murmur (mi_key x) (Some (mi_val x)) b s = (r, b1, s1) \<Longrightarrow>
      merge_loop murmur lk h b s = (case r of
        Some e \<Rightarrow> Some (Some e, s1)
      | None \<Rightarrow> merge_loop murmur (Some (mi_key x)) (next_heap x h1) b1 s1)"
  using merge_advance(5) [OF assms] assms(2,3)
  by (subst merge_loop.simps; auto simp: next_heap_def split: prod.splits bool.splits option.splits)+

text \<open>What the loop adds, whichever of the writes fail: a failure ends it.\<close>

definition add_Finish ::
  "(bytes \<Rightarrow> u32) \<Rightarrow> (bytes \<times> bytes) list \<Rightarrow> Builder \<Rightarrow> fs \<Rightarrow> (error option \<times> fs) option" where
  "add_Finish murmur es b s =
     (case add_all murmur (map (apsnd Some) es) b s of
        (Some e, b1, s1) \<Rightarrow> Some (Some e, s1)
      | (None, b1, s1) \<Rightarrow> Finish b1 s1)"

lemma merge_loop_out:
  "merge_state h \<Longrightarrow> (\<forall>i \<in> set h. \<forall>k. lk = Some k \<longrightarrow> k \<le> mi_key i) \<Longrightarrow>
    \<exists>out. ksorted out \<and> (\<forall>e \<in> set out. \<forall>k. lk = Some k \<longrightarrow> k < fst e) \<and>
      (\<forall>k v. map_of out k = Some v \<longleftrightarrow> lk \<noteq> Some k \<and> newest (set h) k v) \<and>
      merge_loop murmur lk h b s = add_Finish murmur out b s"
proof (induction "merge_size h" arbitrary: lk h b s rule: less_induct)
  case less
  show ?case
  proof (cases "h = []")
    case True
    then have "merge_loop murmur lk h b s = Finish b s" by (subst merge_loop.simps) simp
    with True show ?thesis by (intro exI [of _ "[]"]) (simp add: newest_def add_Finish_def)
  next
    case False
    obtain x h1 where pop: "heap_Pop mergeHeap_Less h = (x, h1)" by force
    note px = merge_pop [OF less.prems(1) False pop]
    note ad = merge_advance [OF less.prems(1) False pop]
    note rd = merge_round [OF less.prems(1) False pop]
    have new: "newest (set h) k v \<longleftrightarrow> (if k = mi_key x then v = mi_val x else newest (set (next_heap x h1)) k v)"
      for k v using px(6) ad(4) by auto
    show ?thesis
    proof (cases "lk = Some (mi_key x)")
      case True
      then obtain out where "ksorted out" "\<forall>e \<in> set out. mi_key x < fst e"
        "\<forall>k v. map_of out k = Some v \<longleftrightarrow> lk \<noteq> Some k \<and> newest (set (next_heap x h1)) k v"
        "merge_loop murmur lk (next_heap x h1) b s = add_Finish murmur out b s"
        using less.hyps [OF ad(2) ad(1), of lk b s] ad(3) by auto
      then show ?thesis using True new rd(1) by (intro exI [of _ out]) auto
    next
      case ne: False
      obtain r b1 s1 where add: "Builder_Add murmur (mi_key x) (Some (mi_val x)) b s = (r, b1, s1)"
        by (metis prod_cases3)
      obtain out where out: "ksorted out" "\<forall>e \<in> set out. mi_key x < fst e"
        "\<forall>k v. map_of out k = Some v \<longleftrightarrow> mi_key x \<noteq> k \<and> newest (set (next_heap x h1)) k v"
        "merge_loop murmur (Some (mi_key x)) (next_heap x h1) b1 s1 = add_Finish murmur out b1 s1"
        using less.hyps [OF ad(2) ad(1), of "Some (mi_key x)" b1 s1] ad(3) by auto
      have loop: "merge_loop murmur lk h b s = add_Finish murmur ((mi_key x, mi_val x) # out) b s"
        using rd(2) [OF ne add] out(4) add by (cases r) (simp_all add: add_Finish_def)
      have lo: "k < mi_key x" if "lk = Some k" for k
        using less.prems(2) that ne px(2) by (auto simp: order_less_le)
      then have "lk = Some k \<Longrightarrow> map_of ((mi_key x, mi_val x) # out) k = None" for k
        using out(2) by (fastforce simp: map_of_eq_None_iff)
      moreover have "map_of ((mi_key x, mi_val x) # out) k = Some v \<longleftrightarrow> newest (set h) k v" if "lk \<noteq> Some k" for k v
        using out(3) new by auto
      ultimately have "\<forall>k v. map_of ((mi_key x, mi_val x) # out) k = Some v \<longleftrightarrow> lk \<noteq> Some k \<and> newest (set h) k v"
        by (metis option.distinct(1))
      moreover note loop
      moreover have "ksorted ((mi_key x, mi_val x) # out)" using out(1,2) by simp
      moreover have "\<forall>e \<in> set ((mi_key x, mi_val x) # out). \<forall>k. lk = Some k \<longrightarrow> k < fst e"
        using out(2) lo by (auto intro: less_trans)
      ultimately show ?thesis by blast
    qed
  qed
qed

section \<open>Seeding\<close>

lemma newest_exists: "(\<exists>w. newest H k w) \<longleftrightarrow> (\<exists>i \<in> H. map_of (item_entries i) k \<noteq> None)"
proof
  assume "\<exists>i \<in> H. map_of (item_entries i) k \<noteq> None"
  then obtain i where i: "i \<in> H" "map_of (item_entries i) k \<noteq> None"
    "\<forall>j. j \<in> H \<and> map_of (item_entries j) k \<noteq> None \<longrightarrow> iterIdx i \<le> iterIdx j"
    using ex_has_least_nat [of "\<lambda>i. i \<in> H \<and> map_of (item_entries i) k \<noteq> None" _ iterIdx] by blast
  then show "\<exists>w. newest H k w" by (auto simp: newest_def)
qed (auto simp: newest_def)

lemma newest_insert_older:
  assumes "\<forall>i \<in> H. iterIdx i < iterIdx y"
  shows "newest (insert y H) k v \<longleftrightarrow>
    (if \<exists>w. newest H k w then newest H k v else map_of (item_entries y) k = Some v)"
proof (cases "\<exists>w. newest H k w")
  case True
  then obtain i where i: "i \<in> H" "map_of (item_entries i) k \<noteq> None" using newest_exists by auto
  have lt: "iterIdx j < iterIdx y" if "j \<in> H" for j using assms that by blast
  have "newest (insert y H) k v \<longleftrightarrow> newest H k v"
    unfolding newest_def using i lt [THEN less_imp_le] lt [OF i(1)] by (auto simp: not_le)
  with True show ?thesis by simp
next
  case False
  then have "\<forall>i \<in> H. map_of (item_entries i) k = None" using newest_exists by auto
  with False show ?thesis by (auto simp: newest_def)
qed

lemma delivers_Cons:
  "delivers it (e # es) \<Longrightarrow> \<exists>it'. SST_Next it = (True, it') \<and> (it_key it', it_val it') = e \<and> delivers it' es"
  unfolding delivers_def
  by (cases "SST_Next it"; cases "fst (SST_Next it)") (auto simp: iter_all_step prod_eq_iff)

lemma delivers_Nil: "delivers it [] \<Longrightarrow> \<exists>it'. SST_Next it = (False, it') \<and> SST_Error it' = None"
  unfolding delivers_def
  by (cases "SST_Next it"; cases "fst (SST_Next it)") (auto simp: iter_all_step)

lemma merge_state_push:
  assumes "merge_state h" "item_ok y" "\<forall>i \<in> set h. iterIdx i < iterIdx y"
  shows "merge_state (heap_Push mergeHeap_Less y h) \<and>
    set (heap_Push mergeHeap_Less y h) = insert y (set h)"
proof -
  from assms(1) have h: "merge_heap h" "\<forall>i \<in> set h. item_ok i" "distinct (map iterIdx h)"
    by (simp_all add: merge_state_def)
  have "iterIdx y \<notin> iterIdx ` set h" using assms(3) by auto
  then show ?thesis
    using h assms(2) merge_queue.push_set [OF h(1)] merge_queue.push_invar [OF h(1)]
      merge_queue.push_distinct [OF h(1,3), of y] by (simp add: merge_state_def)
qed

lemma merge_seed_ok:
  "list_all2 delivers its ts \<Longrightarrow> list_all ksorted ts \<Longrightarrow> merge_state h \<Longrightarrow> \<forall>i \<in> set h. iterIdx i < n \<Longrightarrow>
    \<exists>h'. merge_seed n its h = Inr h' \<and> merge_state h' \<and>
      (\<forall>k v. newest (set h') k v \<longleftrightarrow>
         (if \<exists>w. newest (set h) k w then newest (set h) k v else first_of ts k = Some v))"
proof (induction its ts arbitrary: n h rule: list_all2_induct)
  case Nil
  then show ?case by (auto simp: newest_def)
next
  case (Cons it its t ts)
  show ?case
  proof (cases t)
    case Nil
    then obtain it' where "SST_Next it = (False, it')" "SST_Error it' = None"
      using delivers_Nil Cons.hyps(1) by blast
    with Cons.IH [of h "Suc n"] Cons.prems Nil show ?thesis
      by (auto simp: less_Suc_eq)
  next
    case (Cons e es)
    then obtain it' where it': "SST_Next it = (True, it')" "(it_key it', it_val it') = e" "delivers it' es"
      using delivers_Cons Cons.hyps(1) by blast
    let ?y = "\<lparr>mi_key = it_key it', mi_val = it_val it', iterIdx = n, mi_iter = it'\<rparr>"
    have y: "item_entries ?y = t" "item_ok ?y"
      using it' Cons Cons.prems(1) by (auto simp: item_entries_def item_ok_def delivers_def)
    have p: "merge_state (heap_Push mergeHeap_Less ?y h)"
      "set (heap_Push mergeHeap_Less ?y h) = insert ?y (set h)"
      using merge_state_push [OF Cons.prems(2) y(2)] Cons.prems(3) by auto
    obtain h' where h': "merge_seed (Suc n) its (heap_Push mergeHeap_Less ?y h) = Inr h'" "merge_state h'"
      "\<forall>k v. newest (set h') k v \<longleftrightarrow> (if \<exists>w. newest (insert ?y (set h)) k w
         then newest (insert ?y (set h)) k v else first_of ts k = Some v)"
      using Cons.IH [OF _ p(1), of "Suc n", unfolded p(2)] Cons.prems(1,3) by (auto simp: less_Suc_eq)
    moreover have "newest (insert ?y (set h)) k v \<longleftrightarrow>
        (if \<exists>w. newest (set h) k w then newest (set h) k v else map_of t k = Some v)" for k v
      using newest_insert_older [of "set h" ?y k v, unfolded y(1)] Cons.prems(3) by auto
    ultimately show ?thesis using it'(1) by (auto split: option.splits)
  qed
qed

text \<open>The whole merge adds the entries of the reference merge, in order, whichever writes fail.\<close>

lemma Merge_add_Finish:
  assumes "list_all2 delivers iters ts" "list_all ksorted ts"
  shows "Merge murmur iters b s = add_Finish murmur (merged ts) b s"
proof -
  have "merge_state []" by (simp add: merge_state_def merge_queue.invar_empty)
  then obtain h where h: "merge_seed 0 iters [] = Inr h" "merge_state h"
    "\<forall>k v. newest (set h) k v \<longleftrightarrow> first_of ts k = Some v"
    using merge_seed_ok [OF assms, of "[]" 0] by (auto simp: newest_def)
  obtain out where out: "ksorted out" "\<forall>k v. map_of out k = Some v \<longleftrightarrow> newest (set h) k v"
    "merge_loop murmur None h b s = add_Finish murmur out b s"
    using merge_loop_out [OF h(2), of None murmur b s] by auto
  have "map_of out = first_of ts" using out(2) h(3) by (auto simp: fun_eq_iff) (metis not_None_eq)
  then have "out = merged ts"
    using ksorted_unique [OF out(1) ksorted_merged] map_of_merged [OF assms(2)] by metis
  with h(1) out(3) show ?thesis by (simp add: Merge_def)
qed

text \<open>
  Into a fresh builder, when nothing fails: it returns without an error and the file under the
  builder's final name is the image of the reference merge.
\<close>

lemma Merge_merged:
  assumes "quiet s" "list_all2 delivers iters ts" "list_all ksorted ts"
    and "length (merged ts) \<le> max_bloom_keys"
  shows "Merge murmur iters (fresh_builder path now s) (snd (new_inode (tmp_name path now) s)) =
    Some (None, new_table path now (sst_image murmur (merged ts)) s)"
proof -
  have "map plain (map (apsnd Some) (merged ts)) = merged ts" by (simp add: comp_def)
  with add_all_Finish_quiet [OF assms(1), of "map (apsnd Some) (merged ts)" murmur path now] assms(4)
  show ?thesis by (auto simp: Merge_add_Finish [OF assms(2,3)] add_Finish_def)
qed

text \<open>
  C10: compaction's merge. When nothing fails, merging iterators over sorted tables, given newest
  first, returns without an error and writes the table of the reference merge: the file can be
  opened, reading it back gives, in increasing key order and without duplicates, every key of any
  input with the value of the newest input that has it, and a lookup of such a key returns that
  value.
\<close>

theorem merge_newest_wins:
  assumes "quiet s" "list_all2 delivers iters ts" "list_all ksorted ts" "table_ok murmur (merged ts)"
    and "map_of (fs_dir s) (tmp_name path now) = None"
  shows "\<exists>b s1 s2 r. NewBuilder path now s = (Inr b, s1) \<and> Merge murmur iters b s1 = Some (None, s2) \<and>
    NewReader path s2 = (Inr r, s2) \<and> ReadAll r s2 = Inr (merged ts) \<and>
    ksorted (merged ts) \<and> map_of (merged ts) = first_of ts \<and>
    (\<forall>k v. first_of ts k = Some v \<longrightarrow> Reader_Get murmur k r s2 = Some (Some v))"
proof -
  let ?s2 = "new_table path now (sst_image murmur (merged ts)) s"
  have n: "length (merged ts) \<le> max_bloom_keys" using assms(4) by (simp add: table_ok_def)
  have q: "quiet ?s2" using assms(1) by simp
  have dir: "map_of (fs_dir ?s2) path = Some (length (fs_data s))" by (simp add: new_table_dir [OF assms(5)])
  have img: "fs_data ?s2 ! length (fs_data s) = sst_image murmur (merged ts)" by simp
  obtain r where r: "NewReader path ?s2 = (Inr r, ?s2)" "reads_table murmur ?s2 r (merged ts)"
    using NewReader_image [OF q dir _ img assms(4)] by auto
  have "Reader_Get murmur k r ?s2 = Some (Some v)" if "first_of ts k = Some v" for k v
    using reads_table_Get [OF r(2), of k] that by (simp add: map_of_merged [OF assms(3)])
  then show ?thesis
    using NewBuilder_quiet [OF assms(1,5)] Merge_merged [OF assms(1-3) n, of murmur path now] r
      reads_table_ReadAll [OF r(2)] ksorted_merged map_of_merged [OF assms(3)] by blast
qed

text \<open>Two iterators, newest first, that both hold the key 1.\<close>

definition sample_iter :: "(bytes \<times> bytes) list \<Rightarrow> Iterator" where
  "sample_iter es = \<lparr>it_file = 0, it_open = True, it_rest = sst_block es, it_limit = int (length (sst_block es)), it_pos = 0,
     it_key = [], it_val = [], it_err = None\<rparr>"

lemma sample_iter_delivers: "list_all sst_fits es \<Longrightarrow> delivers (sample_iter es) es"
  using iter_all_block [of es "sample_iter es" "[]"] by (auto simp: sample_iter_def delivers_def SST_Error_def)

theorem merge_newest_wins_witness:
  "\<exists>b s1 s2 r. NewBuilder ''m.sst'' 9 \<lparr>fs_dir = [], fs_data = [], fs_faults = []\<rparr> = (Inr b, s1) \<and>
    Merge (\<lambda>_. 0) [sample_iter [([1], [8])], sample_iter [([1], [7]), ([2], [6])]] b s1 = Some (None, s2) \<and>
    NewReader ''m.sst'' s2 = (Inr r, s2) \<and> ReadAll r s2 = Inr [([1], [8]), ([2], [6])]"
proof -
  let ?ts = "[[([1], [8])], [([1], [7]), ([2], [6])]] :: (bytes \<times> bytes) list list"
  let ?s = "\<lparr>fs_dir = [], fs_data = [], fs_faults = []\<rparr>"
  have m: "merged ?ts = [([1], [8]), ([2], [6])]" by (simp add: merged_def)
  have d: "list_all2 delivers [sample_iter [([1], [8])], sample_iter [([1], [7]), ([2], [6])]] ?ts"
    by (auto intro: sample_iter_delivers simp: sst_fits_def)
  have ok: "table_ok (\<lambda>_. 0) (merged ?ts)"
    by (rule table_ok_small) (simp_all add: m sst_fits_def max_bloom_keys_def)
  have "list_all ksorted ?ts" "quiet ?s" "map_of (fs_dir ?s) (tmp_name ''m.sst'' 9) = None" by simp_all
  with merge_newest_wins [OF _ d _ ok, of ?s "''m.sst''" 9] show ?thesis by (auto simp: m)
qed

end
