(* ===== verification/Engine.thy ===== *)
theory Engine
  imports Wal Merge "HOL-Library.Char_ord"
begin

text \<open>
  The storage engine, \<^verbatim>\<open>src/engine/stratago.go\<close>, \<^verbatim>\<open>src/engine/flush.go\<close> and
  \<^verbatim>\<open>src/engine/inspect.go\<close>. One record holds what \<^verbatim>\<open>StrataGo\<close> holds; the capacity-one
  flush channel is the flag whether it holds a token. Each operation takes the file system and
  returns it, with \<open>None\<close> for a panic. Time, the random streams of the skip lists and the order
  of \<^verbatim>\<open>range\<close> loops over maps are arguments. An operation is one atomic step; \<^verbatim>\<open>Flush\<close>,
  which releases the lock in between, is the composition of its locked and unlocked phases
  (\<open>Flush_rotate\<close>, \<open>Flush_write\<close>, \<open>Flush_install\<close>).
\<close>

section \<open>State\<close>

definition DefaultMemtableThreshold :: int where
  "DefaultMemtableThreshold = 4 * 1024 * 1024"

record StrataGo =
  activeMemtable :: SkipList
  immutableMemtable :: "SkipList option"
  db_wal :: WAL
  sstReaders :: "Reader list"
  dataDir :: string
  flushChan :: bool
  closed :: bool

abbreviation err_closed :: error where
  "err_closed \<equiv> Errorf ''database is closed''"

section \<open>Names of tables\<close>

definition sst_name :: "int \<Rightarrow> string" where
  "sst_name ts = ''data_'' @ Sprintf_d ts @ ''.sst''"

definition is_digit :: "char \<Rightarrow> bool" where
  "is_digit c \<longleftrightarrow> 48 \<le> (of_char c :: nat) \<and> (of_char c :: nat) \<le> 57"

definition is_blank :: "char \<Rightarrow> bool" where
  "is_blank c \<longleftrightarrow> of_char c \<in> {9, 11, 12, 13, 32 :: nat}"

definition dec_val :: "string \<Rightarrow> nat" where
  "dec_val ds = foldl (\<lambda>n c. 10 * n + (of_char c - 48)) 0 ds"

text \<open>
  \<^verbatim>\<open>fmt.Sscanf(name, "data_%d.sst", &ts)\<close> with the error dropped: the literal prefix,
  blanks, an optional sign and the digits of an \<^verbatim>\<open>int64\<close>; \<open>ts\<close> keeps its zero where any of
  these fails, and has its value already where only the rest of the name does not match.
\<close>

definition Sscanf_ts :: "string \<Rightarrow> int" where
  "Sscanf_ts name =
     (if \<not> prefix ''data_'' name then 0
      else (let r = dropWhile is_blank (drop 5 name);
                neg = (r \<noteq> [] \<and> hd r = CHR ''-'');
                r1 = (if neg \<or> (r \<noteq> [] \<and> hd r = CHR ''+'') then tl r else r);
                ds = takeWhile is_digit r1;
                v = (if neg then - int (dec_val ds) else int (dec_val ds))
            in if ds = [] \<or> \<not> (- (2 ^ 63) \<le> v \<and> v < 2 ^ 63) then 0 else v))"

text \<open>\<^verbatim>\<open>os.ReadDir\<close>: the names directly under the directory, sorted.\<close>

definition dir_names :: "string \<Rightarrow> fs \<Rightarrow> string list" where
  "dir_names d s = sort (map (drop (length d + 1))
     (filter (\<lambda>n. prefix (d @ ''/'') n \<and> CHR ''/'' \<notin> set (drop (length d + 1) n)) (map fst (fs_dir s))))"

definition os_ReadDir :: "string \<Rightarrow> fs \<Rightarrow> (error + string list) \<times> fs" where
  "os_ReadDir d s0 =
     (case pop_fault s0 of
        (Fault _, s) \<Rightarrow> (Inl ErrIO, s)
      | (NoFault, s) \<Rightarrow> (Inr (dir_names d s), s))"

record sstableInfo =
  info_path :: string
  timestamp :: int

definition sstable_infos :: "string \<Rightarrow> string list \<Rightarrow> sstableInfo list" where
  "sstable_infos d names =
     map (\<lambda>n. \<lparr>info_path = filepath_Join d n, timestamp = Sscanf_ts n\<rparr>) (filter (suffix ''.sst'') names)"

text \<open>A table that cannot be opened is skipped without an error.\<close>

fun open_tables :: "sstableInfo list \<Rightarrow> fs \<Rightarrow> Reader list \<times> fs" where
  "open_tables [] s = ([], s)"
| "open_tables (i # is) s =
     (case NewReader (info_path i) s of
        (Inl _, s1) \<Rightarrow> open_tables is s1
      | (Inr r, s1) \<Rightarrow> (let (rs, s2) = open_tables is s1 in (r # rs, s2)))"

section \<open>Open\<close>

abbreviation wal_name :: "string \<Rightarrow> string" where
  "wal_name d \<equiv> filepath_Join d ''wal.log''"

abbreviation flushing_name :: "string \<Rightarrow> string" where
  "flushing_name d \<equiv> filepath_Join d ''wal.log.flushing''"

text \<open>
  The loop over the entries of an abandoned flush: each goes into the memtable and, again, into
  the new log.
\<close>

fun replay_flushing ::
  "(bytes \<times> slice) list \<Rightarrow> SkipList \<Rightarrow> WAL \<Rightarrow> fs \<Rightarrow> (error option \<times> SkipList \<times> WAL \<times> fs) option" where
  "replay_flushing [] mem w s = Some (None, mem, w, s)"
| "replay_flushing ((k, v) # kvs) mem w s =
     (case SkipList_Put k v mem of
        None \<Rightarrow> None
      | Some mem1 \<Rightarrow>
          (case WriteEntry k v w s of
             (Some e, w1, s1) \<Rightarrow> Some (Some e, mem1, w1, s1)
           | (None, w1, s1) \<Rightarrow> replay_flushing kvs mem1 w1 s1))"

text \<open>
  Where the recovery of the abandoned log fails, its map is \<^verbatim>\<open>nil\<close>, and the log is removed
  all the same.
\<close>

definition recover_flushing ::
  "((bytes \<times> slice) list \<Rightarrow> (bytes \<times> slice) list) \<Rightarrow> string \<Rightarrow> SkipList \<Rightarrow> WAL \<Rightarrow> fs
    \<Rightarrow> (error option \<times> SkipList \<times> WAL \<times> fs) option" where
  "recover_flushing ord d mem walLog s =
     (case os_Stat (flushing_name d) s of
        (Inl _, s1) \<Rightarrow> Some (None, mem, walLog, s1)
      | (Inr _, s1) \<Rightarrow>
          (case NewWAL (flushing_name d) s1 of
             (Inl _, s2) \<Rightarrow> Some (None, mem, walLog, s2)
           | (Inr tempWAL, s2) \<Rightarrow>
               (let (restored, tempWAL1, s3) =
                      (case Recover tempWAL s2 of
                         (Inl _, t, s3) \<Rightarrow> (case WAL_Close t s3 of (_, t1, s4) \<Rightarrow> ([], t1, s4))
                       | (Inr m, t, s3) \<Rightarrow> (m, t, s3))
                in (case replay_flushing (ord restored) mem walLog s3 of
                      None \<Rightarrow> None
                    | Some (Some e, mem1, w1, s4) \<Rightarrow> Some (Some e, mem1, w1, s4)
                    | Some (None, mem1, w1, s4) \<Rightarrow>
                        Some (None, mem1, w1,
                          snd (os_Remove (flushing_name d) (snd (snd (WAL_Close tempWAL1 s4)))))))))"

definition Open ::
  "(nat \<Rightarrow> nat) \<Rightarrow> ((bytes \<times> slice) list \<Rightarrow> (bytes \<times> slice) list)
    \<Rightarrow> ((bytes \<times> slice) list \<Rightarrow> (bytes \<times> slice) list) \<Rightarrow> string \<Rightarrow> fs \<Rightarrow> ((error + StrataGo) \<times> fs) option" where
  "Open rnd ord1 ord2 d s =
     (case os_MkdirAll d s of
        (Some e, s1) \<Rightarrow> Some (Inl e, s1)
      | (None, s1) \<Rightarrow>
          (case NewWAL (wal_name d) s1 of
             (Inl e, s2) \<Rightarrow> Some (Inl e, s2)
           | (Inr walLog, s2) \<Rightarrow>
               (case recover_flushing ord1 d (NewSkipList rnd) walLog s2 of
                  None \<Rightarrow> None
                | Some (Some e, _, _, s3) \<Rightarrow> Some (Inl (Wrap ''failed to persist recovered data'' e), s3)
                | Some (None, mem1, w1, s3) \<Rightarrow>
                    (case Recover w1 s3 of
                       (Inl e, _, s4) \<Rightarrow> Some (Inl (Wrap ''WAL recovery failed'' e), s4)
                     | (Inr restored, w2, s4) \<Rightarrow>
                         (case put_all SkipList_Put (ord2 restored) mem1 of
                            None \<Rightarrow> None
                          | Some mem2 \<Rightarrow>
                              (case os_ReadDir d s4 of
                                 (Inl e, s5) \<Rightarrow> Some (Inl (Wrap ''failed to read data directory'' e), s5)
                               | (Inr names, s5) \<Rightarrow>
                                   (case open_tables (sort_key timestamp (sstable_infos d names)) s5 of
                                      (readers, s6) \<Rightarrow>
                                        Some (Inr \<lparr>activeMemtable = mem2, immutableMemtable = None, db_wal = w2,
                                          sstReaders = readers, dataDir = d, flushChan = False,
                                          closed = False\<rparr>, s6))))))))"

section \<open>Put, Get, Delete\<close>

definition signal_flush :: "StrataGo \<Rightarrow> StrataGo" where
  "signal_flush db =
     (if SizeBytes (activeMemtable db) \<ge> DefaultMemtableThreshold then db\<lparr>flushChan := True\<rparr> else db)"

definition StrataGo_Put :: "bytes \<Rightarrow> slice \<Rightarrow> StrataGo \<Rightarrow> fs \<Rightarrow> (error option \<times> StrataGo \<times> fs) option" where
  "StrataGo_Put key val db s =
     (if closed db then Some (Some err_closed, db, s)
      else (case WriteEntry key val (db_wal db) s of
              (Some e, w, s1) \<Rightarrow> Some (Some e, db\<lparr>db_wal := w\<rparr>, s1)
            | (None, w, s1) \<Rightarrow>
                (case SkipList_Put key val (activeMemtable db) of
                   None \<Rightarrow> None
                 | Some m \<Rightarrow> Some (None, signal_flush (db\<lparr>db_wal := w, activeMemtable := m\<rparr>), s1))))"

text \<open>The readers, newest first.\<close>

fun readers_Get :: "(bytes \<Rightarrow> u32) \<Rightarrow> bytes \<Rightarrow> Reader list \<Rightarrow> fs \<Rightarrow> bytes option option" where
  "readers_Get murmur key [] s = Some None"
| "readers_Get murmur key (r # rs) s =
     (case Reader_Get murmur key r s of
        None \<Rightarrow> None
      | Some (Some val) \<Rightarrow> Some (if length val = 0 then None else Some val)
      | Some None \<Rightarrow> readers_Get murmur key rs s)"

definition StrataGo_Get :: "(bytes \<Rightarrow> u32) \<Rightarrow> bytes \<Rightarrow> StrataGo \<Rightarrow> fs \<Rightarrow> bytes option option" where
  "StrataGo_Get murmur key db s =
     (case SkipList_Get key (activeMemtable db) of
        None \<Rightarrow> None
      | Some (Some val) \<Rightarrow> Some val
      | Some None \<Rightarrow>
          (case (case immutableMemtable db of None \<Rightarrow> Some None | Some m \<Rightarrow> SkipList_Get key m) of
             None \<Rightarrow> None
           | Some (Some val) \<Rightarrow> Some val
           | Some None \<Rightarrow> readers_Get murmur key (rev (sstReaders db)) s))"

definition StrataGo_Delete :: "bytes \<Rightarrow> StrataGo \<Rightarrow> fs \<Rightarrow> (error option \<times> StrataGo \<times> fs) option" where
  "StrataGo_Delete key db s =
     (if closed db then Some (Some err_closed, db, s)
      else (case WriteEntry key None (db_wal db) s of
              (Some e, w, s1) \<Rightarrow> Some (Some e, db\<lparr>db_wal := w\<rparr>, s1)
            | (None, w, s1) \<Rightarrow>
                (case SkipList_Put key None (activeMemtable db) of
                   None \<Rightarrow> None
                 | Some m \<Rightarrow> Some (None, signal_flush (db\<lparr>db_wal := w, activeMemtable := m\<rparr>), s1))))"

section \<open>Flush\<close>

text \<open>
  The first locked phase. \<open>Some r\<close> is an early return with \<open>r\<close>; on every failure the memtables
  are put back, the log stays closed.
\<close>

definition Flush_rotate :: "(nat \<Rightarrow> nat) \<Rightarrow> StrataGo \<Rightarrow> fs \<Rightarrow> error option option \<times> StrataGo \<times> fs" where
  "Flush_rotate rnd db s =
     (if Size (activeMemtable db) = 0 \<and> immutableMemtable db = None then (Some None, db, s)
      else if immutableMemtable db \<noteq> None then (None, db, s)
      else (let d = dataDir db
            in (case WAL_Close (db_wal db) s of
                  (Some e, w, s1) \<Rightarrow> (Some (Some e), db\<lparr>db_wal := w\<rparr>, s1)
                | (None, w, s1) \<Rightarrow>
                    (case os_Rename (wal_name d) (flushing_name d) s1 of
                       (Some e, s2) \<Rightarrow> (Some (Some e), db\<lparr>db_wal := w\<rparr>, s2)
                     | (None, s2) \<Rightarrow>
                         (case NewWAL (wal_name d) s2 of
                            (Inl e, s3) \<Rightarrow>
                              (Some (Some e), db\<lparr>db_wal := w\<rparr>,
                               snd (os_Rename (flushing_name d) (wal_name d) s3))
                          | (Inr newWal, s3) \<Rightarrow>
                              (None, db\<lparr>immutableMemtable := Some (activeMemtable db),
                                        activeMemtable := NewSkipList rnd, db_wal := newWal\<rparr>, s3))))))"

text \<open>The loop of \<^verbatim>\<open>recoverFromFlushFailure\<close>: a failing write is reported and passed over.\<close>

fun rewrite_entries :: "(bytes \<times> slice) list \<Rightarrow> WAL \<Rightarrow> fs \<Rightarrow> WAL \<times> fs" where
  "rewrite_entries [] w s = (w, s)"
| "rewrite_entries ((k, v) # kvs) w s =
     (case WriteEntry k v w s of (_, w1, s1) \<Rightarrow> rewrite_entries kvs w1 s1)"

definition recoverFromFlushFailure :: "error \<Rightarrow> StrataGo \<Rightarrow> fs \<Rightarrow> (error option \<times> StrataGo \<times> fs) option" where
  "recoverFromFlushFailure originalErr db s =
     (case immutableMemtable db of
        None \<Rightarrow> None
      | Some m \<Rightarrow>
          (case SkipList_entries m of
             None \<Rightarrow> None
           | Some es \<Rightarrow>
               (case rewrite_entries es (db_wal db) s of
                  (w, s1) \<Rightarrow> Some (Some (Wrap ''flush failed, data preserved'' originalErr),
                                  db\<lparr>db_wal := w, immutableMemtable := None\<rparr>, s1))))"

text \<open>The second locked phase.\<close>

definition Flush_install :: "Reader \<Rightarrow> StrataGo \<Rightarrow> fs \<Rightarrow> error option \<times> StrataGo \<times> fs" where
  "Flush_install reader db s =
     (None, db\<lparr>sstReaders := sstReaders db @ [reader], immutableMemtable := None\<rparr>,
      snd (os_Remove (flushing_name (dataDir db)) s))"

text \<open>
  The unlocked phase: build the table from the immutable memtable, open it, read it back and
  compare the number of entries. \<open>now1\<close> names the table, \<open>now2\<close> its temporary file.
\<close>

definition discard_table :: "Reader \<Rightarrow> string \<Rightarrow> fs \<Rightarrow> fs" where
  "discard_table reader path s = snd (os_Remove path (snd (snd (Reader_Close reader s))))"

definition Flush_write ::
  "(bytes \<Rightarrow> u32) \<Rightarrow> int \<Rightarrow> int \<Rightarrow> StrataGo \<Rightarrow> fs \<Rightarrow> (error option \<times> StrataGo \<times> fs) option" where
  "Flush_write murmur now1 now2 db s =
     (let sstPath = filepath_Join (dataDir db) (sst_name now1)
      in (case NewBuilder sstPath now2 s of
            (Inl e, s1) \<Rightarrow> recoverFromFlushFailure e db s1
          | (Inr builder, s1) \<Rightarrow>
              (case immutableMemtable db of
                 None \<Rightarrow> None
               | Some m \<Rightarrow>
                   (case Builder_Flush murmur m builder s1 of
                      None \<Rightarrow> None
                    | Some (Some e, s2) \<Rightarrow> recoverFromFlushFailure e db s2
                    | Some (None, s2) \<Rightarrow>
                        (case NewReader sstPath s2 of
                           (Inl e, s3) \<Rightarrow> Some (Some e, db, s3)
                         | (Inr reader, s3) \<Rightarrow>
                             (case ReadAll reader s3 of
                                Inl e \<Rightarrow>
                                  recoverFromFlushFailure (Wrap ''SSTable verification failed'' e) db
                                    (discard_table reader sstPath s3)
                              | Inr verifyData \<Rightarrow>
                                  if length verifyData \<noteq> Size m
                                  then recoverFromFlushFailure (Errorf ''SSTable size mismatch'') db
                                         (discard_table reader sstPath s3)
                                  else Some (Flush_install reader db s3)))))))"

definition Flush ::
  "(bytes \<Rightarrow> u32) \<Rightarrow> (nat \<Rightarrow> nat) \<Rightarrow> int \<Rightarrow> int \<Rightarrow> StrataGo \<Rightarrow> fs \<Rightarrow> (error option \<times> StrataGo \<times> fs) option" where
  "Flush murmur rnd now1 now2 db s =
     (case Flush_rotate rnd db s of
        (Some r, db1, s1) \<Rightarrow> Some (r, db1, s1)
      | (None, db1, s1) \<Rightarrow> Flush_write murmur now1 now2 db1 s1)"

text \<open>One turn of \<^verbatim>\<open>flushWorker\<close>: it takes the token and drops the error.\<close>

definition flushWorker_turn ::
  "(bytes \<Rightarrow> u32) \<Rightarrow> (nat \<Rightarrow> nat) \<Rightarrow> int \<Rightarrow> int \<Rightarrow> StrataGo \<Rightarrow> fs \<Rightarrow> (StrataGo \<times> fs) option" where
  "flushWorker_turn murmur rnd now1 now2 db s =
     (if \<not> flushChan db then Some (db, s)
      else map_option snd (Flush murmur rnd now1 now2 (db\<lparr>flushChan := False\<rparr>) s))"

section \<open>Close and Purge\<close>

fun close_readers :: "Reader list \<Rightarrow> fs \<Rightarrow> Reader list \<times> fs" where
  "close_readers [] s = ([], s)"
| "close_readers (r # rs) s =
     (case Reader_Close r s of
        (_, r1, s1) \<Rightarrow> (case close_readers rs s1 of (rs1, s2) \<Rightarrow> (r1 # rs1, s2)))"

definition StrataGo_Close ::
  "(bytes \<Rightarrow> u32) \<Rightarrow> (nat \<Rightarrow> nat) \<Rightarrow> int \<Rightarrow> int \<Rightarrow> StrataGo \<Rightarrow> fs \<Rightarrow> (error option \<times> StrataGo \<times> fs) option" where
  "StrataGo_Close murmur rnd now1 now2 db s =
     (if closed db then Some (None, db, s)
      else (case Flush murmur rnd now1 now2 (db\<lparr>closed := True\<rparr>) s of
              None \<Rightarrow> None
            | Some (Some e, db1, s1) \<Rightarrow> Some (Some (Wrap ''final flush on close failed'' e), db1, s1)
            | Some (None, db1, s1) \<Rightarrow>
                (case WAL_Close (db_wal db1) s1 of
                   (_, w, s2) \<Rightarrow>
                     (case close_readers (sstReaders db1) s2 of
                        (rs, s3) \<Rightarrow>
                          Some (None, db1\<lparr>flushChan := False, db_wal := w, sstReaders := rs\<rparr>, s3)))))"

definition Purge ::
  "(bytes \<Rightarrow> u32) \<Rightarrow> (nat \<Rightarrow> nat) \<Rightarrow> (nat \<Rightarrow> nat) \<Rightarrow> int \<Rightarrow> int \<Rightarrow> StrataGo \<Rightarrow> fs
    \<Rightarrow> (error option \<times> StrataGo \<times> fs) option" where
  "Purge murmur rnd rnd' now1 now2 db s =
     (case StrataGo_Close murmur rnd now1 now2 db s of
        None \<Rightarrow> None
      | Some (Some e, db1, s1) \<Rightarrow> Some (Some e, db1, s1)
      | Some (None, db1, s1) \<Rightarrow>
          (case os_RemoveAll (dataDir db1) s1 of
             (Some e, s2) \<Rightarrow> Some (Some e, db1, s2)
           | (None, s2) \<Rightarrow>
               (case os_MkdirAll (dataDir db1) s2 of
                  (Some e, s3) \<Rightarrow> Some (Some e, db1, s3)
                | (None, s3) \<Rightarrow>
                    (let db2 = db1\<lparr>activeMemtable := NewSkipList rnd', immutableMemtable := None,
                                   sstReaders := []\<rparr>
                     in (case NewWAL (wal_name (dataDir db2)) s3 of
                           (Inl e, s4) \<Rightarrow> Some (Some e, db2, s4)
                         | (Inr newWal, s4) \<Rightarrow>
                             Some (None, db2\<lparr>db_wal := newWal, flushChan := False, closed := False\<rparr>, s4))))))"

section \<open>ScanAll and the inspection functions\<close>

fun scan_readers :: "Reader list \<Rightarrow> (bytes \<times> slice) list \<Rightarrow> fs \<Rightarrow> (bytes \<times> slice) list \<times> fs" where
  "scan_readers [] state s = (state, s)"
| "scan_readers (r # rs) state s =
     (case Reader_NewIterator r s of
        (Inl _, s1) \<Rightarrow> scan_readers rs state s1
      | (Inr it, s1) \<Rightarrow> (case iter_all it of
             (es, it1) \<Rightarrow> scan_readers rs (map_puts (map (apsnd Some) es) state) (snd (snd (SST_Close it1 s1)))))"

definition ScanAll :: "StrataGo \<Rightarrow> fs \<Rightarrow> ((error + (bytes \<times> slice) list) \<times> fs) option" where
  "ScanAll db s =
     (if closed db then Some (Inl err_closed, s)
      else (case scan_readers (sstReaders db) [] s of
              (state, s1) \<Rightarrow>
                (case (case immutableMemtable db of None \<Rightarrow> Some [] | Some m \<Rightarrow> SkipList_entries m) of
                   None \<Rightarrow> None
                 | Some es1 \<Rightarrow>
                     (case SkipList_entries (activeMemtable db) of
                        None \<Rightarrow> None
                      | Some es2 \<Rightarrow>
                          Some (Inr (filter (\<lambda>e. length (bytes_of (snd e)) > 0)
                                 (map_puts es2 (map_puts es1 state))), s1)))))"

definition GetWAL :: "StrataGo \<Rightarrow> WAL" where
  "GetWAL db = db_wal db"

definition GetActiveContents :: "StrataGo \<Rightarrow> (bytes \<times> slice) list option" where
  "GetActiveContents db = map_option (\<lambda>es. map_puts es []) (SkipList_entries (activeMemtable db))"

text \<open>The outer \<open>None\<close> is a panic, the inner one the \<^verbatim>\<open>nil\<close> map.\<close>

definition GetImmutableContents :: "StrataGo \<Rightarrow> (bytes \<times> slice) list option option" where
  "GetImmutableContents db =
     (case immutableMemtable db of
        None \<Rightarrow> Some None
      | Some m \<Rightarrow> map_option (\<lambda>es. Some (map_puts es [])) (SkipList_entries m))"

definition GetSSTableContents :: "StrataGo \<Rightarrow> fs \<Rightarrow> (string \<times> (bytes \<times> bytes) list) list" where
  "GetSSTableContents db s =
     map_puts (map (\<lambda>r. (Reader_Path r, case ReadAll r s of Inl _ \<Rightarrow> [] | Inr m \<Rightarrow> m)) (sstReaders db)) []"

section \<open>The layers a lookup goes through\<close>

definition mem_ok :: "StrataGo \<Rightarrow> bool" where
  "mem_ok db \<longleftrightarrow> skip_ok (activeMemtable db) \<and> pred_option skip_ok (immutableMemtable db)"

definition active_content :: "StrataGo \<Rightarrow> (bytes \<times> slice) list" where
  "active_content db = skip_content (activeMemtable db)"

definition imm_content :: "StrataGo \<Rightarrow> (bytes \<times> slice) list" where
  "imm_content db = (case immutableMemtable db of None \<Rightarrow> [] | Some m \<Rightarrow> skip_content m)"

abbreviation db_tables :: "(bytes \<Rightarrow> u32) \<Rightarrow> fs \<Rightarrow> StrataGo \<Rightarrow> (bytes \<times> bytes) list list \<Rightarrow> bool" where
  "db_tables murmur s db ts \<equiv> list_all2 (reads_table murmur s) (sstReaders db) ts"

text \<open>
  What is kept at all times: the memtables are well formed, every reader is open on a file that
  holds a table, and the log is a file none of them reads.
\<close>

definition db_inv :: "(bytes \<Rightarrow> u32) \<Rightarrow> StrataGo \<Rightarrow> fs \<Rightarrow> bool" where
  "db_inv murmur db s \<longleftrightarrow> mem_ok db \<and> (\<exists>ts. db_tables murmur s db ts) \<and>
     wal_file (db_wal db) < length (fs_data s) \<and> wal_file (db_wal db) \<notin> r_file ` set (sstReaders db)"

definition value_of :: "bytes \<Rightarrow> slice" where
  "value_of v = (if v = [] then None else Some v)"

text \<open>A lookup through tables, newest first; an absent key may still be found (\<open>ghost\<close>).\<close>

fun tables_Get :: "(bytes \<Rightarrow> u32) \<Rightarrow> bytes \<Rightarrow> (bytes \<times> bytes) list list \<Rightarrow> bytes option" where
  "tables_Get murmur k [] = None"
| "tables_Get murmur k (t # ts) =
     (case (case map_of t k of Some v \<Rightarrow> Some v | None \<Rightarrow> ghost murmur t k) of
        Some v \<Rightarrow> value_of v
      | None \<Rightarrow> tables_Get murmur k ts)"

lemma readers_Get_tables:
  "list_all2 (reads_table murmur s) rs ts \<Longrightarrow> readers_Get murmur k rs s = Some (tables_Get murmur k ts)"
proof (induction rs ts rule: list_all2_induct)
  case (Cons r rs t ts)
  then show ?case
    by (simp add: reads_table_Get [OF Cons.hyps(1)] value_of_def split: option.splits)
qed simp

definition layered_Get ::
  "(bytes \<Rightarrow> u32) \<Rightarrow> bytes \<Rightarrow> (bytes \<times> slice) list list \<Rightarrow> (bytes \<times> bytes) list list \<Rightarrow> bytes option" where
  "layered_Get murmur k mems ts = (case first_of mems k of Some v \<Rightarrow> v | None \<Rightarrow> tables_Get murmur k (rev ts))"

lemma StrataGo_Get_layers:
  assumes "mem_ok db" "db_tables murmur s db ts"
  shows "StrataGo_Get murmur k db s = Some (layered_Get murmur k [active_content db, imm_content db] ts)"
proof -
  have "list_all2 (reads_table murmur s) (rev (sstReaders db)) (rev ts)"
    using assms(2) by (simp add: list_all2_rev)
  then have "readers_Get murmur k (rev (sstReaders db)) s = Some (tables_Get murmur k (rev ts))"
    by (rule readers_Get_tables)
  moreover have "SkipList_Get k (activeMemtable db) = Some (map_of (active_content db) k)"
    using assms(1) by (simp add: mem_ok_def memtable.get_spec active_content_def)
  moreover have "SkipList_Get k m = Some (map_of (imm_content db) k)" if "immutableMemtable db = Some m" for m
    using assms(1) that by (simp add: mem_ok_def memtable.get_spec imm_content_def)
  ultimately show ?thesis
    by (auto simp: StrataGo_Get_def layered_Get_def imm_content_def split: option.splits)
qed

section \<open>Frames: what a change of the file system leaves alone\<close>

lemma reads_table_frame:
  "reads_table murmur s r es \<Longrightarrow> length (fs_data s) \<le> length (fs_data s') \<Longrightarrow>
    fs_data s' ! r_file r = fs_data s ! r_file r \<Longrightarrow> reads_table murmur s' r es"
  by (simp add: reads_table_def)

lemma db_tables_frame:
  assumes "list_all2 (reads_table murmur s) rs ts" "length (fs_data s) \<le> length (fs_data s')"
    and "\<forall>i \<in> r_file ` set rs. i < length (fs_data s) \<longrightarrow> fs_data s' ! i = fs_data s ! i"
  shows "list_all2 (reads_table murmur s') rs ts"
  using assms(1)
proof (rule list.rel_mono_strong)
  fix r es
  assume r: "r \<in> set rs" "reads_table murmur s r es"
  then have "r_file r < length (fs_data s)" by (simp add: reads_table_def)
  with r(1) assms(3) have "fs_data s' ! r_file r = fs_data s ! r_file r" by blast
  then show "reads_table murmur s' r es" by (rule reads_table_frame [OF r(2) assms(2)])
qed

lemma WriteEntry_frame:
  assumes "wal_file w < length (fs_data s)" "WriteEntry k v w s = (r, w', s')"
  shows "wal_file w' = wal_file w \<and> length (fs_data s') = length (fs_data s) \<and>
    (\<forall>i. i \<noteq> wal_file w \<longrightarrow> fs_data s' ! i = fs_data s ! i) \<and> fs_dir s' = fs_dir s"
proof (cases "wal_open w")
  case True
  from WriteEntry_file [OF True assms] show ?thesis by auto
next
  case False
  with assms(2) show ?thesis by (auto simp: WriteEntry_def Let_def)
qed

lemma signal_flush_simps [simp]:
  "activeMemtable (signal_flush db) = activeMemtable db"
  "immutableMemtable (signal_flush db) = immutableMemtable db"
  "db_wal (signal_flush db) = db_wal db" "sstReaders (signal_flush db) = sstReaders db"
  "dataDir (signal_flush db) = dataDir db" "closed (signal_flush db) = closed db"
  by (simp_all add: signal_flush_def)

text \<open>The common part of \<^verbatim>\<open>Put\<close> and \<^verbatim>\<open>Delete\<close>: a write to the log, then one to the memtable.\<close>

lemma write_keeps_tables:
  assumes "db_inv murmur db s" "WriteEntry k v (db_wal db) s = (r, w, s1)" "db_tables murmur s db ts"
  shows "list_all2 (reads_table murmur s1) (sstReaders db) ts"
proof -
  have "wal_file (db_wal db) < length (fs_data s)" "wal_file (db_wal db) \<notin> r_file ` set (sstReaders db)"
    using assms(1) by (simp_all add: db_inv_def)
  with WriteEntry_frame [OF _ assms(2)] show ?thesis
    by (intro db_tables_frame [OF assms(3)]) (auto, metis imageI)
qed

lemma db_write:
  assumes inv: "db_inv murmur db s" and op: "\<not> closed db"
    and w: "WriteEntry k v (db_wal db) s = (r, w, s1)"
  shows "r = Some e \<Longrightarrow> db_inv murmur (db\<lparr>db_wal := w\<rparr>) s1 \<and>
      StrataGo_Get murmur k' (db\<lparr>db_wal := w\<rparr>) s1 = StrataGo_Get murmur k' db s"
    "r = None \<Longrightarrow> \<exists>m. SkipList_Put k v (activeMemtable db) = Some m \<and>
      db_inv murmur (signal_flush (db\<lparr>db_wal := w, activeMemtable := m\<rparr>)) s1 \<and>
      StrataGo_Get murmur k' (signal_flush (db\<lparr>db_wal := w, activeMemtable := m\<rparr>)) s1
        = (if k' = k then Some v else StrataGo_Get murmur k' db s)"
proof -
  obtain ts where ts: "db_tables murmur s db ts" using inv by (auto simp: db_inv_def)
  have mem: "mem_ok db" using inv by (simp add: db_inv_def)
  note ts1 = write_keeps_tables [OF inv w ts]
  have wf: "wal_file w < length (fs_data s1)" "wal_file w \<notin> r_file ` set (sstReaders db)"
    using WriteEntry_frame [OF _ w] inv by (auto simp: db_inv_def)
  note get = StrataGo_Get_layers [OF mem ts]
  {
    assume "r = Some e"
    have "mem_ok (db\<lparr>db_wal := w\<rparr>)" using mem by (simp add: mem_ok_def)
    then show "db_inv murmur (db\<lparr>db_wal := w\<rparr>) s1 \<and>
      StrataGo_Get murmur k' (db\<lparr>db_wal := w\<rparr>) s1 = StrataGo_Get murmur k' db s"
      using ts1 wf StrataGo_Get_layers [of "db\<lparr>db_wal := w\<rparr>" murmur s1 ts] get
      by (auto simp: db_inv_def active_content_def imm_content_def)
  next
    assume "r = None"
    have "skip_ok (activeMemtable db)" using mem by (simp add: mem_ok_def)
    then obtain m where m: "SkipList_Put k v (activeMemtable db) = Some m" "skip_ok m"
      "skip_content m = alist_put k v (active_content db)"
      using memtable.put_spec [of "activeMemtable db" k v] by (auto simp: active_content_def)
    let ?db1 = "signal_flush (db\<lparr>db_wal := w, activeMemtable := m\<rparr>)"
    have "mem_ok ?db1" using mem m(2) by (simp add: mem_ok_def)
    then show "\<exists>m. SkipList_Put k v (activeMemtable db) = Some m \<and>
      db_inv murmur (signal_flush (db\<lparr>db_wal := w, activeMemtable := m\<rparr>)) s1 \<and>
      StrataGo_Get murmur k' (signal_flush (db\<lparr>db_wal := w, activeMemtable := m\<rparr>)) s1
        = (if k' = k then Some v else StrataGo_Get murmur k' db s)"
      using ts1 wf StrataGo_Get_layers [of ?db1 murmur s1 ts] get m
      by (intro exI [of _ m]) (auto simp: db_inv_def active_content_def imm_content_def layered_Get_def)
  }
qed

text \<open>\<^verbatim>\<open>Delete\<close> is \<^verbatim>\<open>Put\<close> of \<^verbatim>\<open>nil\<close>: the two bodies agree.\<close>

lemma StrataGo_Delete_Put: "StrataGo_Delete k db s = StrataGo_Put k None db s"
  by (simp add: StrataGo_Delete_def StrataGo_Put_def)

lemma StrataGo_Put_cases:
  assumes "db_inv murmur db s"
  shows "\<exists>r db' s'. StrataGo_Put k v db s = Some (r, db', s') \<and> db_inv murmur db' s' \<and>
    (\<forall>k'. StrataGo_Get murmur k' db' s' =
       (if r = None \<and> k' = k then Some v else StrataGo_Get murmur k' db s))"
proof (cases "closed db")
  case True
  with assms show ?thesis by (simp add: StrataGo_Put_def)
next
  case False
  obtain r w s1 where w: "WriteEntry k v (db_wal db) s = (r, w, s1)" by (metis prod_cases3)
  show ?thesis
  proof (cases r)
    case None
    then obtain m where "SkipList_Put k v (activeMemtable db) = Some m" using db_write(2) [OF assms False w] by blast
    with None db_write(2) [OF assms False w] w False show ?thesis by (auto simp: StrataGo_Put_def)
  next
    case (Some e)
    with db_write(1) [OF assms False w] w False show ?thesis by (auto simp: StrataGo_Put_def)
  qed
qed

text \<open>
  The engine is a key-value store: the state is the database with the file system, a lookup is what
  \<^verbatim>\<open>Get\<close> returns.
\<close>

definition engine_write :: "bytes \<Rightarrow> slice \<Rightarrow> StrataGo \<times> fs \<Rightarrow> (error option \<times> StrataGo \<times> fs) option" where
  "engine_write k v st = StrataGo_Put k v (fst st) (snd st)"

definition engine_ok :: "(bytes \<Rightarrow> u32) \<Rightarrow> StrataGo \<times> fs \<Rightarrow> bool" where
  "engine_ok murmur st = db_inv murmur (fst st) (snd st)"

definition engine_lookup :: "(bytes \<Rightarrow> u32) \<Rightarrow> StrataGo \<times> fs \<Rightarrow> bytes \<Rightarrow> slice" where
  "engine_lookup murmur st k = the (StrataGo_Get murmur k (fst st) (snd st))"

lemmas engine_kv_defs = engine_write_def engine_ok_def engine_lookup_def

lemma engine_lookup_Get:
  assumes "db_inv murmur db s"
  shows "StrataGo_Get murmur k db s = Some (engine_lookup murmur (db, s) k)"
proof -
  obtain ts where "db_tables murmur s db ts" "mem_ok db" using assms by (auto simp: db_inv_def)
  from StrataGo_Get_layers [OF this(2,1)] show ?thesis by (simp add: engine_lookup_def)
qed

interpretation engine_kv: kv_store "engine_ok murmur" engine_write "engine_lookup murmur"
  for murmur
proof
  fix st :: "StrataGo \<times> fs" and k v
  assume inv: "engine_ok murmur st"
  then obtain r db' s' where p: "engine_write k v st = Some (r, db', s')" "engine_ok murmur (db', s')"
    "\<And>k'. engine_lookup murmur (db', s') k' = (if r = None \<and> k' = k then v else engine_lookup murmur st k')"
    using StrataGo_Put_cases [of murmur "fst st" "snd st" k v] by (auto simp: engine_kv_defs)
  show "\<exists>r st'. engine_write k v st = Some (r, st')" using p(1) by blast
  show "engine_ok murmur st'" if "engine_write k v st = Some (r', st')" for r' st'
    using p(1,2) that by simp
  show "engine_lookup murmur st' = (engine_lookup murmur st)(k := v)"
    if "engine_write k v st = Some (None, st')" for st'
    using p(1,3) that by (auto simp: fun_eq_iff)
  show "engine_lookup murmur st' = engine_lookup murmur st"
    if "engine_write k v st = Some (Some e, st')" for st' e
    using p(1,3) that by (auto simp: fun_eq_iff)
qed

text \<open>
  \<^verbatim>\<open>Put\<close>, under every fault schedule. It returns; the invariant is kept; a closed database
  refuses it and nothing changes; an error leaves every lookup as it was; without an error the key
  has the new value and every other lookup is as before.
\<close>

lemma engine_put:
  assumes "db_inv murmur db s"
  shows "\<exists>r db' s'. StrataGo_Put k v db s = Some (r, db', s') \<and> db_inv murmur db' s' \<and>
    (closed db \<longrightarrow> r = Some err_closed \<and> db' = db \<and> s' = s) \<and>
    (\<forall>k'. StrataGo_Get murmur k' db' s' =
       (if r = None \<and> k' = k then Some v else StrataGo_Get murmur k' db s))"
  using StrataGo_Put_cases [OF assms, of k v] by (auto simp: StrataGo_Put_def)

text \<open>
  \<^verbatim>\<open>Delete\<close>, under every fault schedule: as \<^verbatim>\<open>Put\<close>, but after a success the key is
  not found.
\<close>

lemma engine_delete:
  assumes "db_inv murmur db s"
  shows "\<exists>r db' s'. StrataGo_Delete k db s = Some (r, db', s') \<and> db_inv murmur db' s' \<and>
    (closed db \<longrightarrow> r = Some err_closed \<and> db' = db \<and> s' = s) \<and>
    (\<forall>k'. StrataGo_Get murmur k' db' s' =
       (if r = None \<and> k' = k then Some None else StrataGo_Get murmur k' db s))"
  using StrataGo_Put_cases [OF assms, of k None] by (auto simp: StrataGo_Delete_Put StrataGo_Put_def)

end
