(* ===== verification/Flushing.thy ===== *)
theory Flushing
  imports Engine
begin

text \<open>
  Correctness of \<^verbatim>\<open>Flush\<close> (\<^verbatim>\<open>src/engine/flush.go\<close>) and of \<^verbatim>\<open>ScanAll\<close>
  (\<^verbatim>\<open>src/engine/stratago.go\<close>) on a file system where nothing fails.
\<close>

section \<open>The phases of a flush\<close>

definition sst_path :: "string \<Rightarrow> int \<Rightarrow> string" where
  "sst_path d ts = filepath_Join d (sst_name ts)"

lemma sst_path_names [simp]:
  "sst_path d ts \<noteq> wal_name d" "sst_path d ts \<noteq> flushing_name d"
  "tmp_name (sst_path d ts) now \<noteq> wal_name d" "tmp_name (sst_path d ts) now \<noteq> flushing_name d"
  "tmp_name (sst_path d ts) now \<noteq> sst_path d ts"
  "wal_name d \<noteq> sst_path d ts" "flushing_name d \<noteq> sst_path d ts"
  "wal_name d \<noteq> tmp_name (sst_path d ts) now" "flushing_name d \<noteq> tmp_name (sst_path d ts) now"
  "wal_name d \<noteq> flushing_name d" "flushing_name d \<noteq> wal_name d"
  by (simp_all add: sst_path_def sst_name_def tmp_name_def filepath_Join_def)

lemma os_Remove_quiet:
  "quiet s \<Longrightarrow> snd (os_Remove name s) = s\<lparr>fs_dir := AList.delete name (fs_dir s)\<rparr>"
proof -
  assume "quiet s"
  moreover have "AList.delete name (fs_dir s) = fs_dir s" if "map_of (fs_dir s) name = None"
    using that by (simp add: AList.delete_id map_of_eq_None_iff)
  ultimately show ?thesis by (auto simp: os_Remove_def split: option.splits)
qed

text \<open>The file system after a successful unlocked phase.\<close>

definition flushed_fs :: "(bytes \<Rightarrow> u32) \<Rightarrow> string \<Rightarrow> int \<Rightarrow> int \<Rightarrow> (bytes \<times> bytes) list \<Rightarrow> fs \<Rightarrow> fs" where
  "flushed_fs murmur d now1 now2 es s =
     (let s1 = new_table (sst_path d now1) now2 (sst_image murmur es) s
      in s1\<lparr>fs_dir := AList.delete (flushing_name d) (fs_dir s1)\<rparr>)"

lemma flushed_fs_simps [simp]:
  "fs_data (flushed_fs murmur d now1 now2 es s) = fs_data s @ [sst_image murmur es]"
  "fs_faults (flushed_fs murmur d now1 now2 es s) = fs_faults s"
  by (simp_all add: flushed_fs_def Let_def)

lemma flushed_fs_dir:
  assumes "map_of (fs_dir s) (tmp_name (sst_path d now1) now2) = None"
  shows "map_of (fs_dir (flushed_fs murmur d now1 now2 es s)) =
    (map_of (fs_dir s))(sst_path d now1 \<mapsto> length (fs_data s), flushing_name d := None)"
  using new_table_dir [OF assms] by (auto simp: flushed_fs_def Let_def AList.delete_conv' fun_eq_iff)

lemma Flush_write_quiet:
  assumes q: "quiet s" and m: "immutableMemtable db = Some m" "skip_ok m"
    and ok: "table_ok murmur (map plain (skip_content m))"
    and fresh: "map_of (fs_dir s) (tmp_name (sst_path (dataDir db) now1) now2) = None"
  defines "s' \<equiv> flushed_fs murmur (dataDir db) now1 now2 (map plain (skip_content m)) s"
  shows "\<exists>r. Flush_write murmur now1 now2 db s =
      Some (None, db\<lparr>sstReaders := sstReaders db @ [r], immutableMemtable := None\<rparr>, s') \<and>
    reads_table murmur s' r (map plain (skip_content m)) \<and>
    r_path r = sst_path (dataDir db) now1 \<and> r_file r = length (fs_data s)"
proof -
  let ?d = "dataDir db" and ?es = "map plain (skip_content m)"
  let ?p = "sst_path (dataDir db) now1"
  let ?s1 = "new_table ?p now2 (sst_image murmur ?es) s"
  have n: "length (skip_content m) \<le> max_bloom_keys" using ok by (simp add: table_ok_def)
  have q1: "quiet ?s1" using q by simp
  have dir: "map_of (fs_dir ?s1) ?p = Some (length (fs_data s))" by (simp add: new_table_dir [OF fresh])
  have img: "fs_data ?s1 ! length (fs_data s) = sst_image murmur ?es" by simp
  obtain r where r: "NewReader ?p ?s1 = (Inr r, ?s1)" "reads_table murmur ?s1 r ?es"
      "r_path r = ?p" "r_file r = length (fs_data s)"
    using NewReader_image [OF q1 dir _ img ok] by auto
  have "reads_table murmur s' r ?es"
    by (rule reads_table_frame [OF r(2)]) (simp_all add: s'_def)
  moreover have "snd (os_Remove (flushing_name ?d) ?s1) = s'"
    by (simp add: os_Remove_quiet [OF q1] s'_def flushed_fs_def Let_def)
  moreover have "length ?es = Size m" using skip_ok_Size [OF m(2)] by simp
  ultimately show ?thesis
    using NewBuilder_quiet [OF q fresh] Builder_Flush_quiet [OF q m(2) n, of murmur ?p now2] r m(1)
      reads_table_ReadAll [OF r(2)]
    unfolding Flush_write_def Let_def sst_path_def [symmetric] by (auto simp: Flush_install_def)
qed

text \<open>The file system after a rotation.\<close>

definition rotated_fs :: "string \<Rightarrow> nat \<Rightarrow> fs \<Rightarrow> fs" where
  "rotated_fs d i s =
     s\<lparr>fs_data := fs_data s @ [[]],
       fs_dir := AList.update (wal_name d) (length (fs_data s))
         (AList.update (flushing_name d) i (AList.delete (wal_name d) (fs_dir s)))\<rparr>"

lemma rotated_fs_simps [simp]:
  "fs_data (rotated_fs d i s) = fs_data s @ [[]]" "fs_faults (rotated_fs d i s) = fs_faults s"
  "map_of (fs_dir (rotated_fs d i s)) =
     (map_of (fs_dir s))(wal_name d \<mapsto> length (fs_data s), flushing_name d \<mapsto> i)"
  by (auto simp: rotated_fs_def AList.update_conv' AList.delete_conv' fun_eq_iff)

lemma Flush_rotate_quiet:
  assumes "quiet s" "immutableMemtable db = None" "Size (activeMemtable db) \<noteq> 0" "wal_open (db_wal db)"
    and "map_of (fs_dir s) (wal_name (dataDir db)) = Some i"
  shows "Flush_rotate rnd db s =
    (None, db\<lparr>immutableMemtable := Some (activeMemtable db), activeMemtable := NewSkipList rnd,
      db_wal := \<lparr>wal_file = length (fs_data s), wal_open = True, wal_path = wal_name (dataDir db),
                 sequenceNumber = 0\<rparr>\<rparr>, rotated_fs (dataDir db) i s)"
  using assms
  by (simp add: Flush_rotate_def WAL_Close_def file_Close_quiet os_Rename_def NewWAL_def
      os_OpenFile_append_def AList.update_conv' AList.delete_conv' new_inode_def Let_def rotated_fs_def)

section \<open>A whole flush\<close>

text \<open>The memtable a flush writes out.\<close>

definition to_flush :: "StrataGo \<Rightarrow> SkipList" where
  "to_flush db = (case immutableMemtable db of None \<Rightarrow> activeMemtable db | Some m \<Rightarrow> m)"

text \<open>
  The keys whose lookup a table cannot change: those that are not ghosts of it, and not bound to
  the empty value, which the table does not tell from a tombstone.
\<close>

definition settled :: "(bytes \<Rightarrow> u32) \<Rightarrow> (bytes \<times> slice) list \<Rightarrow> bytes \<Rightarrow> bool" where
  "settled murmur c k \<longleftrightarrow>
     (case map_of c k of None \<Rightarrow> ghost murmur (map plain c) k = None | Some v \<Rightarrow> v \<noteq> Some [])"

lemma flush_layers:
  "settled murmur c k \<Longrightarrow>
    layered_Get murmur k [a, []] (ts @ [map plain c]) = layered_Get murmur k [a, c] ts"
  by (cases "map_of c k"; cases "the (map_of c k)")
    (auto simp: settled_def layered_Get_def map_of_plain value_of_def split: option.splits)

definition fresh_tmp :: "int \<Rightarrow> int \<Rightarrow> StrataGo \<Rightarrow> fs \<Rightarrow> bool" where
  "fresh_tmp now1 now2 db s \<longleftrightarrow> map_of (fs_dir s) (tmp_name (sst_path (dataDir db) now1) now2) = None"

text \<open>The log a running database appends to is the file called \<^verbatim>\<open>wal.log\<close>.\<close>

definition wal_live :: "StrataGo \<Rightarrow> fs \<Rightarrow> bool" where
  "wal_live db s \<longleftrightarrow> wal_open (db_wal db) \<and>
     map_of (fs_dir s) (wal_name (dataDir db)) = Some (wal_file (db_wal db))"

definition after_flush :: "(nat \<Rightarrow> nat) \<Rightarrow> Reader \<Rightarrow> StrataGo \<Rightarrow> fs \<Rightarrow> StrataGo" where
  "after_flush rnd r db s =
     db\<lparr>activeMemtable := (if immutableMemtable db = None then NewSkipList rnd else activeMemtable db),
        db_wal := (if immutableMemtable db = None
                   then \<lparr>wal_file = length (fs_data s), wal_open = True,
                         wal_path = wal_name (dataDir db), sequenceNumber = 0\<rparr>
                   else db_wal db),
        sstReaders := sstReaders db @ [r], immutableMemtable := None\<rparr>"

definition before_write :: "StrataGo \<Rightarrow> fs \<Rightarrow> fs" where
  "before_write db s =
     (if immutableMemtable db = None then rotated_fs (dataDir db) (wal_file (db_wal db)) s else s)"

lemma Flush_quiet:
  assumes q: "quiet s" and inv: "mem_ok db" and live: "wal_live db s" and fresh: "fresh_tmp now1 now2 db s"
    and work: "Size (activeMemtable db) \<noteq> 0 \<or> immutableMemtable db \<noteq> None"
    and ok: "table_ok murmur (map plain (skip_content (to_flush db)))"
  defines "s' \<equiv> flushed_fs murmur (dataDir db) now1 now2 (map plain (skip_content (to_flush db))) (before_write db s)"
  shows "\<exists>r. Flush murmur rnd now1 now2 db s = Some (None, after_flush rnd r db s, s') \<and>
    reads_table murmur s' r (map plain (skip_content (to_flush db))) \<and>
    r_path r = sst_path (dataDir db) now1 \<and> r_file r = length (fs_data (before_write db s))"
proof (cases "immutableMemtable db")
  case None
  let ?db1 = "db\<lparr>immutableMemtable := Some (activeMemtable db), activeMemtable := NewSkipList rnd,
      db_wal := \<lparr>wal_file = length (fs_data s), wal_open = True, wal_path = wal_name (dataDir db),
                 sequenceNumber = 0\<rparr>\<rparr>"
  let ?s1 = "rotated_fs (dataDir db) (wal_file (db_wal db)) s"
  have rot: "Flush_rotate rnd db s = (None, ?db1, ?s1)"
    using Flush_rotate_quiet [OF q None] work live None by (simp add: wal_live_def)
  have "\<exists>r. Flush_write murmur now1 now2 ?db1 ?s1 =
      Some (None, ?db1\<lparr>sstReaders := sstReaders ?db1 @ [r], immutableMemtable := None\<rparr>,
        flushed_fs murmur (dataDir ?db1) now1 now2 (map plain (skip_content (activeMemtable db))) ?s1) \<and>
    reads_table murmur (flushed_fs murmur (dataDir ?db1) now1 now2 (map plain (skip_content (activeMemtable db))) ?s1)
      r (map plain (skip_content (activeMemtable db))) \<and>
    r_path r = sst_path (dataDir ?db1) now1 \<and> r_file r = length (fs_data ?s1)"
    by (rule Flush_write_quiet) (use q inv ok fresh None in \<open>simp_all add: mem_ok_def to_flush_def fresh_tmp_def\<close>)
  with rot None show ?thesis
    by (auto simp: Flush_def s'_def before_write_def to_flush_def after_flush_def)
next
  case (Some m)
  then have rot: "Flush_rotate rnd db s = (None, db, s)" by (simp add: Flush_rotate_def)
  have "\<exists>r. Flush_write murmur now1 now2 db s =
      Some (None, db\<lparr>sstReaders := sstReaders db @ [r], immutableMemtable := None\<rparr>,
        flushed_fs murmur (dataDir db) now1 now2 (map plain (skip_content m)) s) \<and>
    reads_table murmur (flushed_fs murmur (dataDir db) now1 now2 (map plain (skip_content m)) s)
      r (map plain (skip_content m)) \<and>
    r_path r = sst_path (dataDir db) now1 \<and> r_file r = length (fs_data s)"
    by (rule Flush_write_quiet) (use q inv ok fresh Some in \<open>simp_all add: mem_ok_def to_flush_def fresh_tmp_def\<close>)
  with rot Some show ?thesis
    by (auto simp: Flush_def s'_def before_write_def to_flush_def after_flush_def)
qed

lemma before_write_data:
  "length (fs_data s) \<le> length (fs_data (before_write db s))"
  "i < length (fs_data s) \<Longrightarrow> fs_data (before_write db s) ! i = fs_data s ! i"
  by (simp_all add: before_write_def nth_append)

lemma flush_Get_layers:
  assumes inv: "mem_ok db" "db_tables murmur s db ts"
    and r: "reads_table murmur s' r (map plain (skip_content (to_flush db)))"
    and s': "list_all2 (reads_table murmur s') (sstReaders db) ts"
  shows "\<exists>a. StrataGo_Get murmur k (after_flush rnd r db s) s' =
      Some (layered_Get murmur k [a, []] (ts @ [map plain (skip_content (to_flush db))])) \<and>
    StrataGo_Get murmur k db s = Some (layered_Get murmur k [a, skip_content (to_flush db)] ts)"
proof -
  let ?db' = "after_flush rnd r db s" and ?c = "skip_content (to_flush db)"
  have "mem_ok ?db'" using inv(1) by (auto simp: mem_ok_def after_flush_def)
  moreover have "db_tables murmur s' ?db' (ts @ [map plain ?c])"
    using r s' by (simp add: after_flush_def list_all2_appendI)
  ultimately have "StrataGo_Get murmur k ?db' s' =
      Some (layered_Get murmur k [active_content ?db', imm_content ?db'] (ts @ [map plain ?c]))"
    by (rule StrataGo_Get_layers)
  moreover have "imm_content ?db' = []" by (simp add: after_flush_def imm_content_def)
  moreover have "layered_Get murmur k [active_content ?db', ?c] ts =
      layered_Get murmur k [active_content db, imm_content db] ts"
    by (auto simp: after_flush_def active_content_def imm_content_def to_flush_def layered_Get_def
        split: option.splits)
  ultimately show ?thesis using StrataGo_Get_layers [OF inv] by auto
qed

lemma flush_Get:
  assumes "mem_ok db" "db_tables murmur s db ts"
    and "reads_table murmur s' r (map plain (skip_content (to_flush db)))"
    and "list_all2 (reads_table murmur s') (sstReaders db) ts"
    and "settled murmur (skip_content (to_flush db)) k"
  shows "StrataGo_Get murmur k (after_flush rnd r db s) s' = StrataGo_Get murmur k db s"
  using flush_Get_layers [OF assms(1-4), of k rnd] flush_layers [OF assms(5)] by auto

text \<open>
  The view of a lookup in which an absent key, a deleted key and a key bound to the empty value
  are the same, as they are for \<^verbatim>\<open>ScanAll\<close>.
\<close>

definition visible :: "bytes option option \<Rightarrow> bytes option" where
  "visible r = (case r of Some (Some v) \<Rightarrow> value_of v | _ \<Rightarrow> None)"

lemma flush_visible:
  assumes "mem_ok db" "db_tables murmur s db ts"
    and "reads_table murmur s' r (map plain (skip_content (to_flush db)))"
    and "list_all2 (reads_table murmur s') (sstReaders db) ts"
    and "map_of (skip_content (to_flush db)) k = None \<longrightarrow>
      ghost murmur (map plain (skip_content (to_flush db))) k = None"
  shows "visible (StrataGo_Get murmur k (after_flush rnd r db s) s') = visible (StrataGo_Get murmur k db s)"
proof -
  have "visible (Some (layered_Get murmur k [a, []] (ts @ [map plain c]))) = visible (Some (layered_Get murmur k [a, c] ts))"
    if "map_of c k = None \<longrightarrow> ghost murmur (map plain c) k = None" for a c
    using that by (cases "map_of c k"; cases "the (map_of c k)")
      (auto simp: layered_Get_def map_of_plain value_of_def visible_def split: option.splits)
  with flush_Get_layers [OF assms(1-4), of k rnd] assms(5) show ?thesis by auto
qed

text \<open>The state after a flush, in full; \<open>s'\<close> is the file system it leaves.\<close>

lemma flush_keeps:
  assumes inv: "db_inv murmur db s" and live: "wal_live db s" and fresh: "fresh_tmp now1 now2 db s"
  defines "s' \<equiv> flushed_fs murmur (dataDir db) now1 now2 (map plain (skip_content (to_flush db))) (before_write db s)"
  assumes r: "reads_table murmur s' r (map plain (skip_content (to_flush db)))"
    "r_path r = sst_path (dataDir db) now1" "r_file r = length (fs_data (before_write db s))"
  shows "db_inv murmur (after_flush rnd r db s) s'" "wal_live (after_flush rnd r db s) s'"
    "fs_file s' (r_path r) = Some (sst_image murmur (map plain (skip_content (to_flush db))))"
    "map_of (fs_dir s') = (map_of (fs_dir s))(wal_name (dataDir db) \<mapsto> wal_file (db_wal (after_flush rnd r db s)),
       r_path r \<mapsto> r_file r, flushing_name (dataDir db) := None)"
    "db_tables murmur s db ts \<Longrightarrow> list_all2 (reads_table murmur s') (sstReaders db) ts"
proof -
  let ?es = "map plain (skip_content (to_flush db))" and ?s1 = "before_write db s"
  let ?db' = "after_flush rnd r db s"
  from inv obtain us where us: "db_tables murmur s db us" and mem: "mem_ok db"
    and wf: "wal_file (db_wal db) < length (fs_data s)" "wal_file (db_wal db) \<notin> r_file ` set (sstReaders db)"
    by (auto simp: db_inv_def)
  have files: "r_file r' < length (fs_data s)" if "r' \<in> set (sstReaders db)" for r'
    using list_all2_conv_all_nth [THEN iffD1, OF us] that by (auto simp: in_set_conv_nth reads_table_def)
  have keep: "list_all2 (reads_table murmur s') (sstReaders db) ts" if "db_tables murmur s db ts" for ts
    by (rule db_tables_frame [OF that])
      (use before_write_data [where s = s and db = db] in \<open>auto simp: nth_append s'_def\<close>)
  then show "db_tables murmur s db ts \<Longrightarrow> list_all2 (reads_table murmur s') (sstReaders db) ts" .
  have "mem_ok ?db'" using mem by (simp add: mem_ok_def after_flush_def)
  moreover have "db_tables murmur s' ?db' (us @ [?es])"
    using keep [OF us] r(1) by (simp add: after_flush_def list_all2_appendI)
  moreover have "wal_file (db_wal ?db') < length (fs_data s')"
    "wal_file (db_wal ?db') \<notin> r_file ` set (sstReaders ?db')"
    using wf files r(3) by (auto simp: after_flush_def before_write_def s'_def dest!: files)
  ultimately show "db_inv murmur ?db' s'" unfolding db_inv_def by blast
  have "map_of (fs_dir ?s1) (tmp_name (sst_path (dataDir db) now1) now2) = None"
    using fresh by (simp add: before_write_def fresh_tmp_def)
  note dir = flushed_fs_dir [OF this, of murmur ?es]
  show d: "map_of (fs_dir s') = (map_of (fs_dir s))(wal_name (dataDir db) \<mapsto> wal_file (db_wal ?db'),
       r_path r \<mapsto> r_file r, flushing_name (dataDir db) := None)"
    using live unfolding s'_def dir
    by (auto simp: wal_live_def r(2,3) after_flush_def before_write_def fun_eq_iff)
  show "wal_live ?db' s'"
    using live r(2) by (auto simp: wal_live_def d after_flush_def)
  show "fs_file s' (r_path r) = Some (sst_image murmur ?es)"
    unfolding fs_file_def s'_def dir by (simp add: r(2))
qed

lemma Flush_spec:
  assumes "db_inv murmur db s" "quiet s" "wal_live db s" "fresh_tmp now1 now2 db s"
    and "Size (activeMemtable db) \<noteq> 0 \<or> immutableMemtable db \<noteq> None"
    and "table_ok murmur (map plain (skip_content (to_flush db)))"
  shows "\<exists>r db' s'. Flush murmur rnd now1 now2 db s = Some (None, db', s') \<and> db_inv murmur db' s' \<and>
    wal_live db' s' \<and> immutableMemtable db' = None \<and>
    active_content db' = (if immutableMemtable db = None then [] else active_content db) \<and>
    sstReaders db' = sstReaders db @ [r] \<and> r_path r = sst_path (dataDir db) now1 \<and>
    fs_file s' (r_path r) = Some (sst_image murmur (map plain (skip_content (to_flush db)))) \<and>
    fs_file s' (flushing_name (dataDir db)) = None \<and>
    (\<forall>k. settled murmur (skip_content (to_flush db)) k \<longrightarrow>
       StrataGo_Get murmur k db' s' = StrataGo_Get murmur k db s)"
proof -
  from assms(1) obtain ts where ts: "db_tables murmur s db ts" and mem: "mem_ok db" by (auto simp: db_inv_def)
  obtain r where r: "Flush murmur rnd now1 now2 db s = Some (None, after_flush rnd r db s,
      flushed_fs murmur (dataDir db) now1 now2 (map plain (skip_content (to_flush db))) (before_write db s))"
    "reads_table murmur (flushed_fs murmur (dataDir db) now1 now2 (map plain (skip_content (to_flush db)))
      (before_write db s)) r (map plain (skip_content (to_flush db)))"
    "r_path r = sst_path (dataDir db) now1" "r_file r = length (fs_data (before_write db s))"
    using Flush_quiet [OF assms(2) mem assms(3,4,5,6)] by blast
  note k = flush_keeps [OF assms(1,3,4) r(2-4)]
  note get = flush_Get [OF mem ts r(2) k(5) [OF ts], where rnd = rnd]
  have "fs_file (flushed_fs murmur (dataDir db) now1 now2 (map plain (skip_content (to_flush db)))
      (before_write db s)) (flushing_name (dataDir db)) = None"
    by (simp add: fs_file_def k(4) [where rnd = rnd])
  with r(1,3) k(1,2) [where rnd = rnd] k(3) get show ?thesis
    by (intro exI [of _ r] exI conjI allI impI) (assumption | simp add: after_flush_def active_content_def)+
qed

text \<open>
  \<^verbatim>\<open>Flush\<close>, when no system call fails, on a database with something to flush. It returns
  without an error and keeps the invariant; the memtable it writes out is gone from memory and is
  a table under the new name, the last in the list of readers; the abandoned-log marker is
  removed; and every lookup is as before, for all keys but ghosts of the new table and keys bound
  to the empty value.
\<close>

lemma engine_flush:
  assumes "db_inv murmur db s" "quiet s" "wal_live db s" "fresh_tmp now1 now2 db s"
    and "Size (activeMemtable db) \<noteq> 0 \<or> immutableMemtable db \<noteq> None"
    and "table_ok murmur (map plain (skip_content (to_flush db)))"
  shows "\<exists>r db' s'. Flush murmur rnd now1 now2 db s = Some (None, db', s') \<and> db_inv murmur db' s' \<and>
    wal_live db' s' \<and> immutableMemtable db' = None \<and>
    active_content db' = (if immutableMemtable db = None then [] else active_content db) \<and>
    sstReaders db' = sstReaders db @ [r] \<and> r_path r = sst_path (dataDir db) now1 \<and>
    fs_file s' (r_path r) = Some (sst_image murmur (map plain (skip_content (to_flush db)))) \<and>
    fs_file s' (flushing_name (dataDir db)) = None \<and>
    (\<forall>k. settled murmur (skip_content (to_flush db)) k \<longrightarrow>
       StrataGo_Get murmur k db' s' = StrataGo_Get murmur k db s)"
  by (rule Flush_spec [OF assms])

section \<open>ScanAll\<close>

lemma map_of_filter_distinct:
  "distinct (map fst es) \<Longrightarrow>
    map_of (filter (\<lambda>e. P (snd e)) es) k = (case map_of es k of Some v \<Rightarrow> if P v then Some v else None | None \<Rightarrow> None)"
proof (induction es)
  case (Cons e es)
  then show ?case by (cases e) (auto simp: map_of_eq_None_iff image_iff split: option.splits)
qed simp

text \<open>Every reader's name still leads to the file it has open.\<close>

definition names_live :: "StrataGo \<Rightarrow> fs \<Rightarrow> bool" where
  "names_live db s \<longleftrightarrow> list_all (\<lambda>r. map_of (fs_dir s) (r_path r) = Some (r_file r)) (sstReaders db)"

definition no_ghosts :: "(bytes \<Rightarrow> u32) \<Rightarrow> (bytes \<times> bytes) list list \<Rightarrow> bytes \<Rightarrow> bool" where
  "no_ghosts murmur ts k \<longleftrightarrow> list_all (\<lambda>t. map_of t k = None \<longrightarrow> ghost murmur t k = None) ts"

lemma tables_Get_first:
  "no_ghosts murmur ts k \<Longrightarrow> tables_Get murmur k ts = Option.bind (first_of ts k) value_of"
  by (induction ts) (auto simp: no_ghosts_def split: option.splits)

lemma first_of_append:
  "first_of (ts @ us) k = (case first_of ts k of Some v \<Rightarrow> Some v | None \<Rightarrow> first_of us k)"
  by (induction ts) (auto split: option.splits)

lemma map_of_map_Some: "map_of (map (apsnd Some) es) k = map_option Some (map_of es k)"
  by (induction es) auto

lemma scan_readers_quiet:
  "quiet s \<Longrightarrow> list_all2 (reads_table murmur s) rs ts \<Longrightarrow>
    list_all (\<lambda>r. map_of (fs_dir s) (r_path r) = Some (r_file r)) rs \<Longrightarrow> distinct (map fst state) \<Longrightarrow>
    \<exists>state'. scan_readers rs state s = (state', s) \<and> distinct (map fst state') \<and>
      (\<forall>k. map_of state' k = (case first_of (rev ts) k of Some v \<Rightarrow> Some (Some v) | None \<Rightarrow> map_of state k))"
proof (induction rs arbitrary: ts state)
  case Nil
  then show ?case by simp
next
  case (Cons r rs)
  then obtain t us where ts: "ts = t # us" "reads_table murmur s r t" "list_all2 (reads_table murmur s) rs us"
    by (auto simp: list_all2_Cons1)
  then have t: "fs_data s ! r_file r = sst_image murmur t" "table_ok murmur t" by (simp_all add: reads_table_def)
  then have srt: "ksorted t" by (simp add: table_ok_def)
  obtain it where it: "Reader_NewIterator r s = (Inr it, s)" "delivers it t"
    using Reader_NewIterator_image [OF Cons.prems(1) _ t, of r] Cons.prems(3) by auto
  let ?st = "map_puts (map (apsnd Some) t) state"
  have "map_of ?st k = (case map_of t k of Some v \<Rightarrow> Some (Some v) | None \<Rightarrow> map_of state k)" for k
    using map_of_rev_ksorted [OF srt]
    by (auto simp: map_of_map_puts map_add_def rev_map map_of_map_Some split: option.splits)
  note st = this
  obtain state' where st': "scan_readers rs ?st s = (state', s)" "distinct (map fst state')"
    "\<forall>k. map_of state' k = (case first_of (rev us) k of Some v \<Rightarrow> Some (Some v) | None \<Rightarrow> map_of ?st k)"
    using Cons.IH [OF Cons.prems(1) ts(3), of ?st] Cons.prems(3) distinct_map_puts [OF Cons.prems(4)] by auto
  have "map_of state' k = (case first_of (rev ts) k of Some v \<Rightarrow> Some (Some v) | None \<Rightarrow> map_of state k)" for k
    using spec [OF st'(3), of k] st [of k]
    by (cases "first_of (rev us) k"; cases "map_of t k") (simp_all add: ts(1) first_of_append)
  with it st' Cons.prems(1) show ?case by (auto simp: delivers_def)
qed

lemma ScanAll_quiet:
  assumes "db_inv murmur db s" "db_tables murmur s db ts" "quiet s" "names_live db s"
  shows "\<exists>m. ScanAll db s = Some (if closed db then Inl err_closed else Inr m, s) \<and> distinct (map fst m) \<and>
    (\<forall>k. no_ghosts murmur ts k \<longrightarrow>
       map_of m k = (case StrataGo_Get murmur k db s of
                       Some (Some v) \<Rightarrow> if v = [] then None else Some (Some v) | _ \<Rightarrow> None))"
proof -
  have mem: "mem_ok db" using assms(1) by (simp add: db_inv_def)
  obtain st where st: "scan_readers (sstReaders db) [] s = (st, s)" "distinct (map fst st)"
    "\<forall>k. map_of st k = (case first_of (rev ts) k of Some v \<Rightarrow> Some (Some v) | None \<Rightarrow> map_of [] k)"
    using scan_readers_quiet [OF assms(3,2), of "[]"] assms(4) unfolding names_live_def by auto
  have es1: "(case immutableMemtable db of None \<Rightarrow> Some [] | Some m \<Rightarrow> SkipList_entries m) = Some (imm_content db)"
    and s1: "ksorted (imm_content db)"
    using mem by (auto simp: mem_ok_def imm_content_def SkipList_entries_ok memtable.content_sorted split: option.splits)
  have es2: "SkipList_entries (activeMemtable db) = Some (active_content db)" and s2: "ksorted (active_content db)"
    using mem by (simp_all add: mem_ok_def active_content_def SkipList_entries_ok memtable.content_sorted)
  let ?all = "map_puts (active_content db) (map_puts (imm_content db) st)"
  let ?m = "filter (\<lambda>e. length (bytes_of (snd e)) > 0) ?all"
  have d: "distinct (map fst ?all)" by (intro distinct_map_puts st(2))
  have get: "StrataGo_Get murmur k db s = Some (layered_Get murmur k [active_content db, imm_content db] ts)" for k
    by (rule StrataGo_Get_layers [OF mem assms(2)])
  have "map_of ?m k = (case StrataGo_Get murmur k db s of
      Some (Some v) \<Rightarrow> if v = [] then None else Some (Some v) | _ \<Rightarrow> None)" if "no_ghosts murmur ts k" for k
  proof -
    have "no_ghosts murmur (rev ts) k" using that by (simp add: no_ghosts_def)
    then have "layered_Get murmur k [active_content db, imm_content db] ts =
        (case map_of ?all k of None \<Rightarrow> None | Some v \<Rightarrow> if first_of [active_content db, imm_content db] k = None
           then value_of (bytes_of v) else v)"
      using map_of_rev_ksorted [OF s1] map_of_rev_ksorted [OF s2] spec [OF st(3), of k]
      by (auto simp: layered_Get_def tables_Get_first map_of_map_puts map_add_def split: option.splits)
    moreover have "map_of ?m k = (case map_of ?all k of
        Some v \<Rightarrow> if length (bytes_of v) > 0 then Some v else None | None \<Rightarrow> None)"
      by (rule map_of_filter_distinct [OF d])
    ultimately show ?thesis
      unfolding get by (cases "map_of ?all k"; cases "the (map_of ?all k)") (simp_all add: value_of_def)
  qed
  moreover have "distinct (map fst ?m)" using d by (simp add: distinct_map_filter)
  moreover have "ScanAll db s = Some (if closed db then Inl err_closed else Inr ?m, s)"
    using st(1) es1 es2 by (simp add: ScanAll_def)
  ultimately show ?thesis by blast
qed


end
