(* ===== verification/Lifecycle.thy ===== *)
theory Lifecycle
  imports Flushing
begin

text \<open>
  The failure paths of \<^verbatim>\<open>Flush\<close> (\<^verbatim>\<open>src/engine/flush.go\<close>), and \<^verbatim>\<open>Close\<close> and
  \<^verbatim>\<open>Purge\<close> (\<^verbatim>\<open>src/engine/stratago.go\<close>).
\<close>

section \<open>A flush that fails\<close>

lemma WriteEntry_quiet:
  "quiet s \<Longrightarrow> wal_open w \<Longrightarrow> WriteEntry k v w s =
    (None, w\<lparr>sequenceNumber := sequenceNumber w + 1\<rparr>,
     s\<lparr>fs_data := (fs_data s)[wal_file w := fs_data s ! wal_file w
         @ enc_record (sequenceNumber w + 1, k, bytes_of v)]\<rparr>)"
  by (simp add: WriteEntry_def Let_def file_Write_quiet file_Sync_quiet enc_record_def)

lemma rewrite_entries_frame:
  "wal_file w < length (fs_data s) \<Longrightarrow> rewrite_entries es w s = (w', s') \<Longrightarrow>
    wal_file w' = wal_file w \<and> length (fs_data s') = length (fs_data s) \<and>
    (\<forall>i. i \<noteq> wal_file w \<longrightarrow> fs_data s' ! i = fs_data s ! i)"
proof (induction es arbitrary: w s)
  case (Cons e es)
  obtain k v where e: "e = (k, v)" by force
  obtain r w1 s1 where w1: "WriteEntry k v w s = (r, w1, s1)" by (metis prod_cases3)
  from WriteEntry_frame [OF Cons.prems(1) w1] Cons.IH [of w1 s1] Cons.prems w1 show ?case by (simp add: e)
qed simp

text \<open>
  The records a rewrite appends, in the order of the entries, when nothing fails.
\<close>

fun number_from :: "u64 \<Rightarrow> (bytes \<times> slice) list \<Rightarrow> (u64 \<times> bytes \<times> bytes) list" where
  "number_from n [] = []"
| "number_from n ((k, v) # es) = (n + 1, k, bytes_of v) # number_from (n + 1) es"

lemma rewrite_entries_quiet:
  "quiet s \<Longrightarrow> wal_open w \<Longrightarrow> wal_file w < length (fs_data s) \<Longrightarrow>
    rewrite_entries es w s =
      (w\<lparr>sequenceNumber := sequenceNumber w + of_nat (length es)\<rparr>,
       s\<lparr>fs_data := (fs_data s)[wal_file w := fs_data s ! wal_file w
           @ concat (map enc_record (number_from (sequenceNumber w) es))]\<rparr>)"
proof (induction es arbitrary: w s)
  case (Cons e es)
  then show ?case by (cases e) (simp add: WriteEntry_quiet ac_simps)
qed simp

lemma rec_entry_number_from:
  "map rec_entry (number_from n es) = map (\<lambda>e. (fst e, Some (bytes_of (snd e)))) es"
  by (induction n es rule: number_from.induct) auto

text \<open>
  C34: what \<^verbatim>\<open>recoverFromFlushFailure\<close> does, under every fault schedule. It always reports an
  error and keeps the invariant, but the memtable being flushed is dropped: from then on a lookup
  goes through the active memtable and the tables only. When nothing more fails, the dropped
  entries are appended to the log, behind any newer write of the same key.
\<close>

theorem flush_failure_drops_memtable:
  assumes "db_inv murmur db s" "db_tables murmur s db ts" "immutableMemtable db = Some m"
  shows "\<exists>db' s'. recoverFromFlushFailure e db s =
      Some (Some (Wrap ''flush failed, data preserved'' e), db', s') \<and> db_inv murmur db' s' \<and>
    (\<forall>k. StrataGo_Get murmur k db' s' = Some (layered_Get murmur k [active_content db] ts)) \<and>
    (quiet s \<and> wal_open (db_wal db) \<longrightarrow>
       fs_data s' ! wal_file (db_wal db) = fs_data s ! wal_file (db_wal db)
         @ concat (map enc_record (number_from (sequenceNumber (db_wal db)) (skip_content m))))"
proof -
  from assms(1,3) have mem: "mem_ok db" and m: "skip_ok m"
    and wf: "wal_file (db_wal db) < length (fs_data s)" "wal_file (db_wal db) \<notin> r_file ` set (sstReaders db)"
    by (auto simp: db_inv_def mem_ok_def)
  obtain w s' where rw: "rewrite_entries (skip_content m) (db_wal db) s = (w, s')" by force
  note fr = rewrite_entries_frame [OF wf(1) rw]
  let ?db' = "db\<lparr>db_wal := w, immutableMemtable := None\<rparr>"
  have ts': "list_all2 (reads_table murmur s') (sstReaders db) ts"
    by (rule db_tables_frame [OF assms(2)]) (use fr wf in \<open>auto, metis imageI\<close>)
  have mem': "mem_ok ?db'" using mem by (simp add: mem_ok_def)
  have "db_inv murmur ?db' s'" using mem' ts' wf fr by (auto simp: db_inv_def)
  moreover have "StrataGo_Get murmur k ?db' s' = Some (layered_Get murmur k [active_content db] ts)" for k
    using StrataGo_Get_layers [OF mem', of murmur s' ts k] ts'
    by (simp add: active_content_def imm_content_def layered_Get_def split: option.splits)
  moreover have "fs_data s' ! wal_file (db_wal db) = fs_data s ! wal_file (db_wal db)
         @ concat (map enc_record (number_from (sequenceNumber (db_wal db)) (skip_content m)))"
    if "quiet s \<and> wal_open (db_wal db)"
    using rw rewrite_entries_quiet [of s "db_wal db"] that wf(1) by auto
  ultimately show ?thesis
    using assms(3) rw SkipList_entries_ok [OF m] by (simp add: recoverFromFlushFailure_def)
qed

text \<open>
  A rotation that fails (closing, renaming or re-creating the log) changes no lookup, but
  leaves the log closed, so that every later write to the database fails.
\<close>

lemma flush_rotation_failure:
  assumes "db_inv murmur db s" "Flush_rotate rnd db s = (Some (Some e), db', s')" "\<not> closed db"
  shows "activeMemtable db' = activeMemtable db \<and> immutableMemtable db' = immutableMemtable db \<and>
    \<not> wal_open (db_wal db') \<and> StrataGo_Get murmur k db' s' = StrataGo_Get murmur k db s \<and>
    (\<exists>db''. StrataGo_Put k v db' s' = Some (Some ErrClosed, db'', s'))"
proof -
  from assms(1) obtain ts where ts: "db_tables murmur s db ts" and mem: "mem_ok db" by (auto simp: db_inv_def)
  have same: "db' = db\<lparr>db_wal := (db_wal db)\<lparr>wal_open := False\<rparr>\<rparr> \<and> length (fs_data s) \<le> length (fs_data s')
      \<and> (\<forall>i < length (fs_data s). fs_data s' ! i = fs_data s ! i)"
    using assms(2)
    by (auto simp: Flush_rotate_def Let_def WAL_Close_def file_Close_def os_Rename_def NewWAL_def
        os_OpenFile_append_def new_inode_def nth_append
        dest!: pop_fault_same split: if_splits prod.splits fault.splits option.splits sum.splits)
  then have "list_all2 (reads_table murmur s') (sstReaders db) ts"
    by (intro db_tables_frame [OF ts]) auto
  with same mem StrataGo_Get_layers [of db' murmur s' ts k] StrataGo_Get_layers [OF mem ts, of k] assms(3)
  show ?thesis
    by (auto simp: mem_ok_def active_content_def imm_content_def StrataGo_Put_def WriteEntry_def Let_def)
qed

section \<open>Close\<close>

lemma close_readers_quiet:
  "quiet s \<Longrightarrow> close_readers rs s = (map (\<lambda>r. r\<lparr>r_open := False\<rparr>) rs, s)"
  by (induction rs) (simp_all add: Reader_Close_def file_Close_quiet)

lemma Reader_Get_closed:
  assumes "reads_table murmur s r es"
  shows "Reader_Get murmur k (r\<lparr>r_open := False\<rparr>) s' = Some None"
proof -
  have "Reader_Get murmur k r s \<noteq> None" using reads_table_Get [OF assms] by simp
  moreover have "r_filter r = Some (LoadBloomFilter (sst_filter murmur es))"
    using assms by (simp add: reads_table_def)
  ultimately show ?thesis by (auto simp: Reader_Get_def split: option.splits bool.splits)
qed

lemma readers_Get_closed:
  "list_all2 (reads_table murmur s) rs ts \<Longrightarrow>
    readers_Get murmur k (map (\<lambda>r. r\<lparr>r_open := False\<rparr>) rs) s' = Some None"
  by (induction rs ts rule: list_all2_induct) (simp_all add: Reader_Get_closed)

definition nothing_to_flush :: "StrataGo \<Rightarrow> bool" where
  "nothing_to_flush db \<longleftrightarrow> Size (activeMemtable db) = 0 \<and> immutableMemtable db = None"

text \<open>What a flush on closing leaves, with or without something to flush.\<close>

lemma Flush_on_close:
  assumes "db_inv murmur db s" "quiet s" "wal_live db s" "fresh_tmp now1 now2 db s"
    and "nothing_to_flush db \<or> table_ok murmur (map plain (skip_content (to_flush db)))"
  shows "\<exists>db1 s1 ts. Flush murmur rnd now1 now2 db s = Some (None, db1, s1) \<and> quiet s1 \<and>
    mem_ok db1 \<and> db_tables murmur s1 db1 ts \<and> immutableMemtable db1 = None \<and> wal_open (db_wal db1) \<and>
    closed db1 = closed db \<and> dataDir db1 = dataDir db \<and>
    (immutableMemtable db = None \<longrightarrow> active_content db1 = []) \<and>
    (\<not> nothing_to_flush db \<longrightarrow> fs_file s1 (sst_path (dataDir db) now1) =
       Some (sst_image murmur (map plain (skip_content (to_flush db)))))"
proof -
  from assms(1) obtain ts where ts: "db_tables murmur s db ts" and mem: "mem_ok db" by (auto simp: db_inv_def)
  show ?thesis
  proof (cases "nothing_to_flush db")
    case True
    then have "active_content db = []"
      using skip_ok_Size [of "activeMemtable db"] mem
      by (simp add: nothing_to_flush_def mem_ok_def active_content_def)
    with True mem ts assms(2,3) show ?thesis
      by (simp add: nothing_to_flush_def Flush_def Flush_rotate_def wal_live_def) blast
  next
    case False
    let ?es = "map plain (skip_content (to_flush db))"
    let ?s1 = "before_write db s"
    let ?s' = "flushed_fs murmur (dataDir db) now1 now2 ?es ?s1"
    have work: "Size (activeMemtable db) \<noteq> 0 \<or> immutableMemtable db \<noteq> None"
      using False by (auto simp: nothing_to_flush_def)
    have ok: "table_ok murmur ?es" using assms(5) False by simp
    obtain r where r: "Flush murmur rnd now1 now2 db s = Some (None, after_flush rnd r db s, ?s')"
      "reads_table murmur ?s' r ?es"
      using Flush_quiet [OF assms(2) mem assms(3,4) work ok] by blast
    have "list_all2 (reads_table murmur ?s') (sstReaders db) ts"
      by (rule db_tables_frame [OF ts]) (use before_write_data [where s = s and db = db] in \<open>auto simp: nth_append\<close>)
    then have "db_tables murmur ?s' (after_flush rnd r db s) (ts @ [?es])"
      using r(2) by (simp add: after_flush_def list_all2_appendI)
    moreover have "map_of (fs_dir ?s1) (tmp_name (sst_path (dataDir db) now1) now2) = None"
      using assms(4) by (simp add: before_write_def fresh_tmp_def)
    from flushed_fs_dir [OF this, of murmur ?es]
    have "fs_file ?s' (sst_path (dataDir db) now1) = Some (sst_image murmur ?es)" by (simp add: fs_file_def)
    moreover have "quiet ?s'" using assms(2) by (simp add: before_write_def)
    ultimately show ?thesis
      using r(1) mem assms(3)
      by (intro exI [of _ "after_flush rnd r db s"] exI [of _ ?s'] exI [of _ "ts @ [?es]"])
        (simp add: after_flush_def mem_ok_def wal_live_def active_content_def)
  qed
qed

lemma db_props_closed [simp]:
  "db_inv murmur (db\<lparr>closed := b\<rparr>) s = db_inv murmur db s" "wal_live (db\<lparr>closed := b\<rparr>) s = wal_live db s"
  "fresh_tmp now1 now2 (db\<lparr>closed := b\<rparr>) s = fresh_tmp now1 now2 db s"
  "nothing_to_flush (db\<lparr>closed := b\<rparr>) = nothing_to_flush db" "to_flush (db\<lparr>closed := b\<rparr>) = to_flush db"
  by (simp_all add: db_inv_def mem_ok_def wal_live_def fresh_tmp_def nothing_to_flush_def to_flush_def
      split: option.split)

lemma Close_quiet:
  assumes "db_inv murmur db s" "quiet s" "wal_live db s" "fresh_tmp now1 now2 db s" "\<not> closed db"
    and "nothing_to_flush db \<or> table_ok murmur (map plain (skip_content (to_flush db)))"
  shows "\<exists>db' s' ts rs. StrataGo_Close murmur rnd now1 now2 db s = Some (None, db', s') \<and> quiet s' \<and>
    closed db' \<and> \<not> wal_open (db_wal db') \<and> dataDir db' = dataDir db \<and> mem_ok db' \<and>
    sstReaders db' = map (\<lambda>r. r\<lparr>r_open := False\<rparr>) rs \<and> list_all2 (reads_table murmur s') rs ts \<and>
    immutableMemtable db' = None \<and> (immutableMemtable db = None \<longrightarrow> active_content db' = []) \<and>
    (\<not> nothing_to_flush db \<longrightarrow> fs_file s' (sst_path (dataDir db) now1) =
       Some (sst_image murmur (map plain (skip_content (to_flush db)))))"
proof -
  let ?db = "db\<lparr>closed := True\<rparr>"
  obtain db1 s1 ts where f: "Flush murmur rnd now1 now2 ?db s = Some (None, db1, s1)" "quiet s1"
    "mem_ok db1" "db_tables murmur s1 db1 ts" "immutableMemtable db1 = None" "wal_open (db_wal db1)"
    "closed db1" "dataDir db1 = dataDir db" "immutableMemtable db = None \<longrightarrow> active_content db1 = []"
    "\<not> nothing_to_flush db \<longrightarrow> fs_file s1 (sst_path (dataDir db) now1) =
       Some (sst_image murmur (map plain (skip_content (to_flush db))))"
    using Flush_on_close [of murmur ?db s now1 now2 rnd, unfolded db_props_closed, OF assms(1-4,6)]
    by (elim exE conjE) (rule that, assumption+, simp_all)
  then show ?thesis
    using assms(5)
    by (simp add: StrataGo_Close_def WAL_Close_def file_Close_quiet close_readers_quiet mem_ok_def
        active_content_def) blast
qed

text \<open>
  \<^verbatim>\<open>Close\<close>, when no system call fails. It returns without an error; what was in the
  memtable is on disk as a table; afterwards writes and scans are refused, closing again is a
  no-op, and a lookup reports every key as absent rather than an error.
\<close>

lemma engine_close:
  assumes "db_inv murmur db s" "quiet s" "wal_live db s" "fresh_tmp now1 now2 db s" "\<not> closed db"
    and "immutableMemtable db = None"
    and "nothing_to_flush db \<or> table_ok murmur (map plain (skip_content (to_flush db)))"
  shows "\<exists>db' s'. StrataGo_Close murmur rnd now1 now2 db s = Some (None, db', s') \<and>
    (\<not> nothing_to_flush db \<longrightarrow> fs_file s' (sst_path (dataDir db) now1) =
       Some (sst_image murmur (map plain (skip_content (activeMemtable db))))) \<and>
    StrataGo_Put k v db' s' = Some (Some err_closed, db', s') \<and>
    StrataGo_Delete k db' s' = Some (Some err_closed, db', s') \<and>
    ScanAll db' s' = Some (Inl err_closed, s') \<and>
    StrataGo_Close murmur rnd now1 now2 db' s' = Some (None, db', s') \<and>
    StrataGo_Get murmur k db' s' = Some None"
proof -
  obtain db' s' ts rs where c: "StrataGo_Close murmur rnd now1 now2 db s = Some (None, db', s')"
    "closed db'" "mem_ok db'" "sstReaders db' = map (\<lambda>r. r\<lparr>r_open := False\<rparr>) rs"
    "list_all2 (reads_table murmur s') rs ts" "immutableMemtable db' = None" "active_content db' = []"
    "\<not> nothing_to_flush db \<longrightarrow> fs_file s' (sst_path (dataDir db) now1) =
       Some (sst_image murmur (map plain (skip_content (to_flush db))))"
    using Close_quiet [OF assms(1-5,7), of rnd] assms(6) by auto
  have "list_all2 (reads_table murmur s') (rev rs) (rev ts)" using c(5) by (simp add: list_all2_rev)
  from readers_Get_closed [OF this] have "readers_Get murmur k (rev (sstReaders db')) s' = Some None"
    by (simp add: c(4) rev_map)
  moreover have "SkipList_Get k (activeMemtable db') = Some None"
    using c(3,7) by (simp add: mem_ok_def active_content_def memtable.get_spec)
  ultimately have "StrataGo_Get murmur k db' s' = Some None" using c(6) by (simp add: StrataGo_Get_def)
  with c(1,2,8) assms(6) show ?thesis
    by (simp add: StrataGo_Put_def StrataGo_Delete_def ScanAll_def StrataGo_Close_def to_flush_def)
qed

lemma Purge_quiet:
  assumes "db_inv murmur db s" "quiet s" "wal_live db s" "fresh_tmp now1 now2 db s" "\<not> closed db"
    and "nothing_to_flush db \<or> table_ok murmur (map plain (skip_content (to_flush db)))"
  shows "\<exists>db' s'. Purge murmur rnd rnd' now1 now2 db s = Some (None, db', s') \<and> db_inv murmur db' s' \<and>
    quiet s' \<and> wal_live db' s' \<and> \<not> closed db' \<and> nothing_to_flush db' \<and>
    active_content db' = [] \<and> sstReaders db' = [] \<and> dataDir db' = dataDir db \<and>
    (\<forall>k. StrataGo_Get murmur k db' s' = Some None) \<and>
    (\<forall>n. in_tree (dataDir db) n \<longrightarrow>
       fs_file s' n = (if n = wal_name (dataDir db) then Some [] else None))"
proof -
  obtain db1 s1 where c: "StrataGo_Close murmur rnd now1 now2 db s = Some (None, db1, s1)" "quiet s1"
    "dataDir db1 = dataDir db"
    using Close_quiet [OF assms(1-6), of rnd] by blast
  let ?d = "dataDir db"
  let ?s2 = "s1\<lparr>fs_dir := filter (\<lambda>e. \<not> in_tree ?d (fst e)) (fs_dir s1)\<rparr>"
  let ?w = "\<lparr>wal_file = length (fs_data s1), wal_open = True, wal_path = wal_name ?d, sequenceNumber = 0\<rparr>"
  let ?s3 = "snd (new_inode (wal_name ?d) ?s2)"
  have tree: "in_tree ?d (wal_name ?d)" by (simp add: in_tree_def filepath_Join_def prefix_def)
  have none: "map_of (fs_dir ?s2) n = None" if "in_tree ?d n" for n
    using that by (auto simp: map_of_eq_None_iff)
  then have "NewWAL (wal_name ?d) ?s2 = (Inr ?w, ?s3)"
    using c(2) tree by (simp add: NewWAL_def os_OpenFile_append_def new_inode_def)
  then have p: "Purge murmur rnd rnd' now1 now2 db s = Some (None,
      db1\<lparr>activeMemtable := NewSkipList rnd', immutableMemtable := None, sstReaders := [],
          db_wal := ?w, flushChan := False, closed := False\<rparr>, ?s3)"
    using c by (simp add: Purge_def os_RemoveAll_def os_MkdirAll_def)
  let ?db' = "db1\<lparr>activeMemtable := NewSkipList rnd', immutableMemtable := None, sstReaders := [],
          db_wal := ?w, flushChan := False, closed := False\<rparr>"
  have mem: "mem_ok ?db'" by (simp add: mem_ok_def)
  then have "db_inv murmur ?db' ?s3" by (auto simp: db_inv_def new_inode_def)
  moreover have "StrataGo_Get murmur k ?db' ?s3 = Some None" for k
    using StrataGo_Get_layers [OF mem, of murmur ?s3 "[]" k]
    by (simp add: layered_Get_def active_content_def imm_content_def)
  moreover have "wal_live ?db' ?s3" "nothing_to_flush ?db'"
    using c(3) by (simp_all add: wal_live_def new_inode_def AList.update_conv' nothing_to_flush_def NewSkipList_def)
  moreover have "fs_file ?s3 n = (if n = wal_name ?d then Some [] else None)" if "in_tree ?d n" for n
    using none [OF that] by (simp add: fs_file_def new_inode_def AList.update_conv')
  moreover have "quiet ?s3" using c(2) by (simp add: new_inode_def)
  ultimately show ?thesis using p c(3) by (intro exI [of _ ?db'] exI [of _ ?s3]) (simp add: active_content_def)
qed

end
