(* ===== verification/Recovery.thy ===== *)
theory Recovery
  imports Lifecycle
begin

text \<open>
  Restarting: \<^verbatim>\<open>Open\<close> (\<^verbatim>\<open>src/engine/stratago.go\<close>) on the files a database left behind.
  The invariant \<open>durable\<close> says that the files carry the whole state; it is kept by every successful
  write and by a flush, and from files in this state \<^verbatim>\<open>Open\<close> rebuilds the database.
\<close>

section \<open>Table names\<close>

lemma dec_nat_digits: "list_all is_digit (dec_nat n) \<and> dec_nat n \<noteq> []"
proof (induction n rule: dec_nat.induct)
  case (1 n)
  have "is_digit (char_of (48 + m :: nat))" if "m < 10" for m :: nat
    using that by (simp add: is_digit_def)
  with 1 show ?case by (subst dec_nat.simps, subst (2) dec_nat.simps) auto
qed

lemma dec_val_append: "dec_val (ds @ [c]) = 10 * dec_val ds + (of_char c - 48)"
  by (simp add: dec_val_def)

lemma dec_val_dec_nat: "dec_val (dec_nat n) = n"
proof (induction n rule: dec_nat.induct)
  case (1 n)
  show ?case
  proof (cases "n < 10")
    case True
    then show ?thesis by (subst dec_nat.simps) (simp add: dec_val_def)
  next
    case False
    then have "dec_val (dec_nat n) = 10 * dec_val (dec_nat (n div 10)) + (of_char (char_of (48 + n mod 10) :: char) - 48)"
      by (subst dec_nat.simps) (simp add: dec_val_append)
    with 1 [OF False] show ?thesis by simp
  qed
qed

lemma takeWhile_digits: "list_all is_digit ds \<Longrightarrow> \<not> is_digit c \<Longrightarrow> takeWhile is_digit (ds @ c # r) = ds"
  by (induction ds) auto

lemma is_digit_char:
  "is_digit c \<Longrightarrow> \<not> is_blank c \<and> c \<noteq> CHR ''-'' \<and> c \<noteq> CHR ''+''" "\<not> is_digit (CHR ''.'')" "\<not> is_blank (CHR ''-'')"
  by (auto simp: is_digit_def is_blank_def)

lemma Sscanf_ts_sst_name:
  assumes "- (2 ^ 63) \<le> t" "t < 2 ^ 63"
  shows "Sscanf_ts (sst_name t) = t"
proof -
  let ?ds = "dec_nat (nat \<bar>t\<bar>)"
  obtain c cs where c: "?ds = c # cs" "is_digit c"
    using dec_nat_digits [of "nat \<bar>t\<bar>"] by (cases ?ds) auto
  have ds: "takeWhile is_digit (?ds @ ''.sst'') = ?ds"
    using takeWhile_digits [of ?ds "CHR ''.''" "''sst''"] dec_nat_digits [of "nat \<bar>t\<bar>"] is_digit_char(2) by simp
  show ?thesis
  proof (cases "t < 0")
    case True
    then have "sst_name t = ''data_'' @ CHR ''-'' # ?ds @ ''.sst''" by (simp add: sst_name_def Sprintf_d_def)
    then show ?thesis
      using True assms ds dec_nat_digits [of "nat \<bar>t\<bar>"] is_digit_char(3)
      by (simp add: Sscanf_ts_def Let_def dec_val_dec_nat)
  next
    case False
    then have "sst_name t = ''data_'' @ ?ds @ ''.sst''" by (simp add: sst_name_def Sprintf_d_def)
    moreover have "dropWhile is_blank (?ds @ ''.sst'') = ?ds @ ''.sst''"
      "hd (?ds @ ''.sst'') = c" using c is_digit_char(1) by simp_all
    ultimately show ?thesis
      using False assms ds is_digit_char(1) [OF c(2)] dec_nat_digits [of "nat \<bar>t\<bar>"]
      by (simp add: Sscanf_ts_def Let_def dec_val_dec_nat)
  qed
qed

section \<open>Files that carry the whole state\<close>

definition disk_infos :: "string \<Rightarrow> fs \<Rightarrow> sstableInfo list" where
  "disk_infos d s = sort_key timestamp (sstable_infos d (dir_names d s))"

text \<open>What the log keeps of an entry: a tombstone comes back as an empty value.\<close>

definition logged :: "(bytes \<times> slice) list \<Rightarrow> (bytes \<times> slice) list" where
  "logged es = map (\<lambda>e. (fst e, Some (bytes_of (snd e)))) es"

lemma map_of_logged: "map_of (logged es) k = map_option (\<lambda>v. Some (bytes_of v)) (map_of es k)"
  by (induction es) (auto simp: logged_def)

definition wal_covers :: "(u64 \<times> bytes \<times> bytes) list \<Rightarrow> StrataGo \<Rightarrow> fs \<Rightarrow> bool" where
  "wal_covers rs db s \<longleftrightarrow> fs_data s ! wal_file (db_wal db) = concat (map enc_record rs) \<and>
     list_all wal_fits rs \<and> map_of (map_puts (map rec_entry rs) []) = map_of (logged (active_content db))"

definition durable :: "(bytes \<Rightarrow> u32) \<Rightarrow> StrataGo \<Rightarrow> fs \<Rightarrow> bool" where
  "durable murmur db s \<longleftrightarrow> db_inv murmur db s \<and> fs_wf s \<and> wal_live db s \<and> \<not> closed db \<and>
     immutableMemtable db = None \<and> map_of (fs_dir s) (flushing_name (dataDir db)) = None \<and>
     names_live db s \<and> map r_path (sstReaders db) = map info_path (disk_infos (dataDir db) s) \<and>
     (\<exists>rs. wal_covers rs db s)"

section \<open>Reopening\<close>

lemma NewReader_again:
  assumes "quiet s" "map_of (fs_dir s) (r_path r) = Some (r_file r)" "reads_table murmur s r es"
  shows "NewReader (r_path r) s = (Inr r, s)"
proof -
  have f: "r_file r < length (fs_data s)" "fs_data s ! r_file r = sst_image murmur es" "table_ok murmur es"
    using assms(3) by (simp_all add: reads_table_def)
  obtain r' where r': "NewReader (r_path r) s = (Inr r', s)" "reads_table murmur s r' es"
    "r_path r' = r_path r" "r_file r' = r_file r"
    using NewReader_image [OF assms(1,2) f] by blast
  have "r' = r" using r'(2-4) assms(3) by (cases r; cases r') (simp add: reads_table_def)
  with r'(1) show ?thesis by simp
qed

lemma open_tables_again:
  "quiet s \<Longrightarrow> list_all2 (reads_table murmur s) rs ts \<Longrightarrow>
    list_all (\<lambda>r. map_of (fs_dir s) (r_path r) = Some (r_file r)) rs \<Longrightarrow>
    map r_path rs = map info_path is \<Longrightarrow> open_tables is s = (rs, s)"
proof (induction rs arbitrary: ts "is")
  case (Cons r rs)
  then obtain t us i js where "ts = t # us" "reads_table murmur s r t" "list_all2 (reads_table murmur s) rs us"
    "is = i # js" "info_path i = r_path r" "map r_path rs = map info_path js"
    by (auto simp: list_all2_Cons1)
  with Cons.IH [of us js] Cons.prems NewReader_again [of s r murmur t] show ?case by simp
qed simp

lemma map_of_perm:
  assumes "mset xs = mset m" "distinct (map fst m)"
  shows "map_of (rev xs) = map_of m"
proof -
  have "distinct (map fst xs)" using assms by (metis mset_eq_imp_distinct_iff mset_map)
  moreover have "set xs = set m" using assms(1) by (metis set_mset_mset)
  ultimately show ?thesis using assms(2) by (simp add: map_of_inject_set rev_map [symmetric])
qed

text \<open>Replaying the recovered map, in whatever order, gives its content.\<close>

lemma replay_into_fresh:
  assumes "\<forall>xs. mset (ord xs) = mset xs" "distinct (map fst m)"
  shows "\<exists>mem. put_all SkipList_Put (ord m) (NewSkipList rnd) = Some mem \<and> skip_ok mem \<and>
    map_of (skip_content mem) = map_of m"
proof -
  obtain mem where "put_all SkipList_Put (ord m) (NewSkipList rnd) = Some mem" "skip_ok mem"
    "skip_content mem = fold (\<lambda>(k, v). alist_put k v) (ord m) []"
    using memtable.put_all_spec [of "NewSkipList rnd" "ord m"] by auto
  moreover have "map_of (rev (ord m)) = map_of m" by (rule map_of_perm) (use assms in auto)
  ultimately show ?thesis by (simp add: map_of_fold_alist_put)
qed

text \<open>The files of a durable database after a crash that cut the last write short.\<close>

definition torn_fs :: "StrataGo \<Rightarrow> bytes \<Rightarrow> fs \<Rightarrow> fs" where
  "torn_fs db p s =
     s\<lparr>fs_data := (fs_data s)[wal_file (db_wal db) := fs_data s ! wal_file (db_wal db) @ p], fs_faults := []\<rparr>"

lemma Open_durable:
  assumes dur: "durable murmur db s" "wal_covers rs db s" and ord: "\<forall>xs. mset (ord2 xs) = mset xs"
    and p: "read_record p = None" and len: "length (fs_data s ! wal_file (db_wal db)) < 2 ^ 32"
  defines "s0 \<equiv> s\<lparr>fs_faults := []\<rparr>"
  shows "\<exists>mem. skip_ok mem \<and> map_of (skip_content mem) = map_of (logged (active_content db)) \<and>
    Open rnd ord1 ord2 (dataDir db) (torn_fs db p s) =
      Some (Inr \<lparr>activeMemtable = mem, immutableMemtable = None,
        db_wal = \<lparr>wal_file = wal_file (db_wal db), wal_open = True, wal_path = wal_name (dataDir db),
                  sequenceNumber = fold max (map fst rs) 0\<rparr>,
        sstReaders = sstReaders db, dataDir = dataDir db, flushChan = False, closed = False\<rparr>, s0)"
proof -
  let ?i = "wal_file (db_wal db)" and ?d = "dataDir db" and ?t = "torn_fs db p s"
  let ?w = "\<lparr>wal_file = ?i, wal_open = True, wal_path = wal_name ?d, sequenceNumber = 0\<rparr>"
  from dur obtain ts where ts: "db_tables murmur s db ts" and i: "?i < length (fs_data s)"
    and names: "names_live db s" "map r_path (sstReaders db) = map info_path (disk_infos ?d s)"
    and dir: "map_of (fs_dir s) (wal_name ?d) = Some ?i" "map_of (fs_dir s) (flushing_name ?d) = None"
    by (auto simp: durable_def db_inv_def wal_live_def)
  from dur(2) have rs: "fs_data s ! ?i = concat (map enc_record rs)" "list_all wal_fits rs"
    "map_of (map_puts (map rec_entry rs) []) = map_of (logged (active_content db))"
    by (simp_all add: wal_covers_def)
  have nw: "NewWAL (wal_name ?d) ?t = (Inr ?w, ?t)"
    using dir(1) by (simp add: NewWAL_def os_OpenFile_append_def torn_fs_def)
  have fl: "recover_flushing ord1 ?d (NewSkipList rnd) ?w ?t = Some (None, NewSkipList rnd, ?w, ?t)"
    using dir(2) by (simp add: recover_flushing_def os_Stat_def torn_fs_def fs_file_def)
  have "(fs_data s)[?i := concat (map enc_record rs)] = fs_data s" by (metis rs(1) list_update_id)
  then have "?t\<lparr>fs_data := (fs_data ?t)[?i := concat (map enc_record rs)]\<rparr> = s0"
    by (simp add: torn_fs_def s0_def)
  moreover have "Recover ?w ?t = (Inr (map_puts (map rec_entry rs) []),
      ?w\<lparr>sequenceNumber := fold max (map fst rs) (sequenceNumber ?w)\<rparr>,
      ?t\<lparr>fs_data := (fs_data ?t)[wal_file ?w := concat (map enc_record rs)]\<rparr>)"
    by (rule Recover_records [of _ _ rs p]) (use i rs p len in \<open>simp_all add: torn_fs_def\<close>)
  ultimately have rec: "Recover ?w ?t = (Inr (map_puts (map rec_entry rs) []),
      ?w\<lparr>sequenceNumber := fold max (map fst rs) 0\<rparr>, s0)"
    by simp
  obtain mem where mem: "put_all SkipList_Put (ord2 (map_puts (map rec_entry rs) [])) (NewSkipList rnd) = Some mem"
    "skip_ok mem" "map_of (skip_content mem) = map_of (map_puts (map rec_entry rs) [])"
    using replay_into_fresh [OF ord distinct_map_puts [of "[]" "map rec_entry rs"]] by auto
  have "list_all2 (reads_table murmur s0) (sstReaders db) ts"
    by (rule db_tables_frame [OF ts]) (simp_all add: s0_def)
  then have ot: "open_tables (disk_infos ?d s) s0 = (sstReaders db, s0)"
    using names by (intro open_tables_again) (simp_all add: s0_def names_live_def)
  have rd: "os_ReadDir ?d s0 = (Inr (dir_names ?d s), s0)" by (simp add: os_ReadDir_def s0_def dir_names_def)
  have mk: "os_MkdirAll ?d ?t = (None, ?t)" by (simp add: os_MkdirAll_def torn_fs_def)
  show ?thesis
    using mem rs(3) by (intro exI [of _ mem]) (simp add: Open_def mk nw fl rec rd ot disk_infos_def [symmetric])
qed

lemma disk_infos_dir: "fs_dir s' = fs_dir s \<Longrightarrow> disk_infos d s' = disk_infos d s"
  by (simp add: disk_infos_def dir_names_def)

lemma Get_tombstone:
  assumes "durable murmur db s" "map_of (active_content db) k = Some None"
  shows "StrataGo_Get murmur k db s = Some None"
  using assms StrataGo_Get_layers [of db murmur s _ k] by (auto simp: durable_def db_inv_def layered_Get_def)

lemma reopened:
  fixes n :: u64
  assumes dur: "durable murmur db s" "wal_covers rs db s"
    and mem: "skip_ok mem" "map_of (skip_content mem) = map_of (logged (active_content db))"
  defines "db' \<equiv> \<lparr>activeMemtable = mem, immutableMemtable = None,
        db_wal = \<lparr>wal_file = wal_file (db_wal db), wal_open = True, wal_path = wal_name (dataDir db),
                  sequenceNumber = n\<rparr>,
        sstReaders = sstReaders db, dataDir = dataDir db, flushChan = False, closed = False\<rparr>"
    and "s0 \<equiv> s\<lparr>fs_faults := []\<rparr>"
  shows "durable murmur db' s0"
    "StrataGo_Get murmur k db' s0 =
      (if map_of (active_content db) k = Some None then Some (Some []) else StrataGo_Get murmur k db s)"
proof -
  from dur(1) obtain ts where ts: "db_tables murmur s db ts" and ok: "mem_ok db" "immutableMemtable db = None"
    by (auto simp: durable_def db_inv_def)
  have ts0: "db_tables murmur s0 db' ts"
    unfolding db'_def s0_def by simp (rule db_tables_frame [OF ts], simp_all)
  have ok': "mem_ok db'" using mem(1) by (simp add: mem_ok_def db'_def)
  have ac: "map_of (active_content db') = map_of (logged (active_content db))"
    using mem(2) by (simp add: db'_def active_content_def)
  then have "map_of (logged (active_content db')) = map_of (logged (active_content db))"
    by (simp add: fun_eq_iff map_of_logged option.map_comp comp_def)
  then have "wal_covers rs db' s0" using dur(2) by (simp add: wal_covers_def db'_def s0_def)
  moreover have "db_inv murmur db' s0"
    using dur(1) ok' ts0 by (auto simp: durable_def db_inv_def db'_def s0_def)
  ultimately show "durable murmur db' s0"
    using dur(1) disk_infos_dir [of s0 s]
    by (auto simp: durable_def wal_live_def fs_wf_def names_live_def db'_def s0_def)
  show "StrataGo_Get murmur k db' s0 =
      (if map_of (active_content db) k = Some None then Some (Some []) else StrataGo_Get murmur k db s)"
    using StrataGo_Get_layers [OF ok' ts0, of k] StrataGo_Get_layers [OF ok(1) ts, of k] ac ok(2)
    by (cases "map_of (active_content db) k"; cases "the (map_of (active_content db) k)")
      (simp_all add: layered_Get_def map_of_logged imm_content_def db'_def)
qed

text \<open>Opening the files of a durable database again, without a crash.\<close>

lemma Open_again:
  assumes "durable murmur db s" "quiet s" "\<forall>xs. mset (ord2 xs) = mset xs"
    and "length (fs_data s ! wal_file (db_wal db)) < 2 ^ 32"
  shows "\<exists>db'. Open rnd ord1 ord2 (dataDir db) s = Some (Inr db', s) \<and> durable murmur db' s \<and>
    dataDir db' = dataDir db \<and> sstReaders db' = sstReaders db \<and>
    (\<forall>k. StrataGo_Get murmur k db' s =
       (if map_of (active_content db) k = Some None then Some (Some []) else StrataGo_Get murmur k db s))"
proof -
  obtain rs where rs: "wal_covers rs db s" using assms(1) by (auto simp: durable_def)
  have s: "s\<lparr>fs_faults := []\<rparr> = s" "torn_fs db [] s = s" using assms(2) by (simp_all add: torn_fs_def)
  obtain mem where m: "skip_ok mem" "map_of (skip_content mem) = map_of (logged (active_content db))"
    "Open rnd ord1 ord2 (dataDir db) s =
      Some (Inr \<lparr>activeMemtable = mem, immutableMemtable = None,
        db_wal = \<lparr>wal_file = wal_file (db_wal db), wal_open = True, wal_path = wal_name (dataDir db),
                  sequenceNumber = fold max (map fst rs) 0\<rparr>,
        sstReaders = sstReaders db, dataDir = dataDir db, flushChan = False, closed = False\<rparr>, s)"
    using Open_durable [OF assms(1) rs assms(3) read_record_Nil assms(4), of rnd ord1] unfolding s by blast
  note r = reopened [OF assms(1) rs m(1,2), where n = "fold max (map fst rs) 0", unfolded s]
  from m(3) r show ?thesis by auto
qed

text \<open>
  C2: crash recovery of the engine. A crash loses the memory and may cut the last, not yet
  acknowledged record of the log anywhere; \<^verbatim>\<open>Open\<close> on the files then succeeds, in whatever
  order it walks the recovered map, removes the torn record, and gives a database that is durable
  again and in which every key has the value it had before the crash, except that a key deleted
  since the last flush is found with an empty value.
\<close>

theorem engine_crash_recovery:
  assumes "durable murmur db s" "\<forall>xs. mset (ord2 xs) = mset xs"
    and "wal_fits z" "strict_prefix p (enc_record z)"
    and "length (fs_data s ! wal_file (db_wal db)) < 2 ^ 32"
  shows "\<exists>db'. Open rnd ord1 ord2 (dataDir db) (torn_fs db p s) = Some (Inr db', s\<lparr>fs_faults := []\<rparr>) \<and>
    durable murmur db' (s\<lparr>fs_faults := []\<rparr>) \<and>
    (\<forall>k. StrataGo_Get murmur k db' (s\<lparr>fs_faults := []\<rparr>) =
       (if map_of (active_content db) k = Some None then Some (Some []) else StrataGo_Get murmur k db s))"
proof -
  obtain rs where rs: "wal_covers rs db s" using assms(1) by (auto simp: durable_def)
  have "read_record p = None" by (rule wal_log.dec_torn [OF assms(3,4)])
  from Open_durable [OF assms(1) rs assms(2) this assms(5), of rnd ord1] reopened [OF assms(1) rs]
  show ?thesis by blast
qed

section \<open>Every acknowledged write is durable\<close>

lemma logged_alist_put:
  "map_of (logged (alist_put k v es)) = (map_of (logged es))(k \<mapsto> Some (bytes_of v))"
  by (auto simp: fun_eq_iff map_of_logged)

lemma durable_write:
  assumes dur: "durable murmur db s" and w: "WriteEntry k v (db_wal db) s = (None, w, s1)"
    and m: "SkipList_Put k v (activeMemtable db) = Some m"
    and fits: "wal_fits (sequenceNumber (db_wal db) + 1, k, bytes_of v)"
  shows "durable murmur (signal_flush (db\<lparr>db_wal := w, activeMemtable := m\<rparr>)) s1"
proof -
  let ?db1 = "signal_flush (db\<lparr>db_wal := w, activeMemtable := m\<rparr>)"
  let ?z = "(sequenceNumber (db_wal db) + 1, k, bytes_of v)" and ?i = "wal_file (db_wal db)"
  from dur obtain rs where rs: "wal_covers rs db s" and inv: "db_inv murmur db s" and i: "?i < length (fs_data s)"
    and live: "wal_open (db_wal db)" and mem: "skip_ok (activeMemtable db)" and cl: "\<not> closed db"
    by (auto simp: durable_def wal_live_def db_inv_def mem_ok_def)
  have f: "fs_data s1 = (fs_data s)[?i := fs_data s ! ?i @ enc_record ?z]" "fs_dir s1 = fs_dir s"
    "w = (db_wal db)\<lparr>sequenceNumber := sequenceNumber (db_wal db) + 1\<rparr>"
    using WriteEntry_file [OF live i w] by (auto simp: enc_record_def)
  have "active_content ?db1 = alist_put k v (active_content db)"
    using memtable.put_content [OF mem m] by (simp add: active_content_def)
  then have "wal_covers (rs @ [?z]) ?db1 s1"
    using rs fits f i by (simp add: wal_covers_def logged_alist_put AList.update_conv')
  moreover have "db_inv murmur ?db1 s1" using db_write(2) [OF inv cl w] m by auto
  moreover have "fs_wf s1" using dur f by (simp add: durable_def fs_wf_def)
  ultimately show ?thesis
    using dur f disk_infos_dir [OF f(2)] by (auto simp: durable_def wal_live_def names_live_def)
qed


section \<open>A flush keeps the state durable\<close>

text \<open>The table names in the data directory, as a set.\<close>

definition sst_names :: "string \<Rightarrow> fs \<Rightarrow> string set" where
  "sst_names d s = {n. filepath_Join d n \<in> dom (map_of (fs_dir s)) \<and> CHR ''/'' \<notin> set n \<and> suffix ''.sst'' n}"

lemma sst_names_list:
  assumes "fs_wf s"
  shows "filter (suffix ''.sst'') (dir_names d s) = sorted_list_of_set (sst_names d s)"
proof -
  let ?in = "\<lambda>n. prefix (d @ ''/'') n \<and> CHR ''/'' \<notin> set (drop (length d + 1) n)"
  let ?l = "map (drop (length d + 1)) (filter ?in (map fst (fs_dir s)))"
  have "inj_on (drop (length d + 1)) (set (filter ?in (map fst (fs_dir s))))"
    by (rule inj_onI) (auto simp: prefix_def)
  then have "distinct ?l" using assms by (simp add: fs_wf_def distinct_map)
  moreover have "set ?l = {n. filepath_Join d n \<in> dom (map_of (fs_dir s)) \<and> CHR ''/'' \<notin> set n}"
  proof (intro equalityI subsetI)
    fix n
    assume "n \<in> {n. filepath_Join d n \<in> dom (map_of (fs_dir s)) \<and> CHR ''/'' \<notin> set n}"
    then have "filepath_Join d n \<in> set (filter ?in (map fst (fs_dir s)))"
      by (auto simp: dom_map_of_conv_image_fst filepath_Join_def)
    moreover have "drop (length d + 1) (filepath_Join d n) = n" by (simp add: filepath_Join_def)
    ultimately show "n \<in> set ?l" unfolding set_map by (intro image_eqI [where x = "filepath_Join d n"]) simp_all
  qed (force simp: dom_map_of_conv_image_fst filepath_Join_def prefix_def)
  ultimately have l: "distinct (filter (suffix ''.sst'') ?l)" "set (filter (suffix ''.sst'') ?l) = sst_names d s"
    unfolding set_filter sst_names_def by (auto simp del: set_map)
  have "sorted_list_of_set (sst_names d s) = sort (filter (suffix ''.sst'') ?l)"
    unfolding l(2) [symmetric] sorted_list_of_set_sort_remdups distinct_remdups_id [OF l(1)] by simp
  then show ?thesis by (simp only: dir_names_def filter_sort)
qed

lemma filter_insort_other: "\<not> P x \<Longrightarrow> filter P (insort x ys) = filter P ys"
  by (induction ys) auto

lemma filter_insort_only: "P x \<Longrightarrow> \<forall>y \<in> set ys. \<not> P y \<Longrightarrow> filter P (insort x ys) = [x]"
  by (induction ys) (auto simp: filter_empty_conv)

lemma sort_key_newest:
  assumes "\<forall>y \<in> set ys. g (f y) < g (f x)"
  shows "sort_key g (map f (insort x ys)) = sort_key g (map f ys) @ [f x]"
proof (rule properties_for_sort_key)
  show "mset (sort_key g (map f ys) @ [f x]) = mset (map f (insort x ys))" by simp
  show "sorted (map g (sort_key g (map f ys) @ [f x]))"
    using assms by (auto simp: sorted_append less_imp_le)
next
  fix k
  assume "k \<in> set (sort_key g (map f ys) @ [f x])"
  show "filter (\<lambda>y. g k = g y) (sort_key g (map f ys) @ [f x]) = filter (\<lambda>y. g k = g y) (map f (insort x ys))"
  proof (cases "g k = g (f x)")
    case True
    then have "\<forall>y \<in> set ys. \<not> g k = g (f y)" using assms by auto
    then show ?thesis
      using True filter_insort_only [of "\<lambda>y. g k = g (f y)" x ys]
      by (simp add: filter_map comp_def filter_empty_conv)
  next
    case False
    have "filter (\<lambda>y. g k = g y) (sort_key g (map f ys)) = filter (\<lambda>y. g k = g y) (map f ys)"
      using sort_key_stable [of g "g k" "map f ys"] by (simp add: eq_commute)
    then show ?thesis
      using False filter_insort_other [of "\<lambda>y. g k = g (f y)" x ys] by (simp add: filter_map comp_def)
  qed
qed

lemma sst_name_plain: "CHR ''/'' \<notin> set (sst_name t)" "suffix ''.sst'' (sst_name t)"
proof -
  have "CHR ''/'' \<notin> set (dec_nat n)" for n
    using dec_nat_digits [of n] by (auto simp: list_all_iff is_digit_def)
  then show "CHR ''/'' \<notin> set (sst_name t)" by (simp add: sst_name_def Sprintf_d_def)
  show "suffix ''.sst'' (sst_name t)" by (simp add: sst_name_def suffix_def)
qed

text \<open>A table named later than every table in the directory comes last.\<close>

lemma disk_infos_newest:
  assumes "fs_wf s" "fs_wf s'" "sst_names d s' = insert (sst_name t) (sst_names d s)"
    and "\<forall>i \<in> set (disk_infos d s). timestamp i < t" "- (2 ^ 63) \<le> t" "t < 2 ^ 63"
  shows "disk_infos d s' = disk_infos d s @ [\<lparr>info_path = sst_path d t, timestamp = t\<rparr>]"
proof -
  let ?f = "\<lambda>n. \<lparr>info_path = filepath_Join d n, timestamp = Sscanf_ts n\<rparr>"
  have fin: "finite (sst_names d s)"
  proof -
    have "sst_names d s \<subseteq> {n. filepath_Join d n \<in> fst ` set (fs_dir s)}"
      by (auto simp: sst_names_def dom_map_of_conv_image_fst)
    moreover have "finite {n. filepath_Join d n \<in> fst ` set (fs_dir s)}"
      using finite_vimageI [of "fst ` set (fs_dir s)" "filepath_Join d"]
      by (simp add: vimage_def inj_def filepath_Join_def)
    ultimately show ?thesis by (rule finite_subset)
  qed
  let ?l = "sorted_list_of_set (sst_names d s)"
  have ts: "Sscanf_ts (sst_name t) = t" by (rule Sscanf_ts_sst_name [OF assms(5,6)])
  have old: "disk_infos d s = sort_key timestamp (map ?f ?l)"
    by (simp add: disk_infos_def sstable_infos_def sst_names_list [OF assms(1)])
  have lt: "\<forall>n \<in> set ?l. timestamp (?f n) < timestamp (?f (sst_name t))"
    using assms(4) by (auto simp: old ts)
  then have "sst_name t \<notin> sst_names d s" using fin by auto
  then have "sorted_list_of_set (sst_names d s') = insort (sst_name t) ?l"
    using fin assms(3) by simp
  then show ?thesis
    using sort_key_newest [where g = timestamp and f = ?f, OF lt] old
    by (simp add: disk_infos_def sstable_infos_def sst_names_list [OF assms(2)] sst_path_def ts)
qed

lemma fs_wf_update:
  "fs_wf s \<Longrightarrow> i < length (fs_data s) \<Longrightarrow> fs_wf (s\<lparr>fs_dir := AList.update n i (fs_dir s)\<rparr>)"
proof -
  assume a: "fs_wf s" "i < length (fs_data s)"
  have "snd ` set (AList.update n i l) \<subseteq> insert i (snd ` set l)" for l :: "(string \<times> nat) list"
    by (induction l) auto
  from this [of "fs_dir s"] have "\<forall>j \<in> snd ` set (AList.update n i (fs_dir s)). j < length (fs_data s)"
    using a unfolding fs_wf_def by blast
  with a(1) show ?thesis by (simp add: fs_wf_def AList.distinct_update)
qed

lemma fs_wf_delete: "fs_wf s \<Longrightarrow> fs_wf (s\<lparr>fs_dir := AList.delete n (fs_dir s)\<rparr>)"
  by (auto simp: fs_wf_def AList.delete_eq distinct_map_filter)

lemma fs_wf_grow: "fs_wf s \<Longrightarrow> fs_wf (s\<lparr>fs_data := fs_data s @ [b]\<rparr>)"
  by (auto simp: fs_wf_def less_Suc_eq)

lemma fs_wf_rotated:
  assumes "fs_wf s" "i < length (fs_data s)"
  shows "fs_wf (rotated_fs d i s)"
proof -
  let ?s1 = "s\<lparr>fs_data := fs_data s @ [[]]\<rparr>"
  let ?s2 = "?s1\<lparr>fs_dir := AList.delete (wal_name d) (fs_dir ?s1)\<rparr>"
  let ?s3 = "?s2\<lparr>fs_dir := AList.update (flushing_name d) i (fs_dir ?s2)\<rparr>"
  have "fs_wf ?s3" by (intro fs_wf_update fs_wf_delete fs_wf_grow) (use assms in simp_all)
  then have "fs_wf (?s3\<lparr>fs_dir := AList.update (wal_name d) (length (fs_data s)) (fs_dir ?s3)\<rparr>)"
    by (rule fs_wf_update) simp
  then show ?thesis by (simp add: rotated_fs_def)
qed

lemma fs_wf_flushed: "fs_wf s \<Longrightarrow> fs_wf (flushed_fs murmur d now1 now2 es s)"
proof -
  assume a: "fs_wf s"
  let ?p = "sst_path d now1"
  let ?s1 = "s\<lparr>fs_data := fs_data s @ [sst_image murmur es]\<rparr>"
  let ?s2 = "?s1\<lparr>fs_dir := AList.update (tmp_name ?p now2) (length (fs_data s)) (fs_dir ?s1)\<rparr>"
  let ?s3 = "?s2\<lparr>fs_dir := AList.delete (tmp_name ?p now2) (fs_dir ?s2)\<rparr>"
  let ?s4 = "?s3\<lparr>fs_dir := AList.update ?p (length (fs_data s)) (fs_dir ?s3)\<rparr>"
  have "fs_wf ?s2" by (intro fs_wf_update fs_wf_grow a) simp
  then have "fs_wf ?s3" by (rule fs_wf_delete)
  then have "fs_wf ?s4" by (rule fs_wf_update) simp
  from fs_wf_delete [OF this, of "flushing_name d"] show ?thesis
    by (simp add: flushed_fs_def new_table_def Let_def)
qed

lemma disk_infos_set:
  assumes "fs_wf s" "i \<in> set (disk_infos d s)"
  shows "\<exists>n \<in> sst_names d s. i = \<lparr>info_path = filepath_Join d n, timestamp = Sscanf_ts n\<rparr>"
  using assms(2) unfolding disk_infos_def sstable_infos_def sst_names_list [OF assms(1)]
  by (cases "finite (sst_names d s)") auto

text \<open>Conditions under which a flush at time \<open>now1\<close> can succeed and name its table last.\<close>

definition can_flush :: "(bytes \<Rightarrow> u32) \<Rightarrow> int \<Rightarrow> int \<Rightarrow> StrataGo \<Rightarrow> fs \<Rightarrow> bool" where
  "can_flush murmur now1 now2 db s \<longleftrightarrow> quiet s \<and> fresh_tmp now1 now2 db s \<and>
     Size (activeMemtable db) \<noteq> 0 \<and> table_ok murmur (map plain (active_content db)) \<and>
     (\<forall>i \<in> set (disk_infos (dataDir db) s). timestamp i < now1) \<and> - (2 ^ 63) \<le> now1 \<and> now1 < 2 ^ 63"

text \<open>The other tables are still found under their names after a flush.\<close>

lemma flush_names:
  assumes "names_live db s" "map r_path (sstReaders db) = map info_path (disk_infos (dataDir db) s)" "fs_wf s"
    and new: "\<forall>i \<in> set (disk_infos (dataDir db) s). timestamp i < now1" "- (2 ^ 63) \<le> now1" "now1 < 2 ^ 63"
    and dir: "map_of (fs_dir s') = (map_of (fs_dir s))(wal_name (dataDir db) \<mapsto> i,
       sst_path (dataDir db) now1 \<mapsto> j, flushing_name (dataDir db) := None)"
    and r: "r \<in> set (sstReaders db)"
  shows "map_of (fs_dir s') (r_path r) = Some (r_file r)"
proof -
  let ?d = "dataDir db"
  have "r_path r \<in> info_path ` set (disk_infos ?d s)" using r assms(2) by (metis image_eqI set_map)
  then obtain n where n: "n \<in> sst_names ?d s" "r_path r = filepath_Join ?d n"
    "\<lparr>info_path = filepath_Join ?d n, timestamp = Sscanf_ts n\<rparr> \<in> set (disk_infos ?d s)"
    using disk_infos_set [OF assms(3)] by force
  have "n \<noteq> sst_name now1" using n(3) new(1) Sscanf_ts_sst_name [OF new(2,3)] by force
  moreover have "n \<noteq> ''wal.log''" "n \<noteq> ''wal.log.flushing''"
    using n(1) by (auto simp: sst_names_def suffix_to_prefix)
  moreover have "map_of (fs_dir s) (r_path r) = Some (r_file r)"
    using assms(1) r by (simp add: names_live_def list_all_iff)
  ultimately show ?thesis by (simp add: dir n(2) sst_path_def filepath_Join_def)
qed

lemma durable_flush:
  assumes dur: "durable murmur db s" and can: "can_flush murmur now1 now2 db s"
  shows "\<exists>db' s'. Flush murmur rnd now1 now2 db s = Some (None, db', s') \<and> durable murmur db' s' \<and>
    quiet s' \<and> dataDir db' = dataDir db \<and> fs_data s' ! wal_file (db_wal db') = [] \<and>
    (\<forall>k. (map_of (active_content db) k = None \<longrightarrow> ghost murmur (map plain (active_content db)) k = None) \<longrightarrow>
      visible (StrataGo_Get murmur k db' s') = visible (StrataGo_Get murmur k db s))"
proof -
  let ?d = "dataDir db"
  from dur obtain ts where ts: "db_tables murmur s db ts" and mem: "mem_ok db" and inv: "db_inv murmur db s"
    and live: "wal_live db s" and wf: "fs_wf s" and i: "wal_file (db_wal db) < length (fs_data s)"
    and imm: "immutableMemtable db = None"
    and names: "names_live db s" "map r_path (sstReaders db) = map info_path (disk_infos ?d s)"
    by (auto simp: durable_def db_inv_def)
  from can have q: "quiet s" "fresh_tmp now1 now2 db s" "table_ok murmur (map plain (active_content db))"
    "Size (activeMemtable db) \<noteq> 0" and new: "\<forall>i \<in> set (disk_infos ?d s). timestamp i < now1"
    "- (2 ^ 63) \<le> now1" "now1 < 2 ^ 63"
    by (auto simp: can_flush_def)
  have c: "skip_content (to_flush db) = active_content db" by (simp add: to_flush_def imm active_content_def)
  define s' where "s' = flushed_fs murmur ?d now1 now2 (map plain (active_content db)) (before_write db s)"
  obtain r where r: "Flush murmur rnd now1 now2 db s = Some (None, after_flush rnd r db s, s')"
    "reads_table murmur s' r (map plain (active_content db))"
    "r_path r = sst_path ?d now1" "r_file r = length (fs_data (before_write db s))"
    using Flush_quiet [OF q(1) mem live q(2), of murmur rnd] q(3,4) unfolding s'_def c by blast
  let ?db' = "after_flush rnd r db s"
  note k = flush_keeps [OF inv live q(2), unfolded c, folded s'_def, OF r(2-4)]
  have wf': "fs_wf s'" unfolding s'_def before_write_def imm
    by (intro fs_wf_flushed) (simp add: fs_wf_rotated [OF wf i])
  have dir: "map_of (fs_dir s') = (map_of (fs_dir s))(wal_name ?d \<mapsto> wal_file (db_wal ?db'),
       r_path r \<mapsto> r_file r, flushing_name ?d := None)" by (rule k(4))
  have nsst: "\<not> suffix ''.sst'' ''wal.log''" "\<not> suffix ''.sst'' ''wal.log.flushing''"
    by (simp_all add: suffix_to_prefix)
  have join: "filepath_Join ?d m = filepath_Join ?d n \<longleftrightarrow> m = n" for m n by (simp add: filepath_Join_def)
  have sn: "sst_names ?d s' = insert (sst_name now1) (sst_names ?d s)"
    using nsst sst_name_plain [of now1] unfolding sst_names_def dir r(3) sst_path_def
    by (auto simp: join)
  note infos = disk_infos_newest [OF wf wf' sn new]
  note flush_names [OF names wf new dir [unfolded r(3)]]
  then have "names_live ?db' s'" by (auto simp: names_live_def list_all_iff after_flush_def dir r(3))
  moreover have "wal_covers [] ?db' s'"
    by (simp add: wal_covers_def after_flush_def imm active_content_def logged_def s'_def before_write_def nth_append)
  moreover have "map r_path (sstReaders ?db') = map info_path (disk_infos ?d s')"
    using names(2) by (simp add: after_flush_def infos r(3))
  moreover have "map_of (fs_dir s') (flushing_name ?d) = None" by (simp add: dir)
  ultimately have "durable murmur ?db' s'"
    using dur k(1,2) wf' by (auto simp: durable_def after_flush_def)
  moreover have "quiet s'" "fs_data s' ! wal_file (db_wal ?db') = []"
    using q(1) by (simp_all add: s'_def before_write_def after_flush_def imm nth_append)
  ultimately show ?thesis
    using r(1) flush_visible [OF mem ts, of s' r] k(5) [OF ts] r(2) unfolding c
    by (intro exI [of _ ?db'] exI [of _ s']) (simp add: after_flush_def)
qed

end
