(* ===== verification/Durability.thy ===== *)
theory Durability
  imports Recovery
begin

text \<open>
  The engine as a whole refines a map: any sequence of acknowledged writes, deletions, flushes
  and crashes followed by a restart leaves each key with what the last write of it says.
\<close>

section \<open>Runs\<close>

datatype label = EPut bytes slice | EDelete bytes | EFlush | ECrash

text \<open>The specification, for one key: only writes of the key matter.\<close>

fun spec_step :: "bytes \<Rightarrow> label \<Rightarrow> bytes option \<Rightarrow> bytes option" where
  "spec_step k (EPut k' v) x = (if k' = k then value_of (bytes_of v) else x)"
| "spec_step k (EDelete k') x = (if k' = k then None else x)"
| "spec_step k EFlush x = x"
| "spec_step k ECrash x = x"

text \<open>
  The steps of the engine. Writes count when they are acknowledged, whatever faults are
  scheduled; a flush and a restart run on a file system where nothing fails; a crash may come in the
  middle of a write to the log. A flush is taken only when \<open>k\<close> is not a ghost of the table it writes.
\<close>

inductive engine_step ::
  "(bytes \<Rightarrow> u32) \<Rightarrow> bytes \<Rightarrow> label \<Rightarrow> StrataGo \<times> fs \<Rightarrow> StrataGo \<times> fs \<Rightarrow> bool" for murmur k where
  step_put: "StrataGo_Put k' v db s = Some (None, db', s') \<Longrightarrow>
    wal_fits (sequenceNumber (db_wal db) + 1, k', bytes_of v) \<Longrightarrow>
    engine_step murmur k (EPut k' v) (db, s) (db', s')"
| step_delete: "StrataGo_Delete k' db s = Some (None, db', s') \<Longrightarrow>
    wal_fits (sequenceNumber (db_wal db) + 1, k', []) \<Longrightarrow>
    engine_step murmur k (EDelete k') (db, s) (db', s')"
| step_flush: "can_flush murmur now1 now2 db s \<Longrightarrow> no_ghosts murmur [map plain (active_content db)] k \<Longrightarrow>
    Flush murmur rnd now1 now2 db s = Some (r, db', s') \<Longrightarrow>
    engine_step murmur k EFlush (db, s) (db', s')"
| step_crash: "wal_fits z \<Longrightarrow> strict_prefix p (enc_record z) \<Longrightarrow> \<forall>xs. mset (ord2 xs) = mset xs \<Longrightarrow>
    length (fs_data s ! wal_file (db_wal db)) < 2 ^ 32 \<Longrightarrow>
    Open rnd ord1 ord2 (dataDir db) (torn_fs db p s) = Some (r, s') \<Longrightarrow> r = Inr db' \<Longrightarrow>
    engine_step murmur k ECrash (db, s) (db', s')"

inductive engine_run ::
  "(bytes \<Rightarrow> u32) \<Rightarrow> bytes \<Rightarrow> label list \<Rightarrow> StrataGo \<times> fs \<Rightarrow> StrataGo \<times> fs \<Rightarrow> bool" for murmur k where
  run_nil: "engine_run murmur k [] st st"
| run_cons: "engine_step murmur k l st st' \<Longrightarrow> engine_run murmur k ls st' st'' \<Longrightarrow>
    engine_run murmur k (l # ls) st st''"

section \<open>Simulation\<close>

definition engine_abs :: "(bytes \<Rightarrow> u32) \<Rightarrow> bytes \<Rightarrow> StrataGo \<times> fs \<Rightarrow> bytes option" where
  "engine_abs murmur k st = visible (StrataGo_Get murmur k (fst st) (snd st))"

lemma write_step:
  assumes "durable murmur db s" "wal_fits (sequenceNumber (db_wal db) + 1, k', bytes_of v)"
    and "WriteEntry k' v (db_wal db) s = (None, w, s')" "SkipList_Put k' v (activeMemtable db) = Some m"
  defines "db' \<equiv> signal_flush (db\<lparr>db_wal := w, activeMemtable := m\<rparr>)"
  shows "durable murmur db' s' \<and> engine_abs murmur k (db', s') =
    (if k' = k then value_of (bytes_of v) else engine_abs murmur k (db, s))"
proof -
  have op: "\<not> closed db" and inv: "db_inv murmur db s" using assms(1) by (auto simp: durable_def)
  have "StrataGo_Get murmur k db' s' = (if k = k' then Some v else StrataGo_Get murmur k db s)"
    using db_write(2) [OF inv op assms(3), of k] assms(4) unfolding db'_def by auto
  moreover have "durable murmur db' s'"
    unfolding db'_def by (rule durable_write [OF assms(1,3,4,2)])
  ultimately show ?thesis
    by (cases v) (auto simp: engine_abs_def visible_def value_of_def)
qed

lemma engine_step_sim:
  assumes "engine_step murmur k l (db, s) (db', s')" "durable murmur db s"
  shows "durable murmur db' s' \<and> engine_abs murmur k (db', s') = spec_step k l (engine_abs murmur k (db, s))"
  using assms(1)
proof (cases rule: engine_step.cases)
  case put: (step_put k' v)
  have op: "\<not> closed db" using assms(2) by (simp add: durable_def)
  with put obtain w m where "WriteEntry k' v (db_wal db) s = (None, w, s')"
    "SkipList_Put k' v (activeMemtable db) = Some m"
    "db' = signal_flush (db\<lparr>db_wal := w, activeMemtable := m\<rparr>)"
    by (auto simp: StrataGo_Put_def split: option.splits prod.splits)
  with write_step [OF assms(2), of k' v w s' m k] put show ?thesis by simp
next
  case del: (step_delete k')
  have op: "\<not> closed db" using assms(2) by (simp add: durable_def)
  with del obtain w m where "WriteEntry k' None (db_wal db) s = (None, w, s')"
    "SkipList_Put k' None (activeMemtable db) = Some m"
    "db' = signal_flush (db\<lparr>db_wal := w, activeMemtable := m\<rparr>)"
    by (auto simp: StrataGo_Delete_def split: option.splits prod.splits)
  with write_step [OF assms(2), of k' None w s' m k] del show ?thesis by (simp add: value_of_def)
next
  case fl: (step_flush now1 now2 rnd r)
  with durable_flush [OF assms(2), of now1 now2 rnd] show ?thesis
    by (auto simp: engine_abs_def no_ghosts_def map_of_plain)
next
  case cr: (step_crash z p ord2 rnd ord1 r)
  obtain rs where rs: "wal_covers rs db s" using assms(2) by (auto simp: durable_def)
  have "read_record p = None" by (rule wal_log.dec_torn) (use cr in auto)
  from Open_durable [OF assms(2) rs _ this, of ord2 rnd ord1] cr
  obtain mem where mem: "skip_ok mem" "map_of (skip_content mem) = map_of (logged (active_content db))"
    "s' = s\<lparr>fs_faults := []\<rparr>"
    "db' = \<lparr>activeMemtable = mem, immutableMemtable = None,
        db_wal = \<lparr>wal_file = wal_file (db_wal db), wal_open = True, wal_path = wal_name (dataDir db),
                  sequenceNumber = fold max (map fst rs) 0\<rparr>,
        sstReaders = sstReaders db, dataDir = dataDir db, flushChan = False, closed = False\<rparr>"
    by auto
  note re = reopened [OF assms(2) rs mem(1,2)]
  from Get_tombstone [OF assms(2)] show ?thesis
    using re(1) re(2) [where k = k] cr
    by (auto simp: mem(3,4) engine_abs_def visible_def value_of_def)
qed


section \<open>Opening an empty directory\<close>

text \<open>An open database that has nothing in memory and only an empty log in its directory is durable.\<close>

lemma empty_durable:
  assumes "fs_wf s" "mem_ok db" "active_content db = []" "immutableMemtable db = None" "sstReaders db = []" "\<not> closed db"
    and "wal_live db s" "fs_file s (wal_name (dataDir db)) = Some []"
    and none: "\<And>n. n \<noteq> ''wal.log'' \<Longrightarrow> map_of (fs_dir s) (filepath_Join (dataDir db) n) = None"
  shows "durable murmur db s"
proof -
  let ?d = "dataDir db"
  have "n \<notin> sst_names ?d s" for n
    using none [of n] by (cases "n = ''wal.log''") (auto simp: sst_names_def suffix_to_prefix)
  then have "sst_names ?d s = {}" by blast
  then have infos: "disk_infos ?d s = []"
    by (simp add: disk_infos_def sstable_infos_def sst_names_list [OF assms(1)])
  have w: "map_of (fs_dir s) (wal_name ?d) = Some (wal_file (db_wal db))" "fs_data s ! wal_file (db_wal db) = []"
    using assms(7,8) by (auto simp: wal_live_def fs_file_def)
  then have "wal_file (db_wal db) < length (fs_data s)"
    using assms(1) by (auto simp: fs_wf_def list_all_iff dest!: map_of_SomeD)
  then have "db_inv murmur db s" using assms(2,5) by (auto simp: db_inv_def)
  moreover have "wal_covers [] db s" using w(2) assms(3) by (simp add: wal_covers_def logged_def)
  ultimately show ?thesis
    using assms infos none [of "''wal.log.flushing''"] by (auto simp: durable_def names_live_def)
qed

text \<open>
  On a file system where nothing fails and nothing is stored under the data directory, \<^verbatim>\<open>Open\<close>
  succeeds with a durable database in which no key is found.
\<close>

lemma Open_fresh:
  assumes "quiet s" "fs_wf s" "\<forall>n. in_tree d n \<longrightarrow> map_of (fs_dir s) n = None"
    and "\<forall>xs. mset (ord2 xs) = mset xs"
  shows "\<exists>db s'. Open rnd ord1 ord2 d s = Some (Inr db, s') \<and> durable murmur db s' \<and> quiet s' \<and> dataDir db = d \<and>
    (\<forall>k. StrataGo_Get murmur k db s' = Some None)"
proof -
  have tree: "in_tree d (filepath_Join d n)" for n by (simp add: in_tree_def filepath_Join_def prefix_def)
  have none: "map_of (fs_dir s) (filepath_Join d n) = None" for n using assms(3) tree by blast
  let ?s1 = "snd (new_inode (wal_name d) s)"
  let ?w = "\<lparr>wal_file = length (fs_data s), wal_open = True, wal_path = wal_name d, sequenceNumber = 0\<rparr>"
  let ?db = "\<lparr>activeMemtable = NewSkipList rnd, immutableMemtable = None, db_wal = ?w, sstReaders = [],
    dataDir = d, flushChan = False, closed = False\<rparr>"
  have s1: "quiet ?s1" "fs_data ?s1 = fs_data s @ [[]]"
    "map_of (fs_dir ?s1) = (map_of (fs_dir s))(wal_name d \<mapsto> length (fs_data s))"
    using assms(1) by (simp_all add: new_inode_def AList.update_conv')
  have wf: "fs_wf ?s1"
    using fs_wf_update [OF fs_wf_grow [OF assms(2), of "[]"], of "length (fs_data s)" "wal_name d"]
    by (simp add: new_inode_def)
  have nw: "NewWAL (wal_name d) s = (Inr ?w, ?s1)"
    using assms(1) none [of "''wal.log''"] by (simp add: NewWAL_def os_OpenFile_append_def new_inode_def)
  have fl: "recover_flushing ord1 d (NewSkipList rnd) ?w ?s1 = Some (None, NewSkipList rnd, ?w, ?s1)"
    using s1 none [of "''wal.log.flushing''"] by (simp add: recover_flushing_def os_Stat_def fs_file_def)
  have "?s1\<lparr>fs_data := (fs_data ?s1)[length (fs_data s) := []]\<rparr> = ?s1"
    by (simp add: new_inode_def list_update_append)
  then have rec: "Recover ?w ?s1 = (Inr [], ?w, ?s1)"
    using Recover_records [of ?w ?s1 "[]" "[]"] s1(1,2) by simp
  have ord: "ord2 [] = []" using assms(4) by (metis mset_zero_iff)
  have mem: "mem_ok ?db" by (simp add: mem_ok_def)
  have dur: "durable murmur ?db ?s1"
    by (rule empty_durable [OF wf mem])
      (use s1 none in \<open>auto simp: active_content_def wal_live_def fs_file_def filepath_Join_def\<close>)
  then have infos: "disk_infos d ?s1 = []" by (simp add: durable_def)
  have op: "Open rnd ord1 ord2 d s = Some (Inr ?db, ?s1)"
    using assms(1) s1(1) infos
    by (simp add: Open_def os_MkdirAll_def nw fl rec ord os_ReadDir_def disk_infos_def [symmetric])
  have "StrataGo_Get murmur k ?db ?s1 = Some None" for k
    using StrataGo_Get_layers [OF mem, of murmur ?s1 "[]" k]
    by (simp add: layered_Get_def active_content_def imm_content_def)
  with dur op s1(1) show ?thesis by fastforce
qed

section \<open>Opening after an interrupted flush\<close>

lemma replay_flushing_quiet:
  "quiet s \<Longrightarrow> wal_open w \<Longrightarrow> wal_file w < length (fs_data s) \<Longrightarrow> skip_ok mem \<Longrightarrow>
    \<exists>mem'. skip_ok mem' \<and> skip_content mem' = fold (\<lambda>(k, v). alist_put k v) es (skip_content mem) \<and>
      replay_flushing es mem w s =
      Some (None, mem', w\<lparr>sequenceNumber := sequenceNumber w + of_nat (length es)\<rparr>,
       s\<lparr>fs_data := (fs_data s)[wal_file w := fs_data s ! wal_file w
           @ concat (map enc_record (number_from (sequenceNumber w) es))]\<rparr>)"
proof (induction es arbitrary: mem w s)
  case (Cons e es)
  obtain k v where e: "e = (k, v)" by force
  obtain mem1 where m: "SkipList_Put k v mem = Some mem1" "skip_ok mem1"
    "skip_content mem1 = alist_put k v (skip_content mem)"
    using memtable.put_spec [OF Cons.prems(4), of k v] by auto
  let ?w1 = "w\<lparr>sequenceNumber := sequenceNumber w + 1\<rparr>"
  let ?s1 = "s\<lparr>fs_data := (fs_data s)[wal_file w := fs_data s ! wal_file w
         @ enc_record (sequenceNumber w + 1, k, bytes_of v)]\<rparr>"
  have "WriteEntry k v w s = (None, ?w1, ?s1)" by (rule WriteEntry_quiet [OF Cons.prems(1,2)])
  with Cons.IH [of ?s1 ?w1 mem1] Cons.prems m show ?case by (auto simp: e ac_simps)
qed auto

lemma wal_fits_entries:
  assumes "list_all wal_fits rs" "set es \<subseteq> set (map_puts (map rec_entry rs) [])"
  shows "list_all wal_fits (number_from n es)"
proof -
  have "(k, v) \<in> rec_entry ` set rs" if "(k, v) \<in> set es" for k v
  proof -
    have "map_of (map_puts (map rec_entry rs) []) k = Some v"
      using that assms(2) distinct_map_puts [of "[]" "map rec_entry rs"] by (auto intro: map_of_is_SomeI)
    then have "map_of (rev (map rec_entry rs)) k = Some v" by (simp add: map_of_map_puts)
    then have "(k, v) \<in> set (rev (map rec_entry rs))" by (rule map_of_SomeD)
    then show ?thesis unfolding set_rev set_map .
  qed
  then have "\<forall>e \<in> set es. \<exists>r \<in> set rs. e = rec_entry r" by fastforce
  then show ?thesis
    using assms(1) by (induction n es rule: number_from.induct) (auto simp: list_all_iff wal_fits_def)
qed

lemma NewReader_fs: "NewReader p s = (r, s') \<Longrightarrow> fs_dir s' = fs_dir s \<and> fs_data s' = fs_data s"
  by (auto simp: NewReader_def os_Open_def file_Close_def dest!: pop_fault_same
      split: prod.splits sum.splits fault.splits option.splits)

lemma open_tables_fs: "open_tables is s = (rs, s') \<Longrightarrow> fs_dir s' = fs_dir s \<and> fs_data s' = fs_data s"
proof (induction "is" arbitrary: rs s)
  case (Cons i js)
  obtain r s1 where n: "NewReader (info_path i) s = (r, s1)" by force
  from NewReader_fs [OF n] n Cons show ?case by (auto split: sum.splits prod.splits)
qed simp

text \<open>The records that replaying an abandoned log appends to the new one.\<close>

definition replayed ::
  "((bytes \<times> slice) list \<Rightarrow> (bytes \<times> slice) list) \<Rightarrow> (u64 \<times> bytes \<times> bytes) list \<Rightarrow> (u64 \<times> bytes \<times> bytes) list" where
  "replayed ord fl = number_from 0 (ord (map_puts (map rec_entry fl) []))"

lemma replayed_map:
  assumes "\<forall>xs. mset (ord xs) = mset xs"
  shows "map_of (map_puts (map rec_entry (rs @ replayed ord fl)) []) =
    map_of (map_puts (map rec_entry rs) []) ++ map_of (map_puts (map rec_entry fl) [])"
proof -
  let ?m = "map_puts (map rec_entry fl) []"
  have d: "distinct (map fst ?m)" by (rule distinct_map_puts) simp
  have some: "\<exists>b. v = Some b" if "(k, v) \<in> set ?m" for k v
  proof -
    have "map_of ?m k = Some v" using that d by (rule map_of_is_SomeI [rotated])
    then have "map_of (rev (map rec_entry fl)) k = Some v" by (simp add: map_of_map_puts)
    then have "(k, v) \<in> set (rev (map rec_entry fl))" by (rule map_of_SomeD)
    then show ?thesis by auto
  qed
  have "set (ord ?m) = set ?m" by (rule mset_eq_setD) (simp add: assms)
  then have "(fst e, Some (bytes_of (snd e))) = e" if "e \<in> set (ord ?m)" for e
    using that some [of "fst e" "snd e"] by (cases e) auto
  then have "map (\<lambda>e. (fst e, Some (bytes_of (snd e)))) (ord ?m) = ord ?m" by (rule map_idI)
  then have "map rec_entry (replayed ord fl) = ord ?m" by (simp add: replayed_def rec_entry_number_from)
  moreover have "map_of (rev (ord ?m)) = map_of ?m" by (rule map_of_perm) (use assms d in auto)
  ultimately show ?thesis by (simp add: map_of_map_puts map_add_assoc)
qed

text \<open>An abandoned log is read, its entries are appended to the new log, and it is removed.\<close>

lemma recover_flushing_records:
  fixes s :: fs and w d fl
  defines "m \<equiv> map_puts (map rec_entry fl) []"
  assumes q: "quiet s" and w: "wal_open w" "wal_file w < length (fs_data s)" "sequenceNumber w = 0"
    and j: "map_of (fs_dir s) (flushing_name d) = Some j" "j < length (fs_data s)"
    and fl: "fs_data s ! j = concat (map enc_record fl)" "list_all wal_fits fl" "length (concat (map enc_record fl)) < 2 ^ 32"
  shows "\<exists>mem. skip_ok mem \<and> skip_content mem = fold (\<lambda>(k, v). alist_put k v) (ord m) [] \<and>
    recover_flushing ord d (NewSkipList rnd) w s =
      Some (None, mem, w\<lparr>sequenceNumber := of_nat (length (ord m))\<rparr>,
        s\<lparr>fs_data := (fs_data s)[wal_file w := fs_data s ! wal_file w @ concat (map enc_record (replayed ord fl))],
          fs_dir := AList.delete (flushing_name d) (fs_dir s)\<rparr>)"
proof -
  let ?t = "\<lparr>wal_file = j, wal_open = True, wal_path = flushing_name d, sequenceNumber = 0\<rparr>"
  let ?s3 = "s\<lparr>fs_data := (fs_data s)[wal_file w := fs_data s ! wal_file w @ concat (map enc_record (replayed ord fl))]\<rparr>"
  have nw: "NewWAL (flushing_name d) s = (Inr ?t, s)" using q j by (simp add: NewWAL_def os_OpenFile_append_def)
  have "(fs_data s)[j := concat (map enc_record fl)] = fs_data s" by (metis fl(1) list_update_id)
  then obtain t1 where rt: "Recover ?t s = (Inr m, t1, s)" "wal_open t1"
    using Recover_records [of ?t s fl "[]"] q j(2) fl by (simp add: m_def)
  obtain mem where mem: "skip_ok mem" "skip_content mem = fold (\<lambda>(k, v). alist_put k v) (ord m) []"
    "replay_flushing (ord m) (NewSkipList rnd) w s = Some (None, mem, w\<lparr>sequenceNumber := of_nat (length (ord m))\<rparr>, ?s3)"
    using replay_flushing_quiet [of s w "NewSkipList rnd" "ord m"] q w by (auto simp: replayed_def m_def)
  have "snd (os_Remove (flushing_name d) (snd (snd (WAL_Close t1 ?s3)))) =
      ?s3\<lparr>fs_dir := AList.delete (flushing_name d) (fs_dir s)\<rparr>"
    using q rt(2) by (simp add: WAL_Close_def file_Close_quiet os_Remove_quiet)
  then show ?thesis
    using q j(1) nw rt mem by (intro exI [of _ mem]) (simp add: recover_flushing_def os_Stat_def fs_file_def)
qed

text \<open>
  C30: a crash in the middle of a flush leaves two logs, \<^verbatim>\<open>wal.log.flushing\<close> with the older
  writes and \<^verbatim>\<open>wal.log\<close> with the newer ones. \<^verbatim>\<open>Open\<close> replays the older log behind the newer
  one: it succeeds and loses no key, but the older log wins, so a key written in both comes back
  with its older value; and the merged log on disk says the same.
\<close>

theorem open_after_interrupted_flush:
  assumes q: "quiet s" and dir: "map_of (fs_dir s) (wal_name d) = Some i" "map_of (fs_dir s) (flushing_name d) = Some j"
    and ij: "i \<noteq> j" "i < length (fs_data s)" "j < length (fs_data s)"
    and files: "fs_data s ! i = concat (map enc_record rs)" "fs_data s ! j = concat (map enc_record fl)"
    and fits: "list_all wal_fits rs" "list_all wal_fits fl" "length (concat (map enc_record fl)) < 2 ^ 32"
      "length (concat (map enc_record (rs @ replayed ord1 fl))) < 2 ^ 32"
    and ord: "\<forall>xs. mset (ord1 xs) = mset xs" "\<forall>xs. mset (ord2 xs) = mset xs"
  shows "\<exists>db s'. Open rnd ord1 ord2 d s = Some (Inr db, s') \<and>
    map_of (active_content db) =
      map_of (map_puts (map rec_entry rs) []) ++ map_of (map_puts (map rec_entry fl) []) \<and>
    fs_file s' (flushing_name d) = None \<and>
    fs_file s' (wal_name d) = Some (concat (map enc_record (rs @ replayed ord1 fl)))"
proof -
  let ?w = "\<lparr>wal_file = i, wal_open = True, wal_path = wal_name d, sequenceNumber = 0\<rparr>"
  let ?m = "map_puts (map rec_entry fl) []" and ?rs = "rs @ replayed ord1 fl"
  have nw: "NewWAL (wal_name d) s = (Inr ?w, s)" using q dir by (simp add: NewWAL_def os_OpenFile_append_def)
  let ?s4 = "s\<lparr>fs_data := (fs_data s)[i := concat (map enc_record ?rs)], fs_dir := AList.delete (flushing_name d) (fs_dir s)\<rparr>"
  let ?w1 = "?w\<lparr>sequenceNumber := of_nat (length (ord1 ?m))\<rparr>"
  obtain mem1 where m1: "skip_ok mem1" "skip_content mem1 = fold (\<lambda>(k, v). alist_put k v) (ord1 ?m) []"
    and fl: "recover_flushing ord1 d (NewSkipList rnd) ?w s = Some (None, mem1, ?w1, ?s4)"
    using recover_flushing_records [OF q _ _ _ dir(2) ij(3) files(2) fits(2,3), of ?w ord1 rnd] ij(2) files(1) by auto
  have "list_all wal_fits (replayed ord1 fl)"
    unfolding replayed_def by (rule wal_fits_entries [OF fits(2)], rule equalityD1, rule mset_eq_setD) (simp add: ord(1))
  then have all: "list_all wal_fits ?rs" using fits(1) by simp
  have s4: "fs_data ?s4 ! i = concat (map enc_record ?rs) @ []" "quiet ?s4" "i < length (fs_data ?s4)"
    using q ij(2) by simp_all
  have "?s4\<lparr>fs_data := (fs_data ?s4)[i := concat (map enc_record ?rs)]\<rparr> = ?s4" by simp
  then obtain w2 where rec: "Recover ?w1 ?s4 = (Inr (map_puts (map rec_entry ?rs) []), w2, ?s4)"
    using Recover_records [of ?w1 ?s4 ?rs "[]", OF _ s4(2) _ _ all _ fits(4)] s4(1,3) by simp
  let ?M = "map_puts (map rec_entry ?rs) []"
  obtain mem2 where m2: "put_all SkipList_Put (ord2 ?M) mem1 = Some mem2"
    "skip_content mem2 = fold (\<lambda>(k, v). alist_put k v) (ord2 ?M) (skip_content mem1)"
    using memtable.put_all_spec [OF m1(1), of "ord2 ?M"] by auto
  have p: "map_of (rev (ord1 ?m)) = map_of ?m" "map_of (rev (ord2 ?M)) = map_of ?M"
    by (rule map_of_perm, simp add: ord, rule distinct_map_puts, simp)+
  have "map_of (skip_content mem2) = map_of ?m ++ map_of ?M"
    using p by (simp add: m2(2) m1(2) map_of_fold_alist_put)
  also have "\<dots> = map_of (map_puts (map rec_entry rs) []) ++ map_of ?m"
    unfolding replayed_map [OF ord(1)] by (auto simp: map_add_def fun_eq_iff split: option.splits)
  finally have "map_of (skip_content mem2) = map_of (map_puts (map rec_entry rs) []) ++ map_of ?m" .
  moreover obtain readers s6 where ot: "open_tables (disk_infos d ?s4) ?s4 = (readers, s6)" by force
  have "Open rnd ord1 ord2 d s = Some (Inr \<lparr>activeMemtable = mem2, immutableMemtable = None, db_wal = w2,
      sstReaders = readers, dataDir = d, flushChan = False, closed = False\<rparr>, s6)"
    using q nw fl rec m2(1) ot by (simp add: Open_def os_MkdirAll_def os_ReadDir_def disk_infos_def)
  moreover have "fs_file s6 = fs_file ?s4" using open_tables_fs [OF ot] by (simp add: fs_file_def fun_eq_iff)
  moreover have "fs_file ?s4 (flushing_name d) = None" "fs_file ?s4 (wal_name d) = Some (concat (map enc_record ?rs))"
    using dir(1) ij(2) by (simp_all add: fs_file_def AList.delete_conv')
  ultimately show ?thesis by (auto simp: active_content_def)
qed

end
