(* ===== verification/Compaction.thy ===== *)
theory Compaction
  imports Recovery
begin

text \<open>
  Size-tiered compaction, \<^verbatim>\<open>src/engine/compaction.go\<close>: choosing four neighbouring tables of one
  size tier, merging them into one table, putting its reader in their place and removing their
  files. Readers are pointers in Go; here a reader is identified with its record, which names the
  file it holds open.
\<close>

section \<open>Choosing the tables\<close>

definition CompactionThreshold :: nat where
  "CompactionThreshold = 4"

definition getTier :: "int \<Rightarrow> int" where
  "getTier sz =
     (let mb = 1024 * 1024
      in if sz < 10 * mb then 0
         else if sz < 50 * mb then 1
         else if sz < 250 * mb then 2
         else if sz < 1024 * mb then 3
         else 4)"

text \<open>A table that cannot be examined is passed over; it does not end the current group.\<close>

fun select_loop :: "int \<Rightarrow> Reader list \<Rightarrow> Reader list \<Rightarrow> fs \<Rightarrow> (Reader list \<times> int) \<times> fs" where
  "select_loop currentTier currentGroup [] s = (([], - 1), s)"
| "select_loop currentTier currentGroup (r # rs) s =
     (case os_Stat (Reader_Path r) s of
        (Inl _, s1) \<Rightarrow> select_loop currentTier currentGroup rs s1
      | (Inr sz, s1) \<Rightarrow>
          (let tier = getTier sz
           in if tier = currentTier
              then (let g = currentGroup @ [r]
                    in if length g = CompactionThreshold then ((g, currentTier), s1)
                       else select_loop currentTier g rs s1)
              else select_loop tier [r] rs s1))"

definition selectFilesForCompaction :: "StrataGo \<Rightarrow> fs \<Rightarrow> (Reader list \<times> int) \<times> fs" where
  "selectFilesForCompaction db s = select_loop (- 1) [] (sstReaders db) s"

section \<open>A compaction\<close>

fun open_iters :: "Reader list \<Rightarrow> fs \<Rightarrow> (error + Iterator list) \<times> fs" where
  "open_iters [] s = (Inr [], s)"
| "open_iters (r # rs) s =
     (case Reader_NewIterator r s of
        (Inl e, s1) \<Rightarrow> (Inl (Wrap ''failed to create iterator'' e), s1)
      | (Inr it, s1) \<Rightarrow>
          (case open_iters rs s1 of
             (Inl e, s2) \<Rightarrow> (Inl e, s2)
           | (Inr its, s2) \<Rightarrow> (Inr (it # its), s2)))"

definition filepath_Base :: "string \<Rightarrow> string" where
  "filepath_Base p = rev (takeWhile (\<lambda>c. c \<noteq> CHR ''/'') (rev p))"

text \<open>The new list of readers: the merged table where the first of its inputs was.\<close>

fun replace_readers :: "Reader list \<Rightarrow> Reader \<Rightarrow> bool \<Rightarrow> Reader list \<Rightarrow> Reader list" where
  "replace_readers compacted newReader inserted [] = []"
| "replace_readers compacted newReader inserted (r # rs) =
     (if r \<in> set compacted
      then (if \<not> inserted then newReader # replace_readers compacted newReader True rs
            else replace_readers compacted newReader inserted rs)
      else r # replace_readers compacted newReader inserted rs)"

fun close_iters :: "Iterator list \<Rightarrow> fs \<Rightarrow> Iterator list \<times> fs" where
  "close_iters [] s = ([], s)"
| "close_iters (it # its) s =
     (case SST_Close it s of
        (_, it1, s1) \<Rightarrow> (case close_iters its s1 of (its1, s2) \<Rightarrow> (it1 # its1, s2)))"

fun delete_files :: "Reader list \<Rightarrow> fs \<Rightarrow> fs" where
  "delete_files [] s = s"
| "delete_files (r # rs) s =
     delete_files rs (snd (os_Remove (Reader_Path r) (snd (snd (Reader_Close r s)))))"

text \<open>
  The unlocked phase: iterators over the chosen tables, newest first, a builder under the name of the
  newest of them, the merge, and a reader on its result.
\<close>

definition compaction_merge ::
  "(bytes \<Rightarrow> u32) \<Rightarrow> int \<Rightarrow> string \<Rightarrow> Reader list \<Rightarrow> fs \<Rightarrow> ((error + Reader \<times> Iterator list) \<times> fs) option" where
  "compaction_merge murmur now d filesToCompact s =
     (case open_iters (rev filesToCompact) s of
        (Inl e, s1) \<Rightarrow> Some (Inl e, s1)
      | (Inr iters, s1) \<Rightarrow>
          (let newestTimestamp = Sscanf_ts (filepath_Base (Reader_Path (last filesToCompact)));
               mergedSSTPath = filepath_Join d (sst_name newestTimestamp)
           in (case NewBuilder mergedSSTPath now s1 of
                 (Inl e, s2) \<Rightarrow> Some (Inl e, s2)
               | (Inr builder, s2) \<Rightarrow>
                   (case Merge murmur iters builder s2 of
                      None \<Rightarrow> None
                    | Some (Some e, s3) \<Rightarrow> Some (Inl (Wrap ''merge failed'' e), s3)
                    | Some (None, s3) \<Rightarrow>
                        (case NewReader mergedSSTPath s3 of
                           (Inl e, s4) \<Rightarrow> Some (Inl e, s4)
                         | (Inr newReader, s4) \<Rightarrow> Some (Inr (newReader, iters), s4))))))"

text \<open>The locked phase.\<close>

definition compaction_install :: "Reader list \<Rightarrow> Reader \<Rightarrow> StrataGo \<Rightarrow> StrataGo" where
  "compaction_install filesToCompact newReader db =
     db\<lparr>sstReaders := replace_readers filesToCompact newReader False (sstReaders db)\<rparr>"

text \<open>The last, unlocked phase: the iterators are closed twice, the inputs closed and removed by name.\<close>

definition compaction_delete :: "Iterator list \<Rightarrow> Reader list \<Rightarrow> fs \<Rightarrow> fs" where
  "compaction_delete iters filesToCompact s =
     (case close_iters iters s of
        (iters1, s1) \<Rightarrow> snd (close_iters iters1 (delete_files filesToCompact s1)))"

definition RunCompaction ::
  "(bytes \<Rightarrow> u32) \<Rightarrow> int \<Rightarrow> StrataGo \<Rightarrow> fs \<Rightarrow> (error option \<times> StrataGo \<times> fs) option" where
  "RunCompaction murmur now db s =
     (case selectFilesForCompaction db s of
        ((filesToCompact, currentTier), s1) \<Rightarrow>
          if length filesToCompact = 0 then Some (None, db, s1)
          else (case compaction_merge murmur now (dataDir db) filesToCompact s1 of
                  None \<Rightarrow> None
                | Some (Inl e, s2) \<Rightarrow> Some (Some e, db, s2)
                | Some (Inr (newReader, iters), s2) \<Rightarrow>
                    Some (None, compaction_install filesToCompact newReader db,
                      compaction_delete iters filesToCompact s2)))"

text \<open>One tick of \<^verbatim>\<open>compactionWorker\<close>: the error is printed and dropped.\<close>

definition compactionWorker_turn ::
  "(bytes \<Rightarrow> u32) \<Rightarrow> int \<Rightarrow> StrataGo \<Rightarrow> fs \<Rightarrow> (StrataGo \<times> fs) option" where
  "compactionWorker_turn murmur now db s = map_option snd (RunCompaction murmur now db s)"

section \<open>What is chosen\<close>

text \<open>
  The size tiers: every size has a tier between 0 and 4, a larger file never has a smaller
  tier, and the boundaries are at 10, 50, 250 and 1024 MiB.
\<close>

lemma getTier_tiers:
  "0 \<le> getTier sz \<and> getTier sz \<le> 4 \<and> getTier sz \<le> getTier (sz + int n) \<and>
    (1 \<le> getTier sz \<longleftrightarrow> 10 * 2 ^ 20 \<le> sz) \<and> (2 \<le> getTier sz \<longleftrightarrow> 50 * 2 ^ 20 \<le> sz) \<and>
    (3 \<le> getTier sz \<longleftrightarrow> 250 * 2 ^ 20 \<le> sz) \<and> (4 \<le> getTier sz \<longleftrightarrow> 2 ^ 30 \<le> sz)"
  by (auto simp: getTier_def Let_def)

definition tier_of :: "fs \<Rightarrow> Reader \<Rightarrow> int" where
  "tier_of s r = (case fs_file s (r_path r) of None \<Rightarrow> - 1 | Some b \<Rightarrow> getTier (int (length b)))"

lemma select_loop_group:
  assumes "quiet s"
  shows "list_all (\<lambda>r. fs_file s (r_path r) \<noteq> None) rs \<Longrightarrow> all = pre @ g @ rs \<Longrightarrow>
    list_all (\<lambda>r. tier_of s r = t) g \<Longrightarrow> length g < CompactionThreshold \<Longrightarrow>
    select_loop t g rs s = ((files, tier), s') \<Longrightarrow>
    s' = s \<and> (files = [] \<or> (length files = CompactionThreshold \<and> (\<exists>as bs. all = as @ files @ bs) \<and>
      list_all (\<lambda>r. tier_of s r = tier) files))"
proof (induction rs arbitrary: t g pre)
  case Nil
  then show ?case by auto
next
  case (Cons r rs)
  obtain b where b: "fs_file s (r_path r) = Some b" using Cons.prems(1) by auto
  then have stat: "os_Stat (Reader_Path r) s = (Inr (int (length b)), s)"
    using assms by (simp add: os_Stat_def Reader_Path_def)
  have tier: "tier_of s r = getTier (int (length b))" using b by (simp add: tier_of_def)
  show ?case
  proof (cases "tier_of s r = t")
    case True
    show ?thesis
    proof (cases "length (g @ [r]) = CompactionThreshold")
      case full: True
      then have "files = g @ [r]" "tier = t" "s' = s"
        using Cons.prems(5) True tier by (auto simp: stat Let_def)
      with True full Cons.prems(2,3) show ?thesis by auto
    next
      case False
      then show ?thesis
        using Cons.IH [of pre "g @ [r]" t] Cons.prems True tier by (auto simp: stat Let_def)
    qed
  next
    case False
    then show ?thesis
      using Cons.IH [of "pre @ g" "[r]" "tier_of s r"] Cons.prems tier
      by (auto simp: stat Let_def CompactionThreshold_def)
  qed
qed

lemma select_contiguous:
  assumes "quiet s" "names_live db s" "selectFilesForCompaction db s = ((files, tier), s')"
  shows "s' = s \<and> (files = [] \<or> (length files = CompactionThreshold \<and>
    (\<exists>as bs. sstReaders db = as @ files @ bs) \<and> list_all (\<lambda>r. tier_of s r = tier) files))"
proof -
  have "list_all (\<lambda>r. fs_file s (r_path r) \<noteq> None) (sstReaders db)"
    using assms(2) by (auto simp: names_live_def list_all_iff fs_file_def)
  then show ?thesis
    using select_loop_group [OF assms(1), of "sstReaders db" "sstReaders db" "[]" "[]" "- 1" files tier s'] assms(3)
    by (simp add: selectFilesForCompaction_def CompactionThreshold_def)
qed

text \<open>
  The choice of tables. When every table can be found under its name, what is chosen is
  nothing, or four tables next to each other in the list and of one size tier.
\<close>

lemma select_files_contiguous:
  assumes "quiet s" "names_live db s" "selectFilesForCompaction db s = ((files, tier), s')"
  shows "s' = s \<and> (files = [] \<or> (length files = CompactionThreshold \<and>
    (\<exists>as bs. sstReaders db = as @ files @ bs) \<and> list_all (\<lambda>r. tier_of s r = tier) files))"
  by (rule select_contiguous [OF assms])

section \<open>What a compaction does when nothing fails\<close>

lemma open_iters_quiet:
  "quiet s \<Longrightarrow> list_all2 (reads_table murmur s) rs ts \<Longrightarrow>
    list_all (\<lambda>r. map_of (fs_dir s) (r_path r) = Some (r_file r)) rs \<Longrightarrow>
    \<exists>its. open_iters rs s = (Inr its, s) \<and> list_all2 delivers its ts"
proof (induction rs arbitrary: ts)
  case (Cons r rs)
  then obtain t us where ts: "ts = t # us" "reads_table murmur s r t" "list_all2 (reads_table murmur s) rs us"
    by (auto simp: list_all2_Cons1)
  then have t: "fs_data s ! r_file r = sst_image murmur t" "table_ok murmur t" by (simp_all add: reads_table_def)
  obtain it where "Reader_NewIterator r s = (Inr it, s)" "delivers it t"
    using Reader_NewIterator_image [OF Cons.prems(1) _ t, of r] Cons.prems(3) by auto
  moreover obtain its where "open_iters rs s = (Inr its, s)" "list_all2 delivers its us"
    using Cons.IH [OF Cons.prems(1) ts(3)] Cons.prems(3) by auto
  ultimately show ?case by (simp add: ts(1))
qed simp

lemma replace_readers_other: "set rs \<inter> set c = {} \<Longrightarrow> replace_readers c n b rs = rs"
  by (induction rs) auto

lemma replace_readers_in: "set rs \<subseteq> set c \<Longrightarrow> replace_readers c n True (rs @ bs) = replace_readers c n True bs"
  by (induction rs) auto

lemma replace_readers_append_other:
  "set rs \<inter> set c = {} \<Longrightarrow> replace_readers c n b (rs @ bs) = rs @ replace_readers c n b bs"
  by (induction rs) auto

lemma replace_readers_group:
  assumes "distinct (as @ files @ bs)" "files \<noteq> []"
  shows "replace_readers files n False (as @ files @ bs) = as @ n # bs"
proof -
  obtain f fs where f: "files = f # fs" using assms(2) by (cases files) auto
  have "set fs \<subseteq> set files" by (auto simp: f)
  from replace_readers_in [OF this, of n bs] have "replace_readers files n True (fs @ bs) = bs"
    using replace_readers_other [of bs files n True] assms(1) by auto
  moreover have "set as \<inter> set files = {}" using assms(1) by auto
  ultimately show ?thesis by (simp add: replace_readers_append_other f)
qed

lemma close_iters_quiet [simp]: "quiet s \<Longrightarrow> snd (close_iters its s) = s"
  by (induction its) (simp_all add: split_beta)

lemma fs_wf_new_table: "fs_wf s \<Longrightarrow> fs_wf (new_table p now img s)"
proof -
  assume a: "fs_wf s"
  let ?t = "tmp_name p now" and ?i = "length (fs_data s)"
  let ?s1 = "s\<lparr>fs_data := fs_data s @ [img]\<rparr>"
  let ?s2 = "?s1\<lparr>fs_dir := AList.update ?t ?i (fs_dir ?s1)\<rparr>"
  let ?s3 = "?s2\<lparr>fs_dir := AList.delete ?t (fs_dir ?s2)\<rparr>"
  have "fs_wf ?s3" by (intro fs_wf_delete fs_wf_update fs_wf_grow a) simp
  from fs_wf_update [OF this, of ?i p] show ?thesis by (simp add: new_table_def)
qed

lemma delete_files_wf: "quiet s \<Longrightarrow> fs_wf s \<Longrightarrow> fs_wf (delete_files rs s)"
proof (induction rs arbitrary: s)
  case (Cons r rs)
  have "snd (snd (Reader_Close r s)) = s" using Cons.prems by (simp add: Reader_Close_def file_Close_quiet)
  with Cons.IH [of "s\<lparr>fs_dir := AList.delete (r_path r) (fs_dir s)\<rparr>"] Cons.prems fs_wf_delete show ?case
    by (simp add: os_Remove_quiet Reader_Path_def)
qed simp

lemma delete_files_quiet:
  "quiet s \<Longrightarrow> fs_data (delete_files rs s) = fs_data s \<and> quiet (delete_files rs s) \<and>
    map_of (fs_dir (delete_files rs s)) n = (if n \<in> r_path ` set rs then None else map_of (fs_dir s) n)"
proof (induction rs arbitrary: s)
  case (Cons r rs)
  have "snd (snd (Reader_Close r s)) = s" using Cons.prems by (simp add: Reader_Close_def file_Close_quiet)
  with Cons.IH [of "s\<lparr>fs_dir := AList.delete (r_path r) (fs_dir s)\<rparr>"] Cons.prems show ?case
    by (auto simp: os_Remove_quiet Reader_Path_def AList.delete_conv')
qed simp

lemma filepath_Base_sst_path: "filepath_Base (sst_path d t) = sst_name t"
proof -
  have "takeWhile (\<lambda>c. c \<noteq> CHR ''/'') (rev (sst_name t) @ CHR ''/'' # rev d) = rev (sst_name t)"
    using sst_name_plain(1) [of t] by (subst takeWhile_append2) auto
  then show ?thesis by (simp add: filepath_Base_def sst_path_def filepath_Join_def)
qed

text \<open>The path of a table: a name that \<^verbatim>\<open>Flush\<close> could have given it.\<close>

definition table_path :: "string \<Rightarrow> string \<Rightarrow> bool" where
  "table_path d p \<longleftrightarrow> (\<exists>t. - (2 ^ 63) \<le> t \<and> t < 2 ^ 63 \<and> p = sst_path d t)"

lemma merged_path:
  assumes "table_path d p"
  shows "filepath_Join d (sst_name (Sscanf_ts (filepath_Base p))) = p"
proof -
  obtain t where t: "- (2 ^ 63) \<le> t" "t < 2 ^ 63" "p = sst_path d t" using assms by (auto simp: table_path_def)
  then show ?thesis by (simp add: filepath_Base_sst_path Sscanf_ts_sst_name) (simp add: sst_path_def)
qed

lemma compaction_merge_quiet:
  assumes q: "quiet s" and files: "files \<noteq> []"
    and ts: "list_all2 (reads_table murmur s) files tf"
    and live: "list_all (\<lambda>r. map_of (fs_dir s) (r_path r) = Some (r_file r)) files"
    and p: "table_path d (r_path (last files))"
    and fresh: "map_of (fs_dir s) (tmp_name (r_path (last files)) now) = None"
    and ok: "table_ok murmur (merged (rev tf))"
  defines "s1 \<equiv> new_table (r_path (last files)) now (sst_image murmur (merged (rev tf))) s"
  shows "\<exists>r its. compaction_merge murmur now d files s = Some (Inr (r, its), s1) \<and>
    reads_table murmur s1 r (merged (rev tf)) \<and> r_path r = r_path (last files) \<and> r_file r = length (fs_data s)"
proof -
  let ?path = "r_path (last files)" and ?m = "merged (rev tf)"
  have "list_all2 (reads_table murmur s) (rev files) (rev tf)" using ts by (simp add: list_all2_rev)
  then obtain its where its: "open_iters (rev files) s = (Inr its, s)" "list_all2 delivers its (rev tf)"
    using open_iters_quiet [OF q, of murmur "rev files" "rev tf"] live by auto
  have srt: "list_all ksorted (rev tf)"
    using list_all2_conv_all_nth [THEN iffD1, OF ts]
    by (auto simp: list_all_iff in_set_conv_nth reads_table_def table_ok_def)
  have n: "length ?m \<le> max_bloom_keys" using ok by (simp add: table_ok_def)
  have path: "filepath_Join d (sst_name (Sscanf_ts (filepath_Base (Reader_Path (last files))))) = ?path"
    unfolding Reader_Path_def by (rule merged_path [OF p])
  have q1: "quiet s1" using q by (simp add: s1_def)
  have dir: "map_of (fs_dir s1) ?path = Some (length (fs_data s))" by (simp add: s1_def new_table_dir [OF fresh])
  have img: "fs_data s1 ! length (fs_data s) = sst_image murmur ?m" "length (fs_data s) < length (fs_data s1)"
    by (simp_all add: s1_def)
  obtain r where r: "NewReader ?path s1 = (Inr r, s1)" "reads_table murmur s1 r ?m" "r_path r = ?path"
      "r_file r = length (fs_data s)"
    using NewReader_image [OF q1 dir img(2,1) ok] by auto
  have "compaction_merge murmur now d files s = Some (Inr (r, its), s1)"
    using its(1) NewBuilder_quiet [OF q fresh] Merge_merged [OF q its(2) srt n, of murmur ?path now] r(1)
    by (simp add: compaction_merge_def path s1_def)
  with r show ?thesis by blast
qed

lemma compaction_delete_quiet:
  assumes "quiet s"
  shows "fs_data (compaction_delete its files s) = fs_data s" "quiet (compaction_delete its files s)"
    "map_of (fs_dir (compaction_delete its files s)) n =
       (if n \<in> r_path ` set files then None else map_of (fs_dir s) n)"
    "fs_wf s \<Longrightarrow> fs_wf (compaction_delete its files s)"
proof -
  have "compaction_delete its files s = delete_files files s"
    using assms delete_files_quiet [OF assms, of files n] by (simp add: compaction_delete_def split_beta)
  with delete_files_quiet [OF assms, of files n] show "fs_data (compaction_delete its files s) = fs_data s"
    "quiet (compaction_delete its files s)" "map_of (fs_dir (compaction_delete its files s)) n =
       (if n \<in> r_path ` set files then None else map_of (fs_dir s) n)"
    "fs_wf s \<Longrightarrow> fs_wf (compaction_delete its files s)"
    using delete_files_wf [OF assms] by auto
qed

lemma RunCompaction_quiet:
  assumes q: "quiet s" and sel: "selectFilesForCompaction db s = ((files, tier), s)" "files \<noteq> []"
    and rs: "sstReaders db = as @ files @ bs" "distinct (sstReaders db)"
    and ts: "list_all2 (reads_table murmur s) files tf"
    and live: "list_all (\<lambda>r. map_of (fs_dir s) (r_path r) = Some (r_file r)) files"
    and p: "table_path (dataDir db) (r_path (last files))"
    and fresh: "map_of (fs_dir s) (tmp_name (r_path (last files)) now) = None"
    and ok: "table_ok murmur (merged (rev tf))"
  shows "\<exists>r s'. RunCompaction murmur now db s = Some (None, db\<lparr>sstReaders := as @ r # bs\<rparr>, s') \<and> quiet s' \<and>
    reads_table murmur s' r (merged (rev tf)) \<and> r_path r = r_path (last files) \<and>
    r_file r = length (fs_data s) \<and> fs_data s' = fs_data s @ [sst_image murmur (merged (rev tf))] \<and>
    (\<forall>n. map_of (fs_dir s') n = (if n \<in> r_path ` set files then None else map_of (fs_dir s) n)) \<and>
    (fs_wf s \<longrightarrow> fs_wf s')"
proof -
  let ?path = "r_path (last files)" and ?m = "merged (rev tf)"
  let ?s1 = "new_table ?path now (sst_image murmur ?m) s"
  obtain r its where mg: "compaction_merge murmur now (dataDir db) files s = Some (Inr (r, its), ?s1)"
    "reads_table murmur ?s1 r ?m" "r_path r = ?path" "r_file r = length (fs_data s)"
    using compaction_merge_quiet [OF q sel(2) ts live p fresh ok] by blast
  have q1: "quiet ?s1" using q by simp
  have repl: "replace_readers files r False (sstReaders db) = as @ r # bs"
    using replace_readers_group [of as files bs r] rs sel(2) by simp
  let ?s' = "compaction_delete its files ?s1"
  have s': "map_of (fs_dir ?s') n = (if n \<in> r_path ` set files then None else map_of (fs_dir s) n)" for n
    using compaction_delete_quiet(3) [OF q1, of its files n] sel(2) by (auto simp: new_table_dir [OF fresh])
  have "reads_table murmur ?s' r ?m"
    by (rule reads_table_frame [OF mg(2)]) (simp_all add: compaction_delete_quiet(1) [OF q1])
  moreover have "RunCompaction murmur now db s = Some (None, db\<lparr>sstReaders := as @ r # bs\<rparr>, ?s')"
    using sel mg(1) repl by (simp add: RunCompaction_def compaction_install_def)
  ultimately show ?thesis
    using mg(3,4) s' compaction_delete_quiet(1,2,4) [OF q1, of its files] fs_wf_new_table [of s] by (intro exI [of _ r] exI [of _ ?s']) simp
qed

text \<open>The lookup through the tables before and after.\<close>

lemma compaction_layers:
  assumes "list_all ksorted tf" "no_ghosts murmur (ta @ tf @ tb) k" "no_ghosts murmur (ta @ [merged (rev tf)] @ tb) k"
  shows "tables_Get murmur k (rev (ta @ [merged (rev tf)] @ tb)) = tables_Get murmur k (rev (ta @ tf @ tb))"
proof -
  have "map_of (merged (rev tf)) = first_of (rev tf)" using assms(1) by (intro map_of_merged) simp
  moreover have "no_ghosts murmur (rev us) k = no_ghosts murmur us k" for us by (simp add: no_ghosts_def)
  ultimately show ?thesis
    using assms(2,3) by (simp add: tables_Get_first first_of_append del: rev_append) 
      (simp add: first_of_append split: option.splits)
qed

text \<open>
  When a compaction can run: nothing fails, every table is found under its own name, its temporary
  name is free, and the merge of any four neighbouring tables is a table.
\<close>

definition can_compact :: "(bytes \<Rightarrow> u32) \<Rightarrow> int \<Rightarrow> StrataGo \<Rightarrow> fs \<Rightarrow> (bytes \<times> bytes) list list \<Rightarrow> bool" where
  "can_compact murmur now db s ts \<longleftrightarrow> quiet s \<and> names_live db s \<and> distinct (sstReaders db) \<and>
     (\<forall>r \<in> set (sstReaders db). table_path (dataDir db) (r_path r) \<and>
        map_of (fs_dir s) (tmp_name (r_path r) now) = None) \<and>
     (\<forall>ta tf tb. ts = ta @ tf @ tb \<and> length tf = CompactionThreshold \<longrightarrow> table_ok murmur (merged (rev tf)))"

lemma compaction_run:
  assumes can: "can_compact murmur now db s ts" and inv: "db_tables murmur s db ts"
    and sel: "selectFilesForCompaction db s = ((files, tier), s1)" "files \<noteq> []"
  shows "\<exists>as bs ta tf tb r s'. sstReaders db = as @ files @ bs \<and> ts = ta @ tf @ tb \<and> length ta = length as \<and>
    RunCompaction murmur now db s = Some (None, db\<lparr>sstReaders := as @ r # bs\<rparr>, s') \<and> quiet s' \<and>
    list_all2 (reads_table murmur s') (as @ r # bs) (ta @ [merged (rev tf)] @ tb) \<and> length tf = 4 \<and>
    list_all ksorted tf \<and> r_path r = r_path (last files) \<and> r_file r = length (fs_data s) \<and>
    fs_data s' = fs_data s @ [sst_image murmur (merged (rev tf))] \<and> fs_file s' (r_path r) = None \<and>
    reads_table murmur s' r (merged (rev tf)) \<and>
    (\<forall>n. map_of (fs_dir s') n = (if n \<in> r_path ` set files then None else map_of (fs_dir s) n)) \<and>
    (fs_wf s \<longrightarrow> fs_wf s')"
proof -
  from can have c: "quiet s" "names_live db s" "distinct (sstReaders db)"
    "\<forall>r \<in> set (sstReaders db). table_path (dataDir db) (r_path r) \<and>
        map_of (fs_dir s) (tmp_name (r_path r) now) = None"
    by (auto simp: can_compact_def)
  from select_contiguous [OF c(1,2) sel(1)] sel(2) obtain as bs where
    s1: "s1 = s" and rs: "sstReaders db = as @ files @ bs" and len: "length files = CompactionThreshold"
    by auto
  obtain ta tf tb where ts: "ts = ta @ tf @ tb" "list_all2 (reads_table murmur s) as ta"
    "list_all2 (reads_table murmur s) files tf" "list_all2 (reads_table murmur s) bs tb"
    using inv unfolding rs by (auto simp: list_all2_append1)
  have lf: "length tf = CompactionThreshold" using ts(3) len by (simp add: list_all2_lengthD)
  have ok: "table_ok murmur (merged (rev tf))" using can ts(1) lf by (auto simp: can_compact_def)
  have lst: "last files \<in> set (sstReaders db)" using sel(2) rs by simp
  have live: "list_all (\<lambda>r. map_of (fs_dir s) (r_path r) = Some (r_file r)) files"
    using c(2) by (simp add: names_live_def rs)
  obtain r s' where r: "RunCompaction murmur now db s = Some (None, db\<lparr>sstReaders := as @ r # bs\<rparr>, s')" "quiet s'"
    "reads_table murmur s' r (merged (rev tf))" "r_path r = r_path (last files)"
    "r_file r = length (fs_data s)" "fs_data s' = fs_data s @ [sst_image murmur (merged (rev tf))]"
    "\<forall>n. map_of (fs_dir s') n = (if n \<in> r_path ` set files then None else map_of (fs_dir s) n)"
    "fs_wf s \<longrightarrow> fs_wf s'"
    using RunCompaction_quiet [OF c(1) sel(1) [unfolded s1] sel(2) rs c(3) ts(3) live _ _ ok] c(4) lst by blast
  have keep: "list_all2 (reads_table murmur s') xs us" if "list_all2 (reads_table murmur s) xs us" for xs us
    by (rule db_tables_frame [OF that]) (simp_all add: r(6) nth_append)
  have "list_all2 (reads_table murmur s') (as @ r # bs) (ta @ [merged (rev tf)] @ tb)"
    using keep [OF ts(2)] keep [OF ts(4)] r(3) by (simp add: list_all2_appendI)
  moreover have "fs_file s' (r_path r) = None" using r(4,7) sel(2) by (simp add: fs_file_def)
  moreover have "list_all ksorted tf"
    using list_all2_conv_all_nth [THEN iffD1, OF ts(3)]
    by (auto simp: list_all_iff in_set_conv_nth reads_table_def table_ok_def)
  moreover have "length ta = length as" using ts(2) by (simp add: list_all2_lengthD)
  ultimately show ?thesis using rs ts(1) r lf unfolding CompactionThreshold_def by blast
qed


text \<open>
  A compaction deletes its own output. The merged table gets the name of the newest of its
  inputs, and the inputs are removed by name afterwards: whenever a compaction merges anything, the
  reader of the merged table is left with a name that no longer exists. Lookups go on through the
  open file, but the table can no longer be iterated over, and the directory does not list it.
\<close>

lemma compaction_deletes_its_output:
  assumes "db_inv murmur db s" "db_tables murmur s db ts" "can_compact murmur now db s ts"
    and "selectFilesForCompaction db s = ((files, tier), s1)" "files \<noteq> []"
  shows "\<exists>db' s' r. RunCompaction murmur now db s = Some (None, db', s') \<and> r \<in> set (sstReaders db') \<and>
    (\<exists>tf. reads_table murmur s' r (merged tf)) \<and> fs_file s' (r_path r) = None \<and>
    Reader_NewIterator r s' = (Inl ErrNotExist, s')"
proof -
  obtain as bs tf r s' where run:
    "RunCompaction murmur now db s = Some (None, db\<lparr>sstReaders := as @ r # bs\<rparr>, s')" "quiet s'"
    "reads_table murmur s' r (merged (rev tf))" "fs_file s' (r_path r) = None"
    using compaction_run [OF assms(3,2,4,5)] by blast
  have "Reader_NewIterator r s' = (Inl ErrNotExist, s')"
    using run(2,4) by (simp add: Reader_NewIterator_def os_Open_def fs_file_def)
  with run show ?thesis by auto
qed

end
