(* ===== verification/Interleaving.thy ===== *)
theory Interleaving
  imports Lifecycle
begin

text \<open>
  \<^verbatim>\<open>Flush\<close> holds the lock only while it rotates the memtable and the log and while it installs
  the new table; between the two phases it writes the table, and writes from other goroutines go into
  the new memtable and the new log. Here any sequence of writes runs between the phases.
\<close>

section \<open>Writes on a database that accepts them\<close>

text \<open>Open, with an open log, on a file system where nothing fails.\<close>

definition writable :: "StrataGo \<Rightarrow> fs \<Rightarrow> bool" where
  "writable db s \<longleftrightarrow> \<not> closed db \<and> wal_open (db_wal db) \<and> quiet s"

text \<open>What a write leaves alone: the pending memtable, the tables, the names of the files.\<close>

definition write_frame :: "StrataGo \<times> fs \<Rightarrow> StrataGo \<times> fs \<Rightarrow> bool" where
  "write_frame st st' \<longleftrightarrow> immutableMemtable (fst st') = immutableMemtable (fst st) \<and>
     sstReaders (fst st') = sstReaders (fst st) \<and> dataDir (fst st') = dataDir (fst st) \<and>
     wal_file (db_wal (fst st')) = wal_file (db_wal (fst st)) \<and> fs_dir (snd st') = fs_dir (snd st)"

lemma Put_writable_frame:
  assumes "db_inv murmur db s" "writable db s"
  shows "\<exists>db' s'. StrataGo_Put k v db s = Some (None, db', s') \<and> db_inv murmur db' s' \<and> writable db' s' \<and>
    engine_lookup murmur (db', s') = (engine_lookup murmur (db, s))(k := v) \<and> write_frame (db, s) (db', s')"
proof -
  obtain r db' s' where p: "StrataGo_Put k v db s = Some (r, db', s')" "db_inv murmur db' s'"
    "\<forall>k'. StrataGo_Get murmur k' db' s' = (if r = None \<and> k' = k then Some v else StrataGo_Get murmur k' db s)"
    using StrataGo_Put_cases [OF assms(1)] by blast
  from p(1) assms(2) have "r = None \<and> writable db' s' \<and> write_frame (db, s) (db', s')"
    by (auto simp: StrataGo_Put_def WriteEntry_quiet writable_def write_frame_def split: option.splits)
  with p show ?thesis by (auto simp: engine_lookup_def fun_eq_iff)
qed

lemma Put_writable:
  assumes "db_inv murmur db s" "writable db s"
  shows "\<exists>db' s'. StrataGo_Put k v db s = Some (None, db', s') \<and> db_inv murmur db' s' \<and> writable db' s' \<and>
    engine_lookup murmur (db', s') = (engine_lookup murmur (db, s))(k := v)"
  using Put_writable_frame [OF assms] by blast

abbreviation put_step :: "bytes \<times> slice \<Rightarrow> StrataGo \<times> fs \<Rightarrow> (error option \<times> StrataGo \<times> fs) option" where
  "put_step w st \<equiv> StrataGo_Put (fst w) (snd w) (fst st) (snd st)"

lemma writes_run:
  "db_inv murmur db s \<Longrightarrow> writable db s \<Longrightarrow>
    \<exists>db' s'. run_steps put_step ws (db, s) = Some (replicate (length ws) None, db', s') \<and>
      db_inv murmur db' s' \<and> writable db' s' \<and> write_frame (db, s) (db', s') \<and>
      engine_lookup murmur (db', s') = updates ws (engine_lookup murmur (db, s))"
proof (induction ws arbitrary: db s)
  case Nil
  then show ?case by (simp add: write_frame_def)
next
  case (Cons w ws)
  obtain k v where w: "w = (k, v)" by force
  obtain db1 s1 where p: "StrataGo_Put k v db s = Some (None, db1, s1)" "db_inv murmur db1 s1" "writable db1 s1"
    "engine_lookup murmur (db1, s1) = (engine_lookup murmur (db, s))(k := v)" "write_frame (db, s) (db1, s1)"
    using Put_writable_frame [OF Cons.prems] by blast
  obtain db' s' where r: "run_steps put_step ws (db1, s1) = Some (replicate (length ws) None, db', s')"
    "db_inv murmur db' s'" "writable db' s'" "write_frame (db1, s1) (db', s')"
    "engine_lookup murmur (db', s') = updates ws (engine_lookup murmur (db1, s1))"
    using Cons.IH [OF p(2,3)] by blast
  have "write_frame (db, s) (db', s')" using p(5) r(4) by (simp add: write_frame_def)
  moreover have "engine_lookup murmur (db', s') = updates (w # ws) (engine_lookup murmur (db, s))"
    by (simp only: r(5) p(4) w updates_simps)
  ultimately show ?case using p(1) r(1-3) w by simp
qed

section \<open>The rotation\<close>

lemma rotate_state:
  assumes inv: "db_inv murmur db s" and q: "quiet s" and live: "wal_live db s" and op: "\<not> closed db"
    and imm: "immutableMemtable db = None" and work: "Size (activeMemtable db) \<noteq> 0"
  shows "\<exists>db1 s1. Flush_rotate rnd db s = (None, db1, s1) \<and> db_inv murmur db1 s1 \<and> writable db1 s1 \<and> wal_live db1 s1 \<and>
    immutableMemtable db1 = Some (activeMemtable db) \<and> dataDir db1 = dataDir db \<and>
    engine_lookup murmur (db1, s1) = engine_lookup murmur (db, s) \<and>
    (\<forall>n. n \<noteq> wal_name (dataDir db) \<and> n \<noteq> flushing_name (dataDir db) \<longrightarrow> map_of (fs_dir s1) n = map_of (fs_dir s) n)"
proof -
  let ?db1 = "db\<lparr>immutableMemtable := Some (activeMemtable db), activeMemtable := NewSkipList rnd,
      db_wal := \<lparr>wal_file = length (fs_data s), wal_open = True, wal_path = wal_name (dataDir db),
                 sequenceNumber = 0\<rparr>\<rparr>"
  let ?s1 = "rotated_fs (dataDir db) (wal_file (db_wal db)) s"
  obtain ts where ts: "db_tables murmur s db ts" and mem: "mem_ok db" using inv by (auto simp: db_inv_def)
  have ts1: "db_tables murmur ?s1 ?db1 ts"
    using db_tables_frame [OF ts, of ?s1] by (simp add: nth_append)
  have mem1: "mem_ok ?db1" using mem imm by (simp add: mem_ok_def)
  have "r_file r < length (fs_data s)" if "r \<in> set (sstReaders db)" for r
    using list_all2_conv_all_nth [THEN iffD1, OF ts] that by (auto simp: in_set_conv_nth reads_table_def)
  then have "length (fs_data s) \<notin> r_file ` set (sstReaders db)" by force
  then have "db_inv murmur ?db1 ?s1" using mem1 ts1 by (auto simp: db_inv_def)
  moreover have "engine_lookup murmur (?db1, ?s1) = engine_lookup murmur (db, s)"
  proof
    fix k
    show "engine_lookup murmur (?db1, ?s1) k = engine_lookup murmur (db, s) k"
      using StrataGo_Get_layers [OF mem1 ts1, of k] StrataGo_Get_layers [OF mem ts, of k] imm
      by (auto simp: engine_lookup_def layered_Get_def active_content_def imm_content_def split: option.splits)
  qed
  moreover have "Flush_rotate rnd db s = (None, ?db1, ?s1)"
    using Flush_rotate_quiet [OF q imm work] live by (simp add: wal_live_def)
  moreover have "writable ?db1 ?s1" "wal_live ?db1 ?s1" using op q by (simp_all add: writable_def wal_live_def)
  ultimately show ?thesis by (intro exI [of _ ?db1] exI [of _ ?s1]) simp
qed

text \<open>With a memtable pending, a flush is its unlocked phase.\<close>

lemma Flush_pending: "immutableMemtable db \<noteq> None \<Longrightarrow> Flush murmur rnd now1 now2 db s = Flush_write murmur now1 now2 db s"
  by (auto simp: Flush_def Flush_rotate_def)

text \<open>
  Writes during a flush. A flush rotates, any sequence of writes runs, the flush writes its table
  and installs it. When nothing fails all of it succeeds; the rotation changes no lookup; afterwards
  nothing is pending, and every key has what the writes made of the lookups before the flush, for all
  keys but ghosts of the new table and keys bound to the empty value in it.
\<close>

lemma flush_with_concurrent_writes:
  assumes "db_inv murmur db s" "quiet s" "wal_live db s" "\<not> closed db" "fresh_tmp now1 now2 db s"
    and "immutableMemtable db = None" "Size (activeMemtable db) \<noteq> 0"
    and "table_ok murmur (map plain (active_content db))"
  shows "\<exists>db1 s1 db2 s2 db3 s3. Flush_rotate rnd db s = (None, db1, s1) \<and>
    (\<forall>k. StrataGo_Get murmur k db1 s1 = StrataGo_Get murmur k db s) \<and>
    run_steps put_step ws (db1, s1) = Some (replicate (length ws) None, db2, s2) \<and>
    Flush_write murmur now1 now2 db2 s2 = Some (None, db3, s3) \<and>
    db_inv murmur db3 s3 \<and> immutableMemtable db3 = None \<and>
    (\<forall>k. settled murmur (active_content db) k \<longrightarrow>
       StrataGo_Get murmur k db3 s3 = Some (updates ws (\<lambda>k. the (StrataGo_Get murmur k db s)) k))"
proof -
  obtain db1 s1 where r: "Flush_rotate rnd db s = (None, db1, s1)" "db_inv murmur db1 s1" "writable db1 s1"
    "wal_live db1 s1" "immutableMemtable db1 = Some (activeMemtable db)" "dataDir db1 = dataDir db"
    "engine_lookup murmur (db1, s1) = engine_lookup murmur (db, s)"
    "\<forall>n. n \<noteq> wal_name (dataDir db) \<and> n \<noteq> flushing_name (dataDir db) \<longrightarrow> map_of (fs_dir s1) n = map_of (fs_dir s) n"
    using rotate_state [OF assms(1-4,6,7)] by blast
  obtain db2 s2 where w: "run_steps put_step ws (db1, s1) = Some (replicate (length ws) None, db2, s2)"
    "db_inv murmur db2 s2" "writable db2 s2" "write_frame (db1, s1) (db2, s2)"
    "engine_lookup murmur (db2, s2) = updates ws (engine_lookup murmur (db1, s1))"
    using writes_run [OF r(2,3)] by blast
  have imm2: "immutableMemtable db2 = Some (activeMemtable db)" "dataDir db2 = dataDir db" "fs_dir s2 = fs_dir s1"
    "wal_file (db_wal db2) = wal_file (db_wal db1)"
    using w(4) r(5,6) by (simp_all add: write_frame_def)
  then have tf: "skip_content (to_flush db2) = active_content db" by (simp add: to_flush_def active_content_def)
  have "fresh_tmp now1 now2 db2 s2" using assms(5) r(8) imm2 by (simp add: fresh_tmp_def)
  moreover have "wal_live db2 s2" using r(4,6) w(3) imm2 by (simp add: wal_live_def writable_def)
  moreover have "quiet s2" using w(3) by (simp add: writable_def)
  ultimately obtain db3 s3 where f: "Flush murmur rnd now1 now2 db2 s2 = Some (None, db3, s3)" "db_inv murmur db3 s3"
    "immutableMemtable db3 = None"
    "\<forall>k. settled murmur (skip_content (to_flush db2)) k \<longrightarrow> StrataGo_Get murmur k db3 s3 = StrataGo_Get murmur k db2 s2"
    using Flush_spec [OF w(2), of now1 now2 rnd] imm2(1) assms(8) unfolding tf by blast
  have "engine_lookup murmur (db, s) = (\<lambda>k. the (StrataGo_Get murmur k db s))"
    by (simp add: engine_lookup_def fun_eq_iff)
  then have "StrataGo_Get murmur k db2 s2 = Some (updates ws (\<lambda>k. the (StrataGo_Get murmur k db s)) k)" for k
    by (simp add: engine_lookup_Get [OF w(2)] w(5) r(7))
  moreover have "StrataGo_Get murmur k db1 s1 = StrataGo_Get murmur k db s" for k
    by (simp add: engine_lookup_Get [OF r(2)] engine_lookup_Get [OF assms(1)] r(7))
  ultimately show ?thesis
    using r(1) w(1) f Flush_pending [of db2 murmur rnd now1 now2 s2] imm2(1) unfolding tf by auto
qed

end
