(* ===== verification/Samples.thy ===== *)
theory Samples
  imports Durability Compaction Interleaving
begin

text \<open>
  A concrete database on which the theorems about the engine are instantiated: a freshly
  opened one and the same after one write.
\<close>

definition sample_hash :: "bytes \<Rightarrow> u32" where
  "sample_hash key = 0"

definition sample_dir :: string where
  "sample_dir = ''data/n1/engine''"

definition sample_rnd :: "nat \<Rightarrow> nat" where
  "sample_rnd n = 2 ^ 53"

definition fs0 :: fs where
  "fs0 = \<lparr>fs_dir = [(wal_name sample_dir, 0)], fs_data = [[]], fs_faults = []\<rparr>"

definition wal0 :: WAL where
  "wal0 = \<lparr>wal_file = 0, wal_open = True, wal_path = wal_name sample_dir, sequenceNumber = 0\<rparr>"

definition db0 :: StrataGo where
  "db0 = \<lparr>activeMemtable = NewSkipList sample_rnd, immutableMemtable = None, db_wal = wal0, sstReaders = [],
     dataDir = sample_dir, flushChan = False, closed = False\<rparr>"

text \<open>The same after \<^verbatim>\<open>Put([1], [7])\<close>.\<close>

definition mem1 :: SkipList where
  "mem1 = the (SkipList_Put [1] (Some [7]) (NewSkipList sample_rnd))"

definition wal1 :: WAL where
  "wal1 = wal0\<lparr>sequenceNumber := 1\<rparr>"

definition fs1 :: fs where
  "fs1 = fs0\<lparr>fs_data := [enc_record (1, [1], [7])]\<rparr>"

definition db1 :: StrataGo where
  "db1 = db0\<lparr>activeMemtable := mem1, db_wal := wal1\<rparr>"

lemma fs0_simps [simp]: "fs_data fs0 = [[]]" "quiet fs0" "fs_dir fs0 = [(wal_name sample_dir, 0)]"
  by (simp_all add: fs0_def)

lemma fs1_simps [simp]: "fs_data fs1 = [enc_record (1, [1], [7])]" "quiet fs1" "fs_dir fs1 = [(wal_name sample_dir, 0)]"
  by (simp_all add: fs1_def)

lemma db0_simps [simp]:
  "activeMemtable db0 = NewSkipList sample_rnd" "immutableMemtable db0 = None" "db_wal db0 = wal0"
  "sstReaders db0 = []" "dataDir db0 = sample_dir" "closed db0 = False"
  by (simp_all add: db0_def)

lemma wal0_simps [simp]: "wal_file wal0 = 0" "wal_open wal0" "sequenceNumber wal0 = 0"
  by (simp_all add: wal0_def)

lemma active0 [simp]: "active_content db0 = []" by (simp add: active_content_def)

lemma mem_ok0: "mem_ok db0" by (simp add: mem_ok_def)

lemma inv0: "db_inv sample_hash db0 fs0" by (simp add: db_inv_def mem_ok0)

lemma names0: "dir_names sample_dir fs0 = [''wal.log'']"
  by (simp add: dir_names_def filepath_Join_def sample_dir_def)

lemma infos0 [simp]: "disk_infos sample_dir fs0 = []"
  by (simp add: disk_infos_def names0 sstable_infos_def suffix_to_prefix)

lemma live0: "wal_live db0 fs0" by (simp add: wal_live_def)

lemma durable0: "durable sample_hash db0 fs0"
proof -
  have "wal_covers [] db0 fs0" by (simp add: wal_covers_def logged_def)
  then show ?thesis
    using inv0 live0
    by (auto simp: durable_def fs_wf_def names_live_def filepath_Join_def sample_dir_def disk_infos_def
        names0 [unfolded sample_dir_def] sstable_infos_def suffix_to_prefix)
qed

lemma put1: "SkipList_Put [1] (Some [7]) (NewSkipList sample_rnd) = Some mem1"
  using memtable.put_total [of "NewSkipList sample_rnd" "[1]" "Some [7]"] by (auto simp: mem1_def)

lemma content1 [simp]: "skip_content mem1 = [([1], Some [7])]"
  using memtable.put_content [OF _ put1] by simp

lemma skip_ok1: "skip_ok mem1"
  using memtable.put_invar [OF _ put1] by simp

lemma Size1 [simp]: "Size mem1 = 1"
  using skip_ok_Size [OF skip_ok1] by simp

lemma write1: "WriteEntry [1] (Some [7]) wal0 fs0 = (None, wal1, fs1)"
  by (simp add: WriteEntry_quiet wal1_def fs1_def)

lemma SizeBytes1: "SizeBytes mem1 = 2"
proof -
  obtain as where r: "skip_repr mem1 as" using skip_ok1 by (auto simp: skip_ok_def)
  then show ?thesis
    using content1 unfolding skip_content_repr [OF r] by (simp add: skip_repr_def entry_bytes_def)
qed

lemma put_db1: "StrataGo_Put [1] (Some [7]) db0 fs0 = Some (None, db1, fs1)"
  by (simp add: StrataGo_Put_def write1 put1 db1_def db0_def signal_flush_def SizeBytes1 DefaultMemtableThreshold_def)

lemma db1_simps [simp]:
  "activeMemtable db1 = mem1" "immutableMemtable db1 = None" "db_wal db1 = wal1" "sstReaders db1 = []"
  "dataDir db1 = sample_dir" "closed db1 = False" "wal_file wal1 = 0" "wal_open wal1" "sequenceNumber wal1 = 1"
  by (simp_all add: db1_def wal1_def)

lemma active1 [simp]: "active_content db1 = [([1], Some [7])]" by (simp add: active_content_def)

lemma durable1: "durable sample_hash db1 fs1"
  using durable_write [OF durable0, of "[1]" "Some [7]" wal1 fs1 mem1]
  by (simp add: write1 put1 wal_fits_def db1_def db0_def signal_flush_def SizeBytes1 DefaultMemtableThreshold_def)

lemma inv1: "db_inv sample_hash db1 fs1" using durable1 by (simp add: durable_def)

lemma live1: "wal_live db1 fs1" using durable1 by (simp add: durable_def)

lemma table1: "table_ok sample_hash [([1], [7])]"
  by (rule table_ok_small) (simp_all add: sst_fits_def max_bloom_keys_def)

lemma fresh1: "fresh_tmp 5 6 db1 fs1"
  by (simp add: fresh_tmp_def)

lemma infos1 [simp]: "disk_infos sample_dir fs1 = []"
  using disk_infos_dir [of fs1 fs0 sample_dir] by simp

lemma can_flush1: "can_flush sample_hash 5 6 db1 fs1"
  by (simp add: can_flush_def fresh1 table1)

lemma get1: "StrataGo_Get sample_hash [1] db1 fs1 = Some (Some [7])"
  using StrataGo_Get_layers [of db1 sample_hash fs1 "[]" "[1]"] inv1
  by (simp add: layered_Get_def db_inv_def)

lemma to_flush1: "skip_content (to_flush db1) = [([1], Some [7])]" by (simp add: to_flush_def)

section \<open>Instances of the theorems about the engine\<close>

lemma engine_delete_instance:
  "\<exists>db' s'. StrataGo_Delete [1] db1 fs1 = Some (None, db', s') \<and> StrataGo_Get sample_hash [1] db' s' = Some None"
proof -
  obtain r db' s' where d: "StrataGo_Delete [1] db1 fs1 = Some (r, db', s')"
    "StrataGo_Get sample_hash [1] db' s' = (if r = None then Some None else StrataGo_Get sample_hash [1] db1 fs1)"
    using engine_delete [OF inv1, of "[1]"] by auto
  have "r = None"
    using d(1) by (auto simp: StrataGo_Delete_def WriteEntry_quiet split: option.splits)
  with d show ?thesis by auto
qed


text \<open>A flush in progress: the written memtable is immutable and the active one is empty.\<close>

definition db2 :: StrataGo where
  "db2 = db1\<lparr>immutableMemtable := Some mem1, activeMemtable := NewSkipList sample_rnd\<rparr>"

lemma inv2: "db_inv sample_hash db2 fs1"
  by (simp add: db2_def db_inv_def mem_ok_def skip_ok1)

theorem flush_failure_drops_memtable_witness:
  "\<exists>db' s'. recoverFromFlushFailure ErrIO db2 fs1 =
      Some (Some (Wrap ''flush failed, data preserved'' ErrIO), db', s') \<and>
    StrataGo_Get sample_hash [1] db2 fs1 = Some (Some [7]) \<and> StrataGo_Get sample_hash [1] db' s' = Some None"
proof -
  have "StrataGo_Get sample_hash [1] db2 fs1 = Some (Some [7])"
    using StrataGo_Get_layers [of db2 sample_hash fs1 "[]" "[1]"] inv2
    by (simp add: layered_Get_def db_inv_def active_content_def imm_content_def db2_def)
  then show ?thesis
    using flush_failure_drops_memtable [OF inv2, of "[]" mem1 ErrIO]
    by (auto simp: db2_def layered_Get_def active_content_def)
qed

lemma flush_rotation_failure_instance:
  "\<exists>db' s'. Flush_rotate sample_rnd db1 (fs1\<lparr>fs_faults := [Fault 0]\<rparr>) = (Some (Some ErrIO), db', s') \<and>
    \<not> wal_open (db_wal db') \<and> (\<exists>db''. StrataGo_Put [2] (Some [8]) db' s' = Some (Some ErrClosed, db'', s'))"
proof -
  let ?s = "fs1\<lparr>fs_faults := [Fault 0]\<rparr>"
  have inv: "db_inv sample_hash db1 ?s" using inv1 by (simp add: db_inv_def)
  obtain db' s' where r: "Flush_rotate sample_rnd db1 ?s = (Some (Some ErrIO), db', s')"
    by (simp add: Flush_rotate_def WAL_Close_def file_Close_def pop_fault_def)
  from flush_rotation_failure [OF inv r, of "[2]" "Some [8]"] r show ?thesis by simp
qed

theorem engine_crash_recovery_witness:
  "\<exists>db'. Open sample_rnd id id sample_dir (torn_fs db1 [2, 0] fs1) = Some (Inr db', fs1) \<and>
    StrataGo_Get sample_hash [1] db' fs1 = Some (Some [7])"
proof -
  have len: "length (fs_data fs1 ! wal_file (db_wal db1)) < 2 ^ 32" by (simp add: enc_record_def)
  have z: "wal_fits (2, [3], [4])" by (simp add: wal_fits_def)
  have "take 2 (enc_record (2, [3], [4])) = [2, 0]"
    by (simp add: enc_record_def wal_record_def PutUint64_def)
  then have "prefix [2, 0] (enc_record (2, [3], [4]))" by (metis take_is_prefix)
  moreover have "[2, 0] \<noteq> enc_record (2, [3], [4])"
    by (rule notI, drule arg_cong [of _ _ length]) (simp add: enc_record_def)
  ultimately have p: "strict_prefix [2, 0] (enc_record (2, [3], [4]))" by (simp add: strict_prefix_def)
  have "fs1\<lparr>fs_faults := []\<rparr> = fs1" by (simp add: fs1_def fs0_def)
  with engine_crash_recovery [OF durable1 _ z p len, of id sample_rnd id] get1 show ?thesis by auto
qed


text \<open>Two logs after an interrupted flush: the older one says 7, the newer one 9.\<close>

definition fs2 :: fs where
  "fs2 = \<lparr>fs_dir = [(wal_name sample_dir, 0), (flushing_name sample_dir, 1)],
     fs_data = [enc_record (1, [1], [9]), enc_record (1, [1], [7])], fs_faults = []\<rparr>"

theorem open_after_interrupted_flush_witness:
  "\<exists>db s'. Open sample_rnd id id sample_dir fs2 = Some (Inr db, s') \<and>
    map_of (active_content db) [1] = Some (Some [7])"
proof -
  have "list_all wal_fits [(1, [1], [9])]" "list_all wal_fits [(1, [1], [7])]" by (simp_all add: wal_fits_def)
  moreover have "length (concat (map enc_record ([(1, [1], [9])] @ replayed id [(1, [1], [7])]))) < 2 ^ 32"
    by (simp add: replayed_def enc_record_def)
  ultimately show ?thesis
    using open_after_interrupted_flush [of fs2 sample_dir 0 1 "[(1, [1], [9])]" "[(1, [1], [7])]" id id sample_rnd]
    by (auto simp: fs2_def enc_record_def)
qed


section \<open>A database with four tables\<close>

definition tab :: "byte \<Rightarrow> (bytes \<times> bytes) list" where
  "tab v = [([1], [v])]"

definition tab_reader :: "int \<Rightarrow> nat \<Rightarrow> byte \<Rightarrow> Reader" where
  "tab_reader t i v = \<lparr>r_path = sst_path sample_dir t, r_file = i, r_open = True, r_index = sst_index (tab v),
     r_filter = Some (LoadBloomFilter (sst_filter sample_hash (tab v)))\<rparr>"

definition db4 :: StrataGo where
  "db4 = db0\<lparr>sstReaders := [tab_reader 1 1 11, tab_reader 2 2 12, tab_reader 3 3 13, tab_reader 4 4 14]\<rparr>"

definition fs4 :: fs where
  "fs4 = \<lparr>fs_dir = [(wal_name sample_dir, 0), (sst_path sample_dir 1, 1), (sst_path sample_dir 2, 2),
       (sst_path sample_dir 3, 3), (sst_path sample_dir 4, 4)],
     fs_data = [[], sst_image sample_hash (tab 11), sst_image sample_hash (tab 12),
       sst_image sample_hash (tab 13), sst_image sample_hash (tab 14)], fs_faults = []\<rparr>"

definition ts4 :: "(bytes \<times> bytes) list list" where
  "ts4 = [tab 11, tab 12, tab 13, tab 14]"

lemma tab_ok: "table_ok sample_hash (tab v)"
  by (rule table_ok_small) (simp_all add: tab_def sst_fits_def max_bloom_keys_def)

lemma sst_path_sample: "sst_path sample_dir t = ''data/n1/engine/data_'' @ Sprintf_d t @ ''.sst''"
  by (simp add: sst_path_def sst_name_def filepath_Join_def sample_dir_def)

lemma dec_small: "dec_nat 1 = ''1''" "dec_nat 2 = ''2''" "dec_nat 3 = ''3''" "dec_nat 4 = ''4''" "dec_nat 6 = ''6''"
  by (code_simp)+

lemma sample_paths: "sst_path sample_dir 1 = ''data/n1/engine/data_1.sst''" "sst_path sample_dir 2 = ''data/n1/engine/data_2.sst''"
  "sst_path sample_dir 3 = ''data/n1/engine/data_3.sst''" "sst_path sample_dir 4 = ''data/n1/engine/data_4.sst''"
  "wal_name sample_dir = ''data/n1/engine/wal.log''"
  by (simp_all add: sst_path_sample Sprintf_d_def dec_small [unfolded One_nat_def])
    (simp add: filepath_Join_def sample_dir_def)

lemma tables4: "db_tables sample_hash fs4 db4 ts4"
  by (simp add: db4_def ts4_def reads_table_def tab_reader_def tab_ok fs4_def)

lemma inv4: "db_inv sample_hash db4 fs4"
  using tables4 by (auto simp: db_inv_def mem_ok_def db4_def tab_reader_def fs4_def)

lemma names4: "names_live db4 fs4"
  by (simp add: names_live_def db4_def tab_reader_def fs4_def sample_paths)

lemma merged4: "merged (rev ts4) = tab 14"
  by (simp add: merged_def ts4_def tab_def)

lemma four_of4:
  assumes "ts4 = ta @ tf @ tb" "length tf = CompactionThreshold"
  shows "ta = [] \<and> tf = ts4 \<and> tb = []"
proof -
  have "length ta + length tb = 0"
    using arg_cong [OF assms(1), of length] assms(2) by (simp add: ts4_def CompactionThreshold_def)
  with assms(1) show ?thesis by simp
qed

lemma can_compact4: "can_compact sample_hash 6 db4 fs4 ts4"
proof -
  have "table_path sample_dir (sst_path sample_dir t)" if "0 < t" "t < 5" for t
    unfolding table_path_def using that by (intro exI [of _ t]) simp
  from this [of 1] this [of 2] this [of 3] this [of 4]
  have "list_all (\<lambda>r. table_path (dataDir db4) (r_path r)) (sstReaders db4)" by (simp add: db4_def tab_reader_def)
  moreover have "list_all (\<lambda>r. map_of (fs_dir fs4) (tmp_name (r_path r) 6) = None) (sstReaders db4)"
    by (simp add: db4_def tab_reader_def fs4_def sample_paths tmp_name_def Sprintf_d_def)
  moreover have "distinct (sstReaders db4)" "quiet fs4" by (simp_all add: db4_def tab_reader_def fs4_def)
  moreover have "table_ok sample_hash (merged (rev ts4))" by (simp add: merged4 tab_ok)
  ultimately show ?thesis
    using names4 four_of4 unfolding can_compact_def list_all_iff by blast
qed

lemma tab_image_small: "int (length (sst_image sample_hash (tab v))) < 10 * (1024 * 1024)"
proof -
  have "length (sst_filter sample_hash (tab v)) = 80"
    using add_hashes_total [OF NewBloomFilter_bit_length, of "length (tab v)" "map (\<lambda>e. HashKey sample_hash (fst e)) (tab v)"]
    by (auto simp: sst_filter_def Bloom_Bytes_def NewBloomFilter_length max_bloom_keys_def tab_def)
  moreover have "length (concat (index_writes (sst_index (tab v)))) \<le> 4 + 2 * length (sst_block (tab v))"
    using index_size [of 0 0 "tab v"] by (simp add: concat_index_writes sst_index_def)
  ultimately show ?thesis by (simp add: sst_image_def Let_def tab_def)
qed

lemma select4: "selectFilesForCompaction db4 fs4 = ((sstReaders db4, 0), fs4)"
proof -
  have "getTier (int (length (sst_image sample_hash (tab v)))) = 0" for v
    using tab_image_small [of v] by (simp add: getTier_def)
  then show ?thesis
    by (simp add: selectFilesForCompaction_def db4_def os_Stat_def fs4_def tab_reader_def Reader_Path_def
        sample_paths fs_file_def CompactionThreshold_def Let_def)
qed


end
