(* ===== verification/Fsm.thy ===== *)
theory Fsm
  imports Durability Interleaving
begin

text \<open>
  The replicated state machine, \<^verbatim>\<open>src/consensus/fsm.go\<close>: applying committed commands to the
  storage engine, taking a snapshot, writing it to a sink and restoring from one. Protocol buffers
  and Raft are third-party code: the encoders and decoders and the operations of the snapshot sink
  are arguments, the order in which a \<^verbatim>\<open>range\<close> loop visits the snapshot's map is another.
  \<^verbatim>\<open>StrataFSM\<close> has the engine as its only field and is identified with it.
\<close>

section \<open>Commands\<close>

text \<open>The enumeration of operations is open: a decoder can deliver a number that has no name.\<close>

datatype Operation = Command_PUT | Command_DELETE | Operation_other int

record Command =
  Op :: Operation
  CKey :: bytes
  CValue :: slice

record KVEntry =
  EKey :: bytes
  EValue :: slice

type_synonym StrataFSM = StrataGo

text \<open>The response is the error, or \<^verbatim>\<open>nil\<close>.\<close>

definition Apply :: "(bytes \<Rightarrow> error + Command) \<Rightarrow> bytes \<Rightarrow> StrataFSM \<Rightarrow> fs \<Rightarrow> (error option \<times> StrataFSM \<times> fs) option" where
  "Apply unmarshal data db s =
     (case unmarshal data of
        Inl e \<Rightarrow> Some (Some (Wrap ''failed to unmarshal Raft command'' e), db, s)
      | Inr cmd \<Rightarrow>
          (case Op cmd of
             Command_PUT \<Rightarrow> StrataGo_Put (CKey cmd) (CValue cmd) db s
           | Command_DELETE \<Rightarrow> StrataGo_Delete (CKey cmd) db s
           | Operation_other _ \<Rightarrow> Some (Some (Errorf ''unknown operation''), db, s)))"

section \<open>Snapshots\<close>

record strataSnapshot =
  snap_state :: "(bytes \<times> slice) list"

definition Snapshot :: "StrataFSM \<Rightarrow> fs \<Rightarrow> ((error + strataSnapshot) \<times> fs) option" where
  "Snapshot db s =
     (case ScanAll db s of
        None \<Rightarrow> None
      | Some (Inl e, s1) \<Rightarrow> Some (Inl (Wrap ''failed to scan database for snapshot'' e), s1)
      | Some (Inr m, s1) \<Rightarrow> Some (Inr \<lparr>snap_state = m\<rparr>, s1))"

text \<open>The loop over the map: for every entry a length and the encoded entry.\<close>

fun persist_entries ::
  "(KVEntry \<Rightarrow> error + bytes) \<Rightarrow> (bytes \<Rightarrow> 'k \<Rightarrow> error option \<times> 'k) \<Rightarrow> (bytes \<times> slice) list \<Rightarrow> 'k
    \<Rightarrow> error option \<times> 'k" where
  "persist_entries marshal sink_Write [] sink = (None, sink)"
| "persist_entries marshal sink_Write ((k, v) # kvs) sink =
     (case marshal \<lparr>EKey = k, EValue = v\<rparr> of
        Inl e \<Rightarrow> (Some e, sink)
      | Inr data \<Rightarrow>
          (case sink_Write (PutUint32 (of_nat (length data))) sink of
             (Some e, sink1) \<Rightarrow> (Some e, sink1)
           | (None, sink1) \<Rightarrow>
               (case sink_Write data sink1 of
                  (Some e, sink2) \<Rightarrow> (Some e, sink2)
                | (None, sink2) \<Rightarrow> persist_entries marshal sink_Write kvs sink2)))"

definition Persist ::
  "(KVEntry \<Rightarrow> error + bytes) \<Rightarrow> (bytes \<Rightarrow> 'k \<Rightarrow> error option \<times> 'k) \<Rightarrow> ('k \<Rightarrow> error option \<times> 'k) \<Rightarrow> ('k \<Rightarrow> 'k)
    \<Rightarrow> ((bytes \<times> slice) list \<Rightarrow> (bytes \<times> slice) list) \<Rightarrow> strataSnapshot \<Rightarrow> 'k \<Rightarrow> error option \<times> 'k" where
  "Persist marshal sink_Write sink_Close sink_Cancel ord snap sink =
     (let (err, sink1) =
        (case persist_entries marshal sink_Write (ord (snap_state snap)) sink of
           (Some e, sink1) \<Rightarrow> (Some e, sink1)
         | (None, sink1) \<Rightarrow> sink_Close sink1)
      in (case err of Some e \<Rightarrow> (Some e, sink_Cancel sink1) | None \<Rightarrow> (None, sink1)))"

definition Release :: "strataSnapshot \<Rightarrow> strataSnapshot" where
  "Release snap = snap"

section \<open>Restore\<close>

function restore_loop ::
  "(bytes \<Rightarrow> error + KVEntry) \<Rightarrow> bytes \<Rightarrow> StrataFSM \<Rightarrow> fs \<Rightarrow> (error option \<times> StrataFSM \<times> fs) option" where
  "restore_loop unmarshal rc db s =
     (case Read_u32 rc of
        Inl EOF \<Rightarrow> Some (None, db, s)
      | Inl e \<Rightarrow> Some (Some (Wrap ''failed to read snapshot length prefix'' (ErrRead e)), db, s)
      | Inr (len, r1) \<Rightarrow>
          (case ReadFull (unat len) r1 of
             Inl e \<Rightarrow> Some (Some (Wrap ''failed to read snapshot payload'' (ErrRead e)), db, s)
           | Inr (buf, r2) \<Rightarrow>
               (case unmarshal buf of
                  Inl e \<Rightarrow> Some (Some (Wrap ''failed to unmarshal snapshot entry'' e), db, s)
                | Inr entry \<Rightarrow>
                    (case StrataGo_Put (EKey entry) (EValue entry) db s of
                       None \<Rightarrow> None
                     | Some (Some e, db1, s1) \<Rightarrow> Some (Some (Wrap ''failed to ingest restored key'' e), db1, s1)
                     | Some (None, db1, s1) \<Rightarrow> restore_loop unmarshal r2 db1 s1))))"
  by pat_completeness auto
termination
  by (relation "measure (\<lambda>(u, rc, db, s). length rc)") (auto dest!: Read_u32_length simp: ReadFull_Inr)

declare restore_loop.simps [simp del]

definition Restore ::
  "(bytes \<Rightarrow> u32) \<Rightarrow> (nat \<Rightarrow> nat) \<Rightarrow> (nat \<Rightarrow> nat) \<Rightarrow> int \<Rightarrow> int \<Rightarrow> (bytes \<Rightarrow> error + KVEntry) \<Rightarrow> bytes
    \<Rightarrow> StrataFSM \<Rightarrow> fs \<Rightarrow> (error option \<times> StrataFSM \<times> fs) option" where
  "Restore murmur rnd rnd' now1 now2 unmarshal rc db s =
     (case Purge murmur rnd rnd' now1 now2 db s of
        None \<Rightarrow> None
      | Some (Some e, db1, s1) \<Rightarrow> Some (Some (Wrap ''failed to purge engine before restore'' e), db1, s1)
      | Some (None, db1, s1) \<Rightarrow> restore_loop unmarshal rc db1 s1)"

section \<open>Applying a log\<close>

text \<open>Raft hands the committed entries to \<^verbatim>\<open>Apply\<close> one after the other.\<close>

definition apply_log ::
  "(bytes \<Rightarrow> error + Command) \<Rightarrow> bytes list \<Rightarrow> StrataFSM \<Rightarrow> fs \<Rightarrow> (error option list \<times> StrataFSM \<times> fs) option" where
  "apply_log unmarshal log db s = run_steps (\<lambda>data st. Apply unmarshal data (fst st) (snd st)) log (db, s)"

text \<open>The write a log entry stands for; an entry that does not decode or has no known operation is none.\<close>

definition effect :: "(bytes \<Rightarrow> error + Command) \<Rightarrow> bytes \<Rightarrow> (bytes \<times> slice) option" where
  "effect unmarshal data =
     (case unmarshal data of
        Inl _ \<Rightarrow> None
      | Inr cmd \<Rightarrow>
          (case Op cmd of
             Command_PUT \<Rightarrow> Some (CKey cmd, CValue cmd)
           | Command_DELETE \<Rightarrow> Some (CKey cmd, None)
           | Operation_other _ \<Rightarrow> None))"

definition refusal :: "(bytes \<Rightarrow> error + Command) \<Rightarrow> bytes \<Rightarrow> error" where
  "refusal unmarshal data =
     (case unmarshal data of
        Inl e \<Rightarrow> Wrap ''failed to unmarshal Raft command'' e
      | Inr cmd \<Rightarrow> Errorf ''unknown operation'')"

lemma Apply_effect:
  "Apply unmarshal data (fst st) (snd st) =
     (case effect unmarshal data of
        None \<Rightarrow> Some (Some (refusal unmarshal data), st)
      | Some (k, v) \<Rightarrow> engine_write k v st)"
  by (simp add: Apply_def effect_def refusal_def engine_write_def StrataGo_Delete_Put
      split: sum.splits Operation.splits)

definition effects :: "(bytes \<Rightarrow> error + Command) \<Rightarrow> bytes list \<Rightarrow> (bytes \<times> slice) list" where
  "effects unmarshal log = List.map_filter (effect unmarshal) log"

lemma effects_simps [simp]:
  "effects unmarshal [] = []"
  "effects unmarshal (data # log) =
     (case effect unmarshal data of None \<Rightarrow> effects unmarshal log | Some e \<Rightarrow> e # effects unmarshal log)"
  by (simp_all add: effects_def List.map_filter_def split: option.splits)

lemma apply_log_simps [simp]:
  "apply_log unmarshal [] db s = Some ([], db, s)"
  "apply_log unmarshal (data # log) db s =
     (case Apply unmarshal data db s of
        None \<Rightarrow> None
      | Some (r, db1, s1) \<Rightarrow>
          (case apply_log unmarshal log db1 s1 of None \<Rightarrow> None | Some (rs, st) \<Rightarrow> Some (r # rs, st)))"
  by (simp_all add: apply_log_def split: option.splits)

lemma apply_log_spec:
  assumes "db_inv murmur db s"
  shows "\<exists>rs db' s'. apply_log unmarshal log db s = Some (rs, db', s') \<and> length rs = length log \<and>
    db_inv murmur db' s' \<and>
    engine_lookup murmur (db', s') = updates (effects unmarshal (accepted log rs)) (engine_lookup murmur (db, s))"
  using engine_kv.run_steps_spec [where f = "\<lambda>data st. Apply unmarshal data (fst st) (snd st)"
      and eff = "effect unmarshal" and bad = "refusal unmarshal" and st = "(db, s)" and xs = log
      and murmur = murmur, OF Apply_effect] assms
  unfolding apply_log_def effects_def engine_ok_def by auto

text \<open>
  Replicas agree. Two replicas whose lookups agree apply the same committed log, each under its
  own fault schedule. Both applications return and keep the invariant; if the replicas gave the same
  responses, as far as being an error goes, their lookups agree afterwards.
\<close>

lemma fsm_replicas_agree:
  assumes "db_inv murmur db1 s1" "db_inv murmur db2 s2"
    and "\<forall>k. StrataGo_Get murmur k db1 s1 = StrataGo_Get murmur k db2 s2"
  shows "\<exists>rs1 db1' s1' rs2 db2' s2'.
    apply_log unmarshal log db1 s1 = Some (rs1, db1', s1') \<and> db_inv murmur db1' s1' \<and>
    apply_log unmarshal log db2 s2 = Some (rs2, db2', s2') \<and> db_inv murmur db2' s2' \<and>
    (map (\<lambda>r. r = None) rs1 = map (\<lambda>r. r = None) rs2 \<longrightarrow>
       (\<forall>k. StrataGo_Get murmur k db1' s1' = StrataGo_Get murmur k db2' s2'))"
proof -
  have "engine_lookup murmur (db1, s1) = engine_lookup murmur (db2, s2)"
    using assms(3) by (simp add: engine_lookup_def fun_eq_iff)
  moreover obtain rs1 db1' s1' where 1: "apply_log unmarshal log db1 s1 = Some (rs1, db1', s1')"
    "db_inv murmur db1' s1'" "engine_lookup murmur (db1', s1')
       = updates (effects unmarshal (accepted log rs1)) (engine_lookup murmur (db1, s1))"
    using apply_log_spec [OF assms(1)] by blast
  moreover obtain rs2 db2' s2' where 2: "apply_log unmarshal log db2 s2 = Some (rs2, db2', s2')"
    "db_inv murmur db2' s2'" "engine_lookup murmur (db2', s2')
       = updates (effects unmarshal (accepted log rs2)) (engine_lookup murmur (db2, s2))"
    using apply_log_spec [OF assms(2)] by blast
  ultimately show ?thesis
    using accepted_same [of rs1 rs2 log] by (auto simp: engine_lookup_Get)
qed

lemma apply_log_writable:
  "db_inv murmur db s \<Longrightarrow> writable db s \<Longrightarrow>
    \<exists>rs db' s'. apply_log unmarshal log db s = Some (rs, db', s') \<and> db_inv murmur db' s' \<and> writable db' s' \<and>
      list_all2 (\<lambda>data r. r = None \<longleftrightarrow> effect unmarshal data \<noteq> None) log rs \<and>
      engine_lookup murmur (db', s') = updates (effects unmarshal log) (engine_lookup murmur (db, s))"
proof (induction log arbitrary: db s)
  case Nil
  then show ?case by simp
next
  case (Cons data log)
  show ?case
  proof (cases "effect unmarshal data")
    case None
    with Cons.IH [OF Cons.prems] show ?thesis
      using Apply_effect [of unmarshal data "(db, s)"] by auto
  next
    case (Some kv)
    obtain k v where kv: "kv = (k, v)" by force
    obtain db1 s1 where p: "StrataGo_Put k v db s = Some (None, db1, s1)" "db_inv murmur db1 s1" "writable db1 s1"
      "engine_lookup murmur (db1, s1) = (engine_lookup murmur (db, s))(k := v)"
      using Put_writable [OF Cons.prems] by blast
    have "Apply unmarshal data db s = Some (None, db1, s1)"
      using Apply_effect [of unmarshal data "(db, s)"] Some kv p(1) by (simp add: engine_write_def)
    moreover obtain rs db' s' where "apply_log unmarshal log db1 s1 = Some (rs, db', s')" "db_inv murmur db' s'"
      "writable db' s'" "list_all2 (\<lambda>data r. r = None \<longleftrightarrow> effect unmarshal data \<noteq> None) log rs"
      "engine_lookup murmur (db', s') = updates (effects unmarshal log) (engine_lookup murmur (db1, s1))"
      using Cons.IH [OF p(2,3)] by blast
    ultimately show ?thesis using Some kv p(4) by simp
  qed
qed

text \<open>
  C6: the state machine refines a map. On a database that accepts writes, applying a log answers
  with an error exactly the entries that do not decode to a known operation, and changes the lookups
  by the writes of the others, in order. Applying the same log once more, as after a restart of the
  node, accepts the same entries and changes no lookup.
\<close>

theorem fsm_log_refines_map:
  assumes "db_inv murmur db s" "writable db s"
  shows "\<exists>rs db' s' rs' db'' s''. apply_log unmarshal log db s = Some (rs, db', s') \<and>
    list_all2 (\<lambda>data r. r = None \<longleftrightarrow> effect unmarshal data \<noteq> None) log rs \<and>
    (\<forall>k. StrataGo_Get murmur k db' s' =
       Some (updates (effects unmarshal log) (\<lambda>k. the (StrataGo_Get murmur k db s)) k)) \<and>
    apply_log unmarshal log db' s' = Some (rs', db'', s'') \<and>
    (\<forall>k. StrataGo_Get murmur k db'' s'' = StrataGo_Get murmur k db' s')"
proof -
  obtain rs db' s' where 1: "apply_log unmarshal log db s = Some (rs, db', s')" "db_inv murmur db' s'"
    "writable db' s'" "list_all2 (\<lambda>data r. r = None \<longleftrightarrow> effect unmarshal data \<noteq> None) log rs"
    "engine_lookup murmur (db', s') = updates (effects unmarshal log) (engine_lookup murmur (db, s))"
    using apply_log_writable [OF assms] by blast
  obtain rs' db'' s'' where 2: "apply_log unmarshal log db' s' = Some (rs', db'', s'')" "db_inv murmur db'' s''"
    "engine_lookup murmur (db'', s'') = updates (effects unmarshal log) (engine_lookup murmur (db', s'))"
    using apply_log_writable [OF 1(2,3)] by blast
  have "engine_lookup murmur (db, s) = (\<lambda>k. the (StrataGo_Get murmur k db s))"
    by (simp add: engine_lookup_def fun_eq_iff)
  with 1 2 show ?thesis by (simp add: engine_lookup_Get updates_idem)
qed

section \<open>Snapshot and restore\<close>

text \<open>The stream is a sequence of frames, each a length and that many bytes.\<close>

definition snap_frame :: "bytes \<Rightarrow> bytes" where
  "snap_frame b = PutUint32 (of_nat (length b)) @ b"

definition snap_decode :: "bytes \<Rightarrow> (bytes \<times> bytes) option" where
  "snap_decode b =
     (case Read_u32 b of
        Inl _ \<Rightarrow> None
      | Inr (len, r1) \<Rightarrow> (case ReadFull (unat len) r1 of Inl _ \<Rightarrow> None | Inr x \<Rightarrow> Some x))"

abbreviation snap_fits :: "bytes \<Rightarrow> bool" where
  "snap_fits b \<equiv> length b < 2 ^ 32"

lemma snap_decode_frame: "snap_fits b \<Longrightarrow> snap_decode (snap_frame b @ rest) = Some (b, rest)"
  by (simp add: snap_decode_def snap_frame_def ReadFull_append unat_of_nat_u32)

lemma snap_decode_sound: "snap_decode p = Some (b, rest) \<Longrightarrow> p = snap_frame b @ rest \<and> snap_fits b"
proof -
  assume "snap_decode p = Some (b, rest)"
  then obtain h where "length h = 4" "p = h @ b @ rest" "length b = unat (Uint32 h)"
    by (auto simp: snap_decode_def Read_u32_def ReadFull_Inr split: sum.splits)
  then show ?thesis using unat_u32_bound [of "Uint32 h"] by (simp add: snap_frame_def PutUint32_Uint32)
qed

interpretation snap_frames: framing snap_frame snap_decode snap_fits
proof
  show "snap_fits b \<Longrightarrow> snap_decode (snap_frame b @ rest) = Some (b, rest)" for b rest
    by (rule snap_decode_frame)
next
  fix b p
  assume b: "snap_fits b" "strict_prefix p (snap_frame b)"
  show "snap_decode p = None"
  proof (rule ccontr)
    assume "snap_decode p \<noteq> None"
    then obtain b' rest where x: "snap_decode p = Some (b', rest)" by auto
    obtain q where q: "snap_frame b = p @ q" "q \<noteq> []"
      using b(2) by (metis prefix_order.less_le prefixE append_Nil2)
    have "snap_decode (p @ q) = Some (b', rest @ q)" using snap_decode_sound [OF x] snap_decode_frame by simp
    moreover have "snap_decode (p @ q) = Some (b, [])" using snap_decode_frame [OF b(1), of "[]"] q(1) by simp
    ultimately show False using q(2) by simp
  qed
qed

text \<open>
  What is relied on of the third-party code. Protocol buffers: what was encoded decodes to the same
  entry, where an empty \<^verbatim>\<open>bytes\<close> field decodes as \<^verbatim>\<open>nil\<close>, and an encoding is below
  2 GiB. The sink: a write that returns no error has appended all its bytes, and closing keeps them.
\<close>

definition proto_entry_law :: "(KVEntry \<Rightarrow> error + bytes) \<Rightarrow> (bytes \<Rightarrow> error + KVEntry) \<Rightarrow> bool" where
  "proto_entry_law marshal unmarshal \<longleftrightarrow> (\<forall>k v b. marshal \<lparr>EKey = k, EValue = v\<rparr> = Inr b \<longrightarrow>
     length b < 2 ^ 31 \<and> unmarshal b = Inr \<lparr>EKey = k, EValue = value_of (bytes_of v)\<rparr>)"

definition sink_law ::
  "(bytes \<Rightarrow> 'k \<Rightarrow> error option \<times> 'k) \<Rightarrow> ('k \<Rightarrow> error option \<times> 'k) \<Rightarrow> ('k \<Rightarrow> bytes) \<Rightarrow> bool" where
  "sink_law sink_Write sink_Close content \<longleftrightarrow>
     (\<forall>b k k'. sink_Write b k = (None, k') \<longrightarrow> content k' = content k @ b) \<and>
     (\<forall>k k'. sink_Close k = (None, k') \<longrightarrow> content k' = content k)"

lemma persist_entries_stream:
  assumes "sink_law sink_Write sink_Close content"
  shows "persist_entries marshal sink_Write es k = (None, k') \<Longrightarrow>
    \<exists>bs. list_all2 (\<lambda>e b. marshal \<lparr>EKey = fst e, EValue = snd e\<rparr> = Inr b) es bs \<and>
      content k' = content k @ concat (map snap_frame bs)"
proof (induction es arbitrary: k)
  case Nil
  then show ?case by simp
next
  case (Cons e es)
  obtain key v where e: "e = (key, v)" by force
  from Cons.prems obtain b k1 k2 where b: "marshal \<lparr>EKey = key, EValue = v\<rparr> = Inr b"
    "sink_Write (PutUint32 (of_nat (length b))) k = (None, k1)" "sink_Write b k1 = (None, k2)"
    "persist_entries marshal sink_Write es k2 = (None, k')"
    by (auto simp: e split: sum.splits prod.splits option.splits)
  then have "content k2 = content k @ snap_frame b" using assms by (simp add: sink_law_def snap_frame_def)
  moreover obtain bs where "list_all2 (\<lambda>e b. marshal \<lparr>EKey = fst e, EValue = snd e\<rparr> = Inr b) es bs"
    "content k' = content k2 @ concat (map snap_frame bs)"
    using Cons.IH [OF b(4)] by blast
  ultimately have "list_all2 (\<lambda>e b. marshal \<lparr>EKey = fst e, EValue = snd e\<rparr> = Inr b) (e # es) (b # bs) \<and>
      content k' = content k @ concat (map snap_frame (b # bs))" using b(1) by (simp add: e)
  then show ?case by blast
qed

lemma restore_loop_step:
  assumes "snap_fits b" "unmarshal b = Inr \<lparr>EKey = k, EValue = v\<rparr>"
    and "StrataGo_Put k v db s = Some (None, db1, s1)"
  shows "restore_loop unmarshal (snap_frame b @ rest) db s = restore_loop unmarshal rest db1 s1"
  using assms
  by (subst restore_loop.simps) (simp add: snap_frame_def ReadFull_append unat_of_nat_u32)

lemma restore_loop_frames:
  "list_all2 (\<lambda>e b. snap_fits b \<and> unmarshal b = Inr \<lparr>EKey = fst e, EValue = snd e\<rparr>) es bs \<Longrightarrow>
    db_inv murmur db s \<Longrightarrow> writable db s \<Longrightarrow>
    \<exists>db' s'. restore_loop unmarshal (concat (map snap_frame bs) @ rest) db s = restore_loop unmarshal rest db' s' \<and>
      db_inv murmur db' s' \<and> writable db' s' \<and>
      engine_lookup murmur (db', s') = updates es (engine_lookup murmur (db, s))"
proof (induction es bs arbitrary: db s rule: list_all2_induct)
  case Nil
  then show ?case by auto
next
  case (Cons e es b bs)
  obtain k v where e: "e = (k, v)" by force
  obtain db1 s1 where p: "StrataGo_Put k v db s = Some (None, db1, s1)" "db_inv murmur db1 s1" "writable db1 s1"
    "engine_lookup murmur (db1, s1) = (engine_lookup murmur (db, s))(k := v)"
    using Put_writable [OF Cons.prems] by blast
  have "restore_loop unmarshal (snap_frame b @ concat (map snap_frame bs) @ rest) db s
      = restore_loop unmarshal (concat (map snap_frame bs) @ rest) db1 s1"
    using Cons.hyps(1) p(1) by (intro restore_loop_step) (simp_all add: e)
  moreover have "updates (e # es) (engine_lookup murmur (db, s)) = updates es (engine_lookup murmur (db1, s1))"
    by (simp only: e updates_simps p(4))
  ultimately show ?case using Cons.IH [OF p(2,3)] by (simp del: updates_simps)
qed

lemma restore_loop_end: "restore_loop unmarshal [] db s = Some (None, db, s)"
  by (subst restore_loop.simps) (simp add: Read_u32_def ReadFull_def)

lemma Persist_stream:
  assumes "sink_law sink_Write sink_Close content"
    and "Persist marshal sink_Write sink_Close sink_Cancel ord snap k = (None, k')"
  shows "\<exists>bs. list_all2 (\<lambda>e b. marshal \<lparr>EKey = fst e, EValue = snd e\<rparr> = Inr b) (ord (snap_state snap)) bs \<and>
      content k' = content k @ concat (map snap_frame bs)"
proof -
  from assms(2) obtain k1 where k1: "persist_entries marshal sink_Write (ord (snap_state snap)) k = (None, k1)"
    "sink_Close k1 = (None, k')"
    by (auto simp: Persist_def Let_def split: option.splits prod.splits)
  then have "content k' = content k1" using assms(1) by (auto simp: sink_law_def)
  with persist_entries_stream [OF assms(1) k1(1)] show ?thesis by simp
qed

text \<open>When a replica can be purged: nothing fails, its log is live and its memtable can be flushed.\<close>

definition can_purge :: "(bytes \<Rightarrow> u32) \<Rightarrow> int \<Rightarrow> int \<Rightarrow> StrataGo \<Rightarrow> fs \<Rightarrow> bool" where
  "can_purge murmur now1 now2 db s \<longleftrightarrow> db_inv murmur db s \<and> quiet s \<and> wal_live db s \<and>
     fresh_tmp now1 now2 db s \<and> \<not> closed db \<and>
     (nothing_to_flush db \<or> table_ok murmur (map plain (skip_content (to_flush db))))"

lemma purged:
  assumes "can_purge murmur now1 now2 db s"
  shows "\<exists>db1 s1. Purge murmur rnd rnd' now1 now2 db s = Some (None, db1, s1) \<and> db_inv murmur db1 s1 \<and>
    writable db1 s1 \<and> engine_lookup murmur (db1, s1) = (\<lambda>_. None)"
proof -
  obtain db1 s1 where p: "Purge murmur rnd rnd' now1 now2 db s = Some (None, db1, s1)" "db_inv murmur db1 s1"
    "quiet s1" "wal_live db1 s1" "\<not> closed db1" "\<forall>k. StrataGo_Get murmur k db1 s1 = Some None"
    using Purge_quiet [of murmur db s now1 now2 rnd rnd'] assms unfolding can_purge_def by blast
  then show ?thesis by (auto simp: writable_def wal_live_def engine_lookup_def)
qed

lemma Restore_entries:
  assumes can: "can_purge murmur now1 now2 db s"
    and bs: "list_all2 (\<lambda>e b. snap_fits b \<and> unmarshal b = Inr \<lparr>EKey = fst e, EValue = snd e\<rparr>) es bs"
  shows "\<exists>db' s'. Restore murmur rnd rnd' now1 now2 unmarshal (concat (map snap_frame bs)) db s = Some (None, db', s') \<and>
    db_inv murmur db' s' \<and> writable db' s' \<and> engine_lookup murmur (db', s') = updates es (\<lambda>_. None)"
proof -
  obtain db1 s1 where p: "Purge murmur rnd rnd' now1 now2 db s = Some (None, db1, s1)" "db_inv murmur db1 s1"
    "writable db1 s1" "engine_lookup murmur (db1, s1) = (\<lambda>_. None)"
    using purged [OF can] by blast
  from restore_loop_frames [OF bs p(2,3), of "[]"] show ?thesis
    by (simp add: Restore_def p(1,4) restore_loop_end)
qed

lemma updates_perm:
  assumes "mset xs = mset m" "distinct (map fst m)"
  shows "updates xs (\<lambda>_. None) k = (case map_of m k of None \<Rightarrow> None | Some v \<Rightarrow> v)"
  using map_of_perm [OF assms] by (simp add: updates_apply)

lemma map_of_apsnd: "map_of (map (apsnd f) m) k = map_option f (map_of m k)"
  by (induction m) auto

text \<open>The stream of a snapshot: frames of entries that decode to what the replica finds.\<close>

lemma snapshot_stream:
  assumes src: "db_inv murmur db s" "db_tables murmur s db ts" "quiet s" "names_live db s"
    and snap: "Snapshot db s = Some (Inr snap, s1)"
    and laws: "proto_entry_law marshal unmarshal" "sink_law sink_Write sink_Close content" "\<forall>m. mset (ord m) = mset m"
    and pers: "Persist marshal sink_Write sink_Close sink_Cancel ord snap k0 = (None, k1)" "content k0 = []"
  shows "\<exists>es bs. content k1 = concat (map snap_frame bs) \<and>
    list_all2 (\<lambda>e b. snap_fits b \<and> unmarshal b = Inr \<lparr>EKey = fst e, EValue = snd e\<rparr>) es bs \<and>
    (\<forall>k. no_ghosts murmur ts k \<longrightarrow> updates es (\<lambda>_. None) k = value_of (bytes_of (engine_lookup murmur (db, s) k))) \<and> s1 = s"
proof -
  let ?m = "snap_state snap"
  obtain m' where m': "ScanAll db s = Some (if closed db then Inl err_closed else Inr m', s)"
    "distinct (map fst m')"
    "\<forall>k. no_ghosts murmur ts k \<longrightarrow> map_of m' k = (case StrataGo_Get murmur k db s of
       Some (Some v) \<Rightarrow> if v = [] then None else Some (Some v) | _ \<Rightarrow> None)"
    using ScanAll_quiet [OF src] by blast
  have "?m = m'" and s1: "s1 = s" using snap by (cases "closed db"; auto simp: Snapshot_def m'(1))+
  note m = m'(2,3) [folded this(1), rule_format]
  obtain bs where bs: "list_all2 (\<lambda>e b. marshal \<lparr>EKey = fst e, EValue = snd e\<rparr> = Inr b) (ord ?m) bs"
    "content k1 = concat (map snap_frame bs)"
    using Persist_stream [OF laws(2) pers(1)] pers(2) by auto
  let ?norm = "apsnd (\<lambda>v. value_of (bytes_of v)) :: bytes \<times> slice \<Rightarrow> bytes \<times> slice"
  have b: "list_all2 (\<lambda>e b. snap_fits b \<and> unmarshal b = Inr \<lparr>EKey = fst e, EValue = snd e\<rparr>) (map ?norm (ord ?m)) bs"
    unfolding list_all2_map1
    by (rule list_all2_mono [OF bs(1)]) (use laws(1) in \<open>fastforce simp: proto_entry_law_def\<close>)
  have d: "distinct (map fst (map ?norm ?m))" using m(1) by (simp add: o_def)
  have "updates (map ?norm (ord ?m)) (\<lambda>_. None) k = (case map_of (map ?norm ?m) k of None \<Rightarrow> None | Some v \<Rightarrow> v)" for k
    by (rule updates_perm [OF _ d]) (simp add: laws(3))
  then have "updates (map ?norm (ord ?m)) (\<lambda>_. None) k = value_of (bytes_of (engine_lookup murmur (db, s) k))"
    if "no_ghosts murmur ts k" for k
    using m(2) [OF that] engine_lookup_Get [OF src(1), of k]
    by (cases "engine_lookup murmur (db, s) k") (auto simp: value_of_def map_of_apsnd)
  with b bs(2) s1 show ?thesis by blast
qed

lemma snapshot_restore:
  assumes src: "db_inv murmur db s" "db_tables murmur s db ts" "quiet s" "names_live db s"
    and snap: "Snapshot db s = Some (Inr snap, s1)"
    and laws: "proto_entry_law marshal unmarshal" "sink_law sink_Write sink_Close content" "\<forall>m. mset (ord m) = mset m"
    and pers: "Persist marshal sink_Write sink_Close sink_Cancel ord snap k0 = (None, k1)" "content k0 = []"
    and can: "can_purge murmur now1 now2 db2 s2"
  shows "\<exists>db' s'. Restore murmur rnd rnd' now1 now2 unmarshal (content k1) db2 s2 = Some (None, db', s') \<and>
    db_inv murmur db' s' \<and> writable db' s' \<and>
    (\<forall>k. no_ghosts murmur ts k \<longrightarrow>
       engine_lookup murmur (db', s') k = value_of (bytes_of (engine_lookup murmur (db, s) k)))"
proof -
  obtain es bs where st: "content k1 = concat (map snap_frame bs)"
    "list_all2 (\<lambda>e b. snap_fits b \<and> unmarshal b = Inr \<lparr>EKey = fst e, EValue = snd e\<rparr>) es bs"
    "\<forall>k. no_ghosts murmur ts k \<longrightarrow> updates es (\<lambda>_. None) k = value_of (bytes_of (engine_lookup murmur (db, s) k))"
    using snapshot_stream [OF src snap laws pers] by blast
  from Restore_entries [OF can st(2), of rnd rnd'] st(1,3) show ?thesis by auto
qed


text \<open>
  Catching up through a snapshot. A replica takes a snapshot and goes on applying committed
  entries; another replica restores from the snapshot and applies the same entries. If both gave the
  same responses, their lookups agree, for every key that is not a ghost of a table and was not bound
  to the empty value when the snapshot was taken.
\<close>

lemma fsm_snapshot_catch_up:
  assumes "db_inv murmur db s" "db_tables murmur s db ts" "quiet s" "names_live db s"
    and "Snapshot db s = Some (Inr snap, s1)"
    and "proto_entry_law marshal unmarshal" "sink_law sink_Write sink_Close content" "\<forall>m. mset (ord m) = mset m"
    and "Persist marshal sink_Write sink_Close sink_Cancel ord snap k0 = (None, k1)" "content k0 = []"
    and "can_purge murmur now1 now2 db2 s2"
    and "apply_log unm log db s = Some (rs, db1, s1')"
  shows "\<exists>db2' s2' rs' db3 s3.
    Restore murmur rnd rnd' now1 now2 unmarshal (content k1) db2 s2 = Some (None, db2', s2') \<and>
    apply_log unm log db2' s2' = Some (rs', db3, s3) \<and>
    (map (\<lambda>r. r = None) rs = map (\<lambda>r. r = None) rs' \<longrightarrow>
       (\<forall>k. no_ghosts murmur ts k \<and> StrataGo_Get murmur k db s \<noteq> Some (Some []) \<longrightarrow>
          StrataGo_Get murmur k db3 s3 = StrataGo_Get murmur k db1 s1'))"
proof -
  obtain db2' s2' where r: "Restore murmur rnd rnd' now1 now2 unmarshal (content k1) db2 s2 = Some (None, db2', s2')"
    "db_inv murmur db2' s2'"
    "\<forall>k. no_ghosts murmur ts k \<longrightarrow>
       engine_lookup murmur (db2', s2') k = value_of (bytes_of (engine_lookup murmur (db, s) k))"
    using snapshot_restore [OF assms(1-11), of rnd rnd'] by blast
  obtain rs' db3 s3 where f: "apply_log unm log db2' s2' = Some (rs', db3, s3)" "db_inv murmur db3 s3"
    "engine_lookup murmur (db3, s3) = updates (effects unm (accepted log rs')) (engine_lookup murmur (db2', s2'))"
    using apply_log_spec [OF r(2)] by blast
  have l: "db_inv murmur db1 s1'"
    "engine_lookup murmur (db1, s1') = updates (effects unm (accepted log rs)) (engine_lookup murmur (db, s))"
    using apply_log_spec [OF assms(1), of unm log] assms(12) by auto
  have "StrataGo_Get murmur k db3 s3 = StrataGo_Get murmur k db1 s1'"
    if "map (\<lambda>r. r = None) rs = map (\<lambda>r. r = None) rs'" "no_ghosts murmur ts k"
      "StrataGo_Get murmur k db s \<noteq> Some (Some [])" for k
  proof -
    have "engine_lookup murmur (db2', s2') k = engine_lookup murmur (db, s) k"
      using r(3) that(2,3) engine_lookup_Get [OF assms(1), of k]
      by (cases "engine_lookup murmur (db, s) k") (auto simp: value_of_def)
    then show ?thesis
      unfolding engine_lookup_Get [OF f(2)] engine_lookup_Get [OF l(1)] f(3) l(2)
      by (simp add: updates_apply accepted_same [OF that(1)] split: option.split)
  qed
  with r(1) f(1) show ?thesis by blast
qed

lemma restore_loop_cut:
  assumes "snap_decode t = None" "t \<noteq> []"
  shows "\<exists>e. restore_loop unmarshal t db s = Some (Some e, db, s)"
proof -
  have "Read_u32 t \<noteq> Inl EOF" using assms(2) by (auto simp: Read_u32_def ReadFull_def)
  with assms(1) show ?thesis
    by (subst restore_loop.simps) (auto simp: snap_decode_def split: sum.splits read_err.splits)
qed


end
