(* ===== verification/Address.thy ===== *)
theory Address
  imports Recovery
begin

text \<open>
  Addresses: the part of \<^verbatim>\<open>net\<close> and \<^verbatim>\<open>strconv\<close> the program uses, and
  \<^verbatim>\<open>getLeaderGRPCAddress\<close> of \<^verbatim>\<open>src/server/kv_server.go\<close>, which derives the gRPC
  address of the leader from its Raft address.
\<close>

section \<open>The standard library\<close>

definition IndexByte :: "char \<Rightarrow> string \<Rightarrow> nat option" where
  "IndexByte c s = (if c \<in> set s then Some (length (takeWhile (\<lambda>x. x \<noteq> c) s)) else None)"

definition LastIndexByte :: "char \<Rightarrow> string \<Rightarrow> nat option" where
  "LastIndexByte c s =
     (if c \<in> set s then Some (length s - 1 - length (takeWhile (\<lambda>x. x \<noteq> c) (rev s))) else None)"

text \<open>\<^verbatim>\<open>net.SplitHostPort\<close>: a host with colons in it must be in brackets.\<close>

definition SplitHostPort :: "string \<Rightarrow> error + (string \<times> string)" where
  "SplitHostPort hostport =
     (case LastIndexByte CHR '':'' hostport of
        None \<Rightarrow> Inl (Errorf ''missing port in address'')
      | Some i \<Rightarrow>
          (case (if hostport ! 0 = CHR ''[''
                 then (case IndexByte CHR '']'' hostport of
                         None \<Rightarrow> Inl (Errorf ''missing ']' in address'')
                       | Some end_ \<Rightarrow>
                           if end_ + 1 = length hostport then Inl (Errorf ''missing port in address'')
                           else if end_ + 1 = i then Inr (take (end_ - 1) (drop 1 hostport), 1, end_ + 1)
                           else if hostport ! (end_ + 1) = CHR '':'' then Inl (Errorf ''too many colons in address'')
                           else Inl (Errorf ''missing port in address''))
                 else if CHR '':'' \<in> set (take i hostport) then Inl (Errorf ''too many colons in address'')
                 else Inr (take i hostport, 0, 0)) of
             Inl e \<Rightarrow> Inl e
           | Inr (host, j, k) \<Rightarrow>
               if CHR ''['' \<in> set (drop j hostport) then Inl (Errorf ''unexpected '[' in address'')
               else if CHR '']'' \<in> set (drop k hostport) then Inl (Errorf ''unexpected ']' in address'')
               else Inr (host, drop (i + 1) hostport)))"

text \<open>\<^verbatim>\<open>strconv.Atoi\<close> on a 64-bit machine.\<close>

definition Atoi :: "string \<Rightarrow> error + int" where
  "Atoi s =
     (let neg = (s \<noteq> [] \<and> hd s = CHR ''-'');
          ds = (if neg \<or> (s \<noteq> [] \<and> hd s = CHR ''+'') then tl s else s);
          v = (if neg then - int (dec_val ds) else int (dec_val ds))
      in if ds = [] \<or> \<not> list_all is_digit ds then Inl (Errorf ''invalid syntax'')
         else if \<not> (- (2 ^ 63) \<le> v \<and> v < 2 ^ 63) then Inl (Errorf ''value out of range'')
         else Inr v)"

section \<open>The address of the leader\<close>

text \<open>The sum is an \<^verbatim>\<open>int\<close> and wraps at 64 bits.\<close>

definition getLeaderGRPCAddress :: "string \<Rightarrow> error + string" where
  "getLeaderGRPCAddress raftAddr =
     (if raftAddr = '''' then Inl (Errorf ''no leader currently elected'')
      else (case SplitHostPort raftAddr of
              Inl e \<Rightarrow> Inl e
            | Inr (host, portStr) \<Rightarrow>
                (case Atoi portStr of
                   Inl e \<Rightarrow> Inl e
                 | Inr raftPort \<Rightarrow>
                     (let grpcPort = sint (of_int (raftPort + 1000) :: u64)
                      in Inr (host @ '':'' @ Sprintf_d grpcPort)))))"

section \<open>Plain and bracketed hosts\<close>

lemma takeWhile_other: "c \<notin> set p \<Longrightarrow> takeWhile (\<lambda>x. x \<noteq> c) (p @ c # q) = p"
  by (induction p) auto

lemma LastIndexByte_append: "c \<notin> set q \<Longrightarrow> LastIndexByte c (p @ c # q) = Some (length p)"
  using takeWhile_other [of c "rev q" "rev p"] by (simp add: LastIndexByte_def)

lemma IndexByte_append: "c \<notin> set p \<Longrightarrow> IndexByte c (p @ c # q) = Some (length p)"
  by (simp add: IndexByte_def takeWhile_other)

definition plain_host :: "string \<Rightarrow> bool" where
  "plain_host host \<longleftrightarrow> set host \<inter> {CHR '':'', CHR ''['', CHR '']''} = {}"

lemma Split_plain:
  assumes "plain_host host" "plain_host port"
  shows "SplitHostPort (host @ '':'' @ port) = Inr (host, port)"
proof -
  have "LastIndexByte CHR '':'' (host @ CHR '':'' # port) = Some (length host)"
    using assms(2) by (intro LastIndexByte_append) (auto simp: plain_host_def)
  moreover have "(host @ CHR '':'' # port) ! 0 \<noteq> CHR ''[''"
    using assms(1) by (cases host) (auto simp: plain_host_def)
  ultimately show ?thesis using assms by (auto simp: SplitHostPort_def plain_host_def)
qed

lemma Split_bracketed:
  assumes "CHR ''['' \<notin> set host" "CHR '']'' \<notin> set host" "plain_host port"
  shows "SplitHostPort (''['' @ host @ '']:'' @ port) = Inr (host, port)"
proof -
  let ?hp = "CHR ''['' # host @ CHR '']'' # CHR '':'' # port"
  have "LastIndexByte CHR '':'' ((CHR ''['' # host @ [CHR '']'']) @ CHR '':'' # port) = Some (length host + 2)"
    using assms(3) by (subst LastIndexByte_append) (auto simp: plain_host_def)
  moreover have "IndexByte CHR '']'' ((CHR ''['' # host) @ CHR '']'' # CHR '':'' # port) = Some (length host + 1)"
    using assms(2) by (subst IndexByte_append) auto
  ultimately show ?thesis using assms by (auto simp: SplitHostPort_def plain_host_def)
qed

lemma Split_colons: "CHR '':'' \<in> set host \<Longrightarrow> CHR ''['' \<notin> set host \<Longrightarrow> plain_host port \<Longrightarrow>
  \<exists>e. SplitHostPort (host @ '':'' @ port) = Inl e"
proof -
  assume h: "CHR '':'' \<in> set host" "CHR ''['' \<notin> set host" "plain_host port"
  have "LastIndexByte CHR '':'' (host @ CHR '':'' # port) = Some (length host)"
    using h(3) by (intro LastIndexByte_append) (auto simp: plain_host_def)
  moreover have "(host @ CHR '':'' # port) ! 0 \<noteq> CHR ''[''" using h(1,2) by (cases host) auto
  ultimately show ?thesis using h by (simp add: SplitHostPort_def)
qed

lemma Atoi_Sprintf_d:
  assumes "- (2 ^ 63) \<le> p" "p < 2 ^ 63"
  shows "Atoi (Sprintf_d p) = Inr p"
proof (cases "p < 0")
  case True
  then show ?thesis
    using assms dec_nat_digits [of "nat (- p)"] by (simp add: Atoi_def Sprintf_d_def dec_val_dec_nat)
next
  case False
  let ?ds = "dec_nat (nat p)"
  have ds: "list_all is_digit ?ds" "?ds \<noteq> []" using dec_nat_digits [of "nat p"] by simp_all
  then have "is_digit (hd ?ds)" by (auto simp: list_all_iff)
  then have "hd ?ds \<noteq> CHR ''-''" "hd ?ds \<noteq> CHR ''+''" using is_digit_char(1) by blast+
  with False ds assms show ?thesis by (simp add: Atoi_def Sprintf_d_def dec_val_dec_nat)
qed

lemma plain_Sprintf_d: "plain_host (Sprintf_d p)"
proof -
  have "\<not> is_digit c" if "c \<in> {CHR '':'', CHR ''['', CHR '']''}" for c
    using that by (auto simp: is_digit_def)
  with dec_nat_digits show ?thesis by (fastforce simp: plain_host_def Sprintf_d_def list_all_iff)
qed

lemma getLeaderGRPC_split:
  assumes "SplitHostPort addr = Inr (host, Sprintf_d p)" "0 \<le> p" "p < 2 ^ 63 - 1000"
  shows "getLeaderGRPCAddress addr = Inr (host @ '':'' @ Sprintf_d (p + 1000))"
proof -
  have "addr \<noteq> []" using assms(1) by (auto simp: SplitHostPort_def LastIndexByte_def)
  moreover have "Atoi (Sprintf_d p) = Inr p" using assms by (intro Atoi_Sprintf_d) simp_all
  moreover have "sint (of_int (p + 1000) :: u64) = p + 1000" using assms by (intro sint_of_int_64) simp_all
  ultimately show ?thesis using assms(1) by (simp add: getLeaderGRPCAddress_def)
qed

lemmas getLeaderGRPC_plain = getLeaderGRPC_split [OF Split_plain [OF _ plain_Sprintf_d]]
lemmas getLeaderGRPC_bracketed = getLeaderGRPC_split [OF Split_bracketed [OF _ _ plain_Sprintf_d]]

text \<open>
  C38: the address of the leader's gRPC server. From a Raft address with a plain host the port is
  moved up by 1000 and the result splits again into the same host and the new port. From a
  bracketed host, as an IPv6 address has, the brackets are lost: where the host has a colon the
  result is not an address any more.
\<close>

theorem grpc_address:
  assumes "0 \<le> p" "p < 2 ^ 63 - 1000"
  shows "(plain_host host \<longrightarrow>
      getLeaderGRPCAddress (host @ '':'' @ Sprintf_d p) = Inr (host @ '':'' @ Sprintf_d (p + 1000)) \<and>
      SplitHostPort (host @ '':'' @ Sprintf_d (p + 1000)) = Inr (host, Sprintf_d (p + 1000))) \<and>
    (CHR ''['' \<notin> set host \<and> CHR '']'' \<notin> set host \<and> CHR '':'' \<in> set host \<longrightarrow>
      getLeaderGRPCAddress (''['' @ host @ '']:'' @ Sprintf_d p) = Inr (host @ '':'' @ Sprintf_d (p + 1000)) \<and>
      (\<exists>e. SplitHostPort (host @ '':'' @ Sprintf_d (p + 1000)) = Inl e))"
  using assms getLeaderGRPC_plain [of host p] getLeaderGRPC_bracketed [of host p]
    Split_plain [OF _ plain_Sprintf_d, of host "p + 1000"] Split_colons [OF _ _ plain_Sprintf_d, of host "p + 1000"]
  by blast

theorem grpc_address_witness:
  "getLeaderGRPCAddress (''127.0.0.1'' @ '':'' @ Sprintf_d 7001) = Inr (''127.0.0.1'' @ '':'' @ Sprintf_d 8001) \<and>
    (\<exists>e. SplitHostPort (''::1'' @ '':'' @ Sprintf_d 8001) = Inl e)"
  using grpc_address [of 7001 "''127.0.0.1''"] grpc_address [of 7001 "''::1''"] by (simp add: plain_host_def)

end
