(* ===== verification/KvServer.thy ===== *)
theory KvServer
  imports Fsm Address
begin

text \<open>
  The gRPC server, \<^verbatim>\<open>src/server/kv_server.go\<close>: writes go through Raft on the leader and are
  forwarded to it by the other nodes over one cached connection; reads are served locally at one of
  three consistency levels. Raft, gRPC and protocol buffers are third-party code: what a request
  sees of them is the record \<open>Env\<close>, an argument of every handler. A \<^verbatim>\<open>*grpc.ClientConn\<close> is
  an index into the list of the connections dialled so far. Handlers are atomic steps, except that
  the two locked phases of \<^verbatim>\<open>getLeaderClient\<close> are separate definitions.
\<close>

section \<open>State and messages\<close>

record conn =
  conn_target :: string
  conn_open :: bool

record KVServer =
  leaderConn :: "nat option"
  leaderAddr :: string
  conns :: "conn list"
  RequestsTotal :: "string \<Rightarrow> nat"

record PutRequest =
  PKey :: bytes
  PValue :: slice

record PutResponse =
  PSuccess :: bool
  PMessage :: string
  PLeaderAddress :: string

datatype ConsistencyLevel = STRONG | FAST | EVENTUAL | ConsistencyLevel_other int

record GetRequest =
  GKey :: bytes
  GConsistency :: ConsistencyLevel

record GetResponse =
  GFound :: bool
  GValue :: slice
  GLeaderAddress :: string

record DeleteRequest =
  DKey :: bytes

record DeleteResponse =
  DSuccess :: bool
  DLeaderAddress :: string

datatype RaftState = Follower | Candidate | Leader | Shutdown

text \<open>
  What one request sees: the state of the Raft node, the answers to its successive questions for the
  leader, the outcome of \<^verbatim>\<open>VerifyLeader\<close>, what \<^verbatim>\<open>Apply\<close> does with the cluster
  (\<open>Inl\<close> the error of the future, \<open>Inr\<close> the response of the state machine), dialling, the
  remote calls with their outgoing metadata, the encoder, and the text of an error.
\<close>

type_synonym md = "(string \<times> string list) list"

record 'c Env =
  raft_State :: RaftState
  raft_Leader :: "nat \<Rightarrow> string"
  raft_VerifyLeader :: "error option"
  raft_Apply :: "bytes \<Rightarrow> 'c \<Rightarrow> (error + error option) \<times> 'c"
  grpc_NewClient :: "string \<Rightarrow> error option"
  client_Put :: "conn \<Rightarrow> md \<Rightarrow> PutRequest \<Rightarrow> 'c \<Rightarrow> (error + PutResponse) \<times> 'c"
  client_Delete :: "conn \<Rightarrow> md \<Rightarrow> DeleteRequest \<Rightarrow> 'c \<Rightarrow> (error + DeleteResponse) \<times> 'c"
  marshal_Command :: "Command \<Rightarrow> error + bytes"
  error_Error :: "error \<Rightarrow> string"

abbreviation ErrNotLeader :: error where
  "ErrNotLeader \<equiv> Errorf ''node is not the leader''"

definition NewKVServer :: KVServer where
  "NewKVServer = \<lparr>leaderConn = None, leaderAddr = '''', conns = [], RequestsTotal = (\<lambda>_. 0)\<rparr>"

definition isProxyRequest :: "md option \<Rightarrow> bool" where
  "isProxyRequest ctx =
     (case ctx of
        None \<Rightarrow> False
      | Some md \<Rightarrow> (case map_of md ''x-stratago-proxy'' of None \<Rightarrow> False | Some vs \<Rightarrow> length vs > 0))"

definition proxy_md :: md where
  "proxy_md = [(''x-stratago-proxy'', [''true''])]"

section \<open>The cached connection to the leader\<close>

definition conn_Close :: "nat \<Rightarrow> KVServer \<Rightarrow> KVServer" where
  "conn_Close i srv = srv\<lparr>conns := (conns srv)[i := (conns srv ! i)\<lparr>conn_open := False\<rparr>]\<rparr>"

definition invalidateLeader :: "KVServer \<Rightarrow> KVServer" where
  "invalidateLeader srv =
     (case leaderConn srv of
        None \<Rightarrow> srv
      | Some i \<Rightarrow> (conn_Close i srv)\<lparr>leaderConn := None, leaderAddr := ''''\<rparr>)"

definition cached_leader :: "string \<Rightarrow> KVServer \<Rightarrow> nat option" where
  "cached_leader grpcAddr srv = (if leaderAddr srv = grpcAddr then leaderConn srv else None)"

text \<open>
  The phase under the write lock: look again, close the stale connection, dial, cache. Where dialling
  fails, the stale connection stays cached although it is closed.
\<close>

definition dial_leader :: "(string \<Rightarrow> error option) \<Rightarrow> string \<Rightarrow> KVServer \<Rightarrow> (error + nat) \<times> KVServer" where
  "dial_leader NewClient grpcAddr srv =
     (case cached_leader grpcAddr srv of
        Some i \<Rightarrow> (Inr i, srv)
      | None \<Rightarrow>
          (let srv1 = (case leaderConn srv of None \<Rightarrow> srv | Some i \<Rightarrow> conn_Close i srv)
           in (case NewClient grpcAddr of
                 Some e \<Rightarrow> (Inl (Wrap ''failed to connect to leader'' e), srv1)
               | None \<Rightarrow>
                   (Inr (length (conns srv1)),
                    srv1\<lparr>conns := conns srv1 @ [\<lparr>conn_target = grpcAddr, conn_open = True\<rparr>],
                         leaderConn := Some (length (conns srv1)), leaderAddr := grpcAddr\<rparr>))))"

definition getLeaderClient :: "'c Env \<Rightarrow> KVServer \<Rightarrow> (error + nat) \<times> KVServer" where
  "getLeaderClient env srv =
     (let currentLeaderAddr = raft_Leader env 0
      in if currentLeaderAddr = '''' then (Inl (Errorf ''no leader currently elected''), srv)
         else (case getLeaderGRPCAddress currentLeaderAddr of
                 Inl e \<Rightarrow> (Inl e, srv)
               | Inr grpcAddr \<Rightarrow>
                   (case cached_leader grpcAddr srv of
                      Some i \<Rightarrow> (Inr i, srv)
                    | None \<Rightarrow> dial_leader (grpc_NewClient env) grpcAddr srv)))"

definition KVServer_Close :: "KVServer \<Rightarrow> KVServer" where
  "KVServer_Close srv = (case leaderConn srv of None \<Rightarrow> srv | Some i \<Rightarrow> conn_Close i srv)"

section \<open>Put\<close>

text \<open>The deferred function: a request that another node forwarded is not counted again.\<close>

definition count_request :: "bool \<Rightarrow> string \<Rightarrow> KVServer \<Rightarrow> KVServer" where
  "count_request isInternalProxy op srv =
     (if isInternalProxy then srv
      else srv\<lparr>RequestsTotal := (RequestsTotal srv)(op := RequestsTotal srv op + 1)\<rparr>)"

definition put_forward ::
  "'c Env \<Rightarrow> PutRequest \<Rightarrow> KVServer \<Rightarrow> 'c \<Rightarrow> (PutResponse \<times> error option) \<times> KVServer \<times> 'c" where
  "put_forward env req srv c =
     (case getLeaderClient env srv of
        (Inl e, srv1) \<Rightarrow> ((\<lparr>PSuccess = False, PMessage = error_Error env e, PLeaderAddress = ''''\<rparr>, None), srv1, c)
      | (Inr client, srv1) \<Rightarrow>
          (case client_Put env (conns srv1 ! client) proxy_md req c of
             (Inl e, c1) \<Rightarrow>
               ((\<lparr>PSuccess = False, PMessage = ''leader unavailable, connection reset'', PLeaderAddress = ''''\<rparr>, Some e),
                invalidateLeader srv1, c1)
           | (Inr resp, c1) \<Rightarrow> ((resp, None), srv1, c1)))"

definition put_propose :: "'c Env \<Rightarrow> PutRequest \<Rightarrow> 'c \<Rightarrow> PutResponse \<times> 'c" where
  "put_propose env req c =
     (case marshal_Command env \<lparr>Op = Command_PUT, CKey = PKey req, CValue = PValue req\<rparr> of
        Inl e \<Rightarrow> (\<lparr>PSuccess = False, PMessage = ''failed to marshal command: '' @ error_Error env e, PLeaderAddress = ''''\<rparr>, c)
      | Inr eventBytes \<Rightarrow>
          (case raft_Apply env eventBytes c of
             (Inl e, c1) \<Rightarrow>
               (\<lparr>PSuccess = False, PMessage =
                   (if e = ErrNotLeader then ''leadership lost during write, please retry''
                    else error_Error env e), PLeaderAddress = ''''\<rparr>, c1)
           | (Inr (Some e), c1) \<Rightarrow> (\<lparr>PSuccess = False, PMessage = error_Error env e, PLeaderAddress = ''''\<rparr>, c1)
           | (Inr None, c1) \<Rightarrow> (\<lparr>PSuccess = True, PMessage = ''Key saved successfully'', PLeaderAddress = ''''\<rparr>, c1)))"

definition KVServer_Put ::
  "'c Env \<Rightarrow> md option \<Rightarrow> PutRequest \<Rightarrow> KVServer \<Rightarrow> 'c \<Rightarrow> (PutResponse \<times> error option) \<times> KVServer \<times> 'c" where
  "KVServer_Put env ctx req srv c =
     (let isInternalProxy = isProxyRequest ctx
      in (case (if raft_State env \<noteq> Leader then put_forward env req srv c
                else (case put_propose env req c of (resp, c1) \<Rightarrow> ((resp, None), srv, c1))) of
            (res, srv1, c1) \<Rightarrow> (res, count_request isInternalProxy ''Put'' srv1, c1)))"

section \<open>Get\<close>

text \<open>
  \<^verbatim>\<open>Get\<close> answers with a response or a status error; a level without a name passes through the
  \<^verbatim>\<open>switch\<close> without a check. \<open>None\<close> is a panic of the engine.
\<close>

definition get_check :: "'c Env \<Rightarrow> ConsistencyLevel \<Rightarrow> error option" where
  "get_check env level =
     (let leader = (if raft_Leader env 0 = '''' then ''unknown'' else raft_Leader env 0)
      in (case level of
            STRONG \<Rightarrow>
              (case raft_VerifyLeader env of
                 None \<Rightarrow> None
               | Some _ \<Rightarrow> Some (Errorf (''stale read prevented: not the leader (leader: '' @ leader @ '')'')))
          | FAST \<Rightarrow>
              (if raft_State env \<noteq> Leader
               then Some (Errorf (''not the leader (leader: '' @ leader @ '')'')) else None)
          | _ \<Rightarrow> None))"

definition KVServer_Get ::
  "(bytes \<Rightarrow> u32) \<Rightarrow> 'c Env \<Rightarrow> GetRequest \<Rightarrow> KVServer \<Rightarrow> StrataGo \<Rightarrow> fs \<Rightarrow> ((error + GetResponse) \<times> KVServer) option" where
  "KVServer_Get murmur env req srv db s =
     (case get_check env (GConsistency req) of
        Some e \<Rightarrow> Some (Inl e, count_request False ''Get'' srv)
      | None \<Rightarrow>
          (case StrataGo_Get murmur (GKey req) db s of
             None \<Rightarrow> None
           | Some val \<Rightarrow>
               Some (Inr \<lparr>GFound = (val \<noteq> None), GValue = val, GLeaderAddress = raft_Leader env 0\<rparr>,
                     count_request False ''Get'' srv)))"

section \<open>Delete\<close>

definition delete_forward ::
  "'c Env \<Rightarrow> DeleteRequest \<Rightarrow> KVServer \<Rightarrow> 'c \<Rightarrow> (DeleteResponse \<times> error option) \<times> KVServer \<times> 'c" where
  "delete_forward env req srv c =
     (case getLeaderClient env srv of
        (Inl e, srv1) \<Rightarrow> ((\<lparr>DSuccess = False, DLeaderAddress = raft_Leader env 1\<rparr>, Some e), srv1, c)
      | (Inr client, srv1) \<Rightarrow>
          (case client_Delete env (conns srv1 ! client) proxy_md req c of
             (Inl e, c1) \<Rightarrow>
               ((\<lparr>DSuccess = False, DLeaderAddress = ''''\<rparr>, Some e), invalidateLeader srv1, c1)
           | (Inr resp, c1) \<Rightarrow> ((resp, None), srv1, c1)))"

text \<open>The response of the state machine is not looked at.\<close>

definition delete_propose :: "'c Env \<Rightarrow> DeleteRequest \<Rightarrow> 'c \<Rightarrow> (DeleteResponse \<times> error option) \<times> 'c" where
  "delete_propose env req c =
     (case marshal_Command env \<lparr>Op = Command_DELETE, CKey = DKey req, CValue = None\<rparr> of
        Inl e \<Rightarrow> ((\<lparr>DSuccess = False, DLeaderAddress = raft_Leader env 0\<rparr>, Some (Wrap ''failed to marshal command'' e)), c)
      | Inr eventBytes \<Rightarrow>
          (case raft_Apply env eventBytes c of
             (Inl e, c1) \<Rightarrow>
               (if e = ErrNotLeader
                then (\<lparr>DSuccess = False, DLeaderAddress = raft_Leader env 0\<rparr>,
                      Some (Errorf ''leadership lost during write, please retry''))
                else (\<lparr>DSuccess = False, DLeaderAddress = ''''\<rparr>, None), c1)
           | (Inr _, c1) \<Rightarrow> ((\<lparr>DSuccess = True, DLeaderAddress = ''''\<rparr>, None), c1)))"

definition KVServer_Delete ::
  "'c Env \<Rightarrow> md option \<Rightarrow> DeleteRequest \<Rightarrow> KVServer \<Rightarrow> 'c \<Rightarrow> (DeleteResponse \<times> error option) \<times> KVServer \<times> 'c" where
  "KVServer_Delete env ctx req srv c =
     (let isInternalProxy = isProxyRequest ctx
      in (case (if raft_State env \<noteq> Leader then delete_forward env req srv c
                else (case delete_propose env req c of (res, c1) \<Rightarrow> (res, srv, c1))) of
            (res, srv1, c1) \<Rightarrow> (res, count_request isInternalProxy ''Delete'' srv1, c1)))"

section \<open>The connection cache\<close>

text \<open>
  The cached connection goes to the cached address, and no other connection is open; a live cache
  holds an open connection or none.
\<close>

definition cache_inv :: "KVServer \<Rightarrow> bool" where
  "cache_inv srv \<longleftrightarrow>
     (case leaderConn srv of
        None \<Rightarrow> True
      | Some i \<Rightarrow> i < length (conns srv) \<and> conn_target (conns srv ! i) = leaderAddr srv) \<and>
     (\<forall>j < length (conns srv). conn_open (conns srv ! j) \<longrightarrow> leaderConn srv = Some j)"

definition cache_live :: "KVServer \<Rightarrow> bool" where
  "cache_live srv \<longleftrightarrow> cache_inv srv \<and>
     (case leaderConn srv of None \<Rightarrow> True | Some i \<Rightarrow> conn_open (conns srv ! i))"

lemmas cache_defs = cache_inv_def cache_live_def

lemma cache_count [simp]:
  "cache_inv (count_request b op srv) = cache_inv srv" "cache_live (count_request b op srv) = cache_live srv"
  "leaderConn (count_request b op srv) = leaderConn srv" "conns (count_request b op srv) = conns srv"
  by (simp_all add: cache_defs count_request_def split: option.splits)

lemma conns_conn_Close [simp]:
  "conns (conn_Close i srv) = (conns srv)[i := (conns srv ! i)\<lparr>conn_open := False\<rparr>]"
  "leaderConn (conn_Close i srv) = leaderConn srv" "leaderAddr (conn_Close i srv) = leaderAddr srv"
  by (simp_all add: conn_Close_def)

lemma cache_invalidate: "cache_inv srv \<Longrightarrow> cache_live (invalidateLeader srv) \<and> leaderConn (invalidateLeader srv) = None"
  by (cases "leaderConn srv") (auto simp: invalidateLeader_def cache_defs nth_list_update)

text \<open>Closing the stale connection leaves no connection open.\<close>

lemma close_stale:
  assumes "cache_inv srv"
  shows "cache_inv (case leaderConn srv of None \<Rightarrow> srv | Some i \<Rightarrow> conn_Close i srv) \<and>
    (\<forall>c \<in> set (conns (case leaderConn srv of None \<Rightarrow> srv | Some i \<Rightarrow> conn_Close i srv)). \<not> conn_open c)"
proof (cases "leaderConn srv")
  case None
  with assms show ?thesis by (auto simp: cache_inv_def in_set_conv_nth)
next
  case (Some i)
  with assms show ?thesis by (auto simp: cache_inv_def all_set_conv_all_nth nth_list_update)
qed

lemma dial_leader_cache:
  assumes "cache_inv srv" "dial_leader NewClient addr srv = (res, srv')"
  shows "cache_inv srv' \<and>
    (case res of
       Inl _ \<Rightarrow> NewClient addr \<noteq> None
     | Inr i \<Rightarrow> leaderConn srv' = Some i \<and> leaderAddr srv' = addr \<and> (cache_live srv \<longrightarrow> cache_live srv'))"
proof (cases "cached_leader addr srv")
  case (Some i)
  with assms show ?thesis by (auto simp: dial_leader_def cached_leader_def split: if_splits)
next
  case None
  let ?srv1 = "case leaderConn srv of None \<Rightarrow> srv | Some i \<Rightarrow> conn_Close i srv"
  show ?thesis
  proof (cases "NewClient addr")
    case dial: None
    then have r: "res = Inr (length (conns ?srv1))"
      "srv' = ?srv1\<lparr>conns := conns ?srv1 @ [\<lparr>conn_target = addr, conn_open = True\<rparr>],
                     leaderConn := Some (length (conns ?srv1)), leaderAddr := addr\<rparr>"
      using assms(2) None by (simp_all add: dial_leader_def Let_def)
    have "\<not> conn_open (conns ?srv1 ! j)" if "j < length (conns ?srv1)" for j
      using close_stale [OF assms(1)] that by auto
    then show ?thesis unfolding r by (auto simp: cache_defs nth_append)
  next
    case (Some e)
    with assms None close_stale [OF assms(1)] show ?thesis by (auto simp: dial_leader_def Let_def)
  qed
qed

lemma getLeaderClient_cache:
  assumes "cache_inv srv" "getLeaderClient env srv = (res, srv')"
  shows "cache_inv srv' \<and>
    (case res of
       Inl _ \<Rightarrow> (\<forall>a. grpc_NewClient env a = None) \<longrightarrow> cache_live srv \<longrightarrow> cache_live srv'
     | Inr i \<Rightarrow> leaderConn srv' = Some i \<and> getLeaderGRPCAddress (raft_Leader env 0) = Inr (leaderAddr srv') \<and>
         (cache_live srv \<longrightarrow> cache_live srv'))"
proof (cases "getLeaderGRPCAddress (raft_Leader env 0)")
  case (Inl e)
  with assms show ?thesis by (auto simp: getLeaderClient_def Let_def split: if_splits)
next
  case (Inr addr)
  then have "raft_Leader env 0 \<noteq> ''''" by (auto simp: getLeaderGRPCAddress_def)
  with Inr assms(2) have "cached_leader addr srv \<noteq> None \<and> res = Inr (the (cached_leader addr srv)) \<and> srv' = srv \<or>
      dial_leader (grpc_NewClient env) addr srv = (res, srv')"
    by (auto simp: getLeaderClient_def Let_def split: option.splits)
  with dial_leader_cache [OF assms(1)] assms(1) Inr show ?thesis
    by (fastforce simp: cached_leader_def split: if_splits sum.splits)
qed

text \<open>The servers a run of requests can reach, each request with its own view of Raft and gRPC.\<close>

inductive server_run :: "('c Env \<Rightarrow> bool) \<Rightarrow> KVServer \<Rightarrow> bool" for P where
  run_start: "server_run P NewKVServer"
| run_put: "server_run P srv \<Longrightarrow> P env \<Longrightarrow> KVServer_Put env ctx req srv c = (res, srv', c') \<Longrightarrow> server_run P srv'"
| run_delete: "server_run P srv \<Longrightarrow> P env \<Longrightarrow> KVServer_Delete env ctx req srv c = (res, srv', c') \<Longrightarrow> server_run P srv'"
| run_get: "server_run P srv \<Longrightarrow> P env \<Longrightarrow> KVServer_Get murmur env req srv db s = Some (res, srv') \<Longrightarrow> server_run P srv'"

definition cache_ok :: "bool \<Rightarrow> KVServer \<Rightarrow> bool" where
  "cache_ok live srv \<longleftrightarrow> cache_inv srv \<and> (live \<longrightarrow> cache_live srv)"

lemma getLeaderClient_ok:
  assumes "cache_ok live srv" "live \<Longrightarrow> \<forall>a. grpc_NewClient env a = None" "getLeaderClient env srv = (res, srv')"
  shows "cache_ok live srv'"
  using getLeaderClient_cache [OF _ assms(3)] assms(1,2) by (cases res) (auto simp: cache_ok_def)

lemma invalidate_ok: "cache_ok live srv \<Longrightarrow> cache_ok live (invalidateLeader srv)"
  using cache_invalidate by (auto simp: cache_ok_def cache_live_def)

lemma forward_ok:
  assumes "cache_ok live srv" "live \<Longrightarrow> \<forall>a. grpc_NewClient env a = None"
  shows "put_forward env req srv c = (res, srv', c') \<Longrightarrow> cache_ok live srv'"
    and "delete_forward env req' srv c = (res', srv', c') \<Longrightarrow> cache_ok live srv'"
proof -
  obtain r srv1 where g: "getLeaderClient env srv = (r, srv1)" by force
  have ok: "cache_ok live srv1" by (rule getLeaderClient_ok [OF assms g])
  show "put_forward env req srv c = (res, srv', c') \<Longrightarrow> cache_ok live srv'"
    using ok invalidate_ok [OF ok] by (auto simp: put_forward_def g split: sum.splits prod.splits)
  show "delete_forward env req' srv c = (res', srv', c') \<Longrightarrow> cache_ok live srv'"
    using ok invalidate_ok [OF ok] by (auto simp: delete_forward_def g split: sum.splits prod.splits)
qed

lemma cache_ok_count [simp]: "cache_ok live (count_request b op srv) = cache_ok live srv"
  by (simp add: cache_ok_def)

text \<open>
  C20: the connections of a server. Whatever requests it has served, and whatever Raft and gRPC
  answered, at most one connection is open, and it is the cached one, for the cached address; as
  long as no dialling fails the cached connection is open.
\<close>

theorem server_connections:
  assumes "server_run P srv"
  shows "cache_inv srv \<and> ((\<forall>env a. P env \<longrightarrow> grpc_NewClient env a = None) \<longrightarrow> cache_live srv)"
proof -
  have "cache_ok live srv" if "live \<longrightarrow> (\<forall>env. P env \<longrightarrow> (\<forall>a. grpc_NewClient env a = None))" for live
    using assms
  proof induction
    case run_start
    then show ?case by (simp add: cache_ok_def cache_defs NewKVServer_def)
  next
    case (run_put srv env ctx req c res srv' c')
    with that show ?case
      using forward_ok(1) [of live srv env req c]
      by (auto simp: KVServer_Put_def Let_def split: if_splits prod.splits)
  next
    case (run_delete srv env ctx req c res srv' c')
    with that show ?case
      using forward_ok(2) [where live = live and srv = srv and env = env and c = c and req' = req]
      by (auto simp: KVServer_Delete_def Let_def split: if_splits prod.splits)
  next
    case (run_get srv env murmur req db s res srv')
    then show ?case by (auto simp: KVServer_Get_def split: option.splits)
  qed
  from this [of False] this [of True] show ?thesis by (auto simp: cache_ok_def)
qed

text \<open>
  C37: a failed dial poisons the cache. When the leader moves and dialling the new one fails, the old
  connection has been closed but is still cached under the old address: a server that sees the old
  leader again is handed the closed connection.
\<close>

theorem stale_connection_after_failed_dial:
  assumes "cache_live srv" "leaderConn srv = Some i"
    and "getLeaderGRPCAddress (raft_Leader env1 0) = Inr addr" "addr \<noteq> leaderAddr srv"
    and "grpc_NewClient env1 addr = Some e"
    and "getLeaderGRPCAddress (raft_Leader env2 0) = Inr (leaderAddr srv)"
  shows "\<exists>srv1. getLeaderClient env1 srv = (Inl (Wrap ''failed to connect to leader'' e), srv1) \<and>
    getLeaderClient env2 srv1 = (Inr i, srv1) \<and> \<not> conn_open (conns srv1 ! i)"
proof -
  have "raft_Leader env1 0 \<noteq> ''''" "raft_Leader env2 0 \<noteq> ''''"
    using assms(3,6) by (auto simp: getLeaderGRPCAddress_def)
  moreover have "i < length (conns srv)" using assms(1,2) by (simp add: cache_defs)
  ultimately show ?thesis
    using assms(2-6) by (auto simp: getLeaderClient_def Let_def cached_leader_def dial_leader_def)
qed

section \<open>Writes\<close>

text \<open>
  What is relied on of the third-party code. Protocol buffers: a command decodes to itself, where an
  empty value decodes as \<^verbatim>\<open>nil\<close>. Raft: an \<^verbatim>\<open>Apply\<close> whose future reports no error has
  applied further committed entries and then this one, and delivers the response of the state machine.
\<close>

definition proto_command_law :: "(Command \<Rightarrow> error + bytes) \<Rightarrow> (bytes \<Rightarrow> error + Command) \<Rightarrow> bool" where
  "proto_command_law marshal unmarshal \<longleftrightarrow>
     (\<forall>c b. marshal c = Inr b \<longrightarrow> unmarshal b = Inr (c\<lparr>CValue := value_of (bytes_of (CValue c))\<rparr>))"

definition raft_apply_law ::
  "(bytes \<Rightarrow> error + Command) \<Rightarrow> (bytes \<Rightarrow> StrataGo \<times> fs \<Rightarrow> (error + error option) \<times> StrataGo \<times> fs) \<Rightarrow> bool" where
  "raft_apply_law unmarshal apply \<longleftrightarrow>
     (\<forall>b db s r db' s'. apply b (db, s) = (Inr r, (db', s')) \<longrightarrow>
        (\<exists>log rs db1 s1. apply_log unmarshal log db s = Some (rs, db1, s1) \<and>
           Apply unmarshal b db1 s1 = Some (r, db', s')))"

lemma raft_apply_engine:
  assumes "raft_apply_law unmarshal apply" "db_inv murmur db s" "apply b (db, s) = (Inr r, (db', s'))"
    and "effect unmarshal b = Some (k, v)"
  shows "\<exists>log rs db1 s1. apply_log unmarshal log db s = Some (rs, db1, s1) \<and> db_inv murmur db' s' \<and>
    (\<forall>k'. StrataGo_Get murmur k' db' s' =
       (if r = None \<and> k' = k then Some v else StrataGo_Get murmur k' db1 s1))"
proof -
  obtain log rs db1 s1 where l: "apply_log unmarshal log db s = Some (rs, db1, s1)"
    "Apply unmarshal b db1 s1 = Some (r, db', s')"
    using assms(1,3) unfolding raft_apply_law_def by blast
  have inv: "db_inv murmur db1 s1" using apply_log_spec [OF assms(2), of unmarshal log] l(1) by auto
  have "StrataGo_Put k v db1 s1 = Some (r, db', s')"
    using l(2) Apply_effect [of unmarshal b "(db1, s1)"] assms(4) by (simp add: engine_write_def)
  with StrataGo_Put_cases [OF inv, of k v] l(1) show ?thesis by auto
qed

lemma proto_effect:
  assumes "proto_command_law marshal unmarshal"
  shows "marshal \<lparr>Op = Command_PUT, CKey = k, CValue = v\<rparr> = Inr b \<Longrightarrow>
      effect unmarshal b = Some (k, value_of (bytes_of v))"
    and "marshal \<lparr>Op = Command_DELETE, CKey = k, CValue = None\<rparr> = Inr b \<Longrightarrow> effect unmarshal b = Some (k, None)"
  using assms by (auto simp: proto_command_law_def effect_def value_of_def)

lemma put_propose_success:
  assumes "put_propose env req c = (resp, c')" "PSuccess resp"
  shows "\<exists>b. marshal_Command env \<lparr>Op = Command_PUT, CKey = PKey req, CValue = PValue req\<rparr> = Inr b \<and>
    raft_Apply env b c = (Inr None, c')"
  using assms unfolding put_propose_def by (auto split: sum.splits prod.splits option.splits)

text \<open>
  C8: an acknowledged write. When the leader answers a \<^verbatim>\<open>Put\<close> with success, the key has the
  value of the request in the leader's engine; a \<^verbatim>\<open>Put\<close> of an empty value succeeds too, and
  leaves the key absent. When the state machine refused the write the answer is no success, and the
  lookups are those before the entry. The leader never answers with a gRPC error.
\<close>

theorem kv_put_acknowledged:
  assumes "raft_State env = Leader" "db_inv murmur db s"
    and "proto_command_law (marshal_Command env) unmarshal" "raft_apply_law unmarshal (raft_Apply env)"
    and "KVServer_Put env ctx req srv (db, s) = ((resp, err), srv', (db', s'))"
  shows "err = None \<and>
    (PSuccess resp \<longrightarrow> db_inv murmur db' s' \<and>
       StrataGo_Get murmur (PKey req) db' s' = Some (value_of (bytes_of (PValue req)))) \<and>
    (\<forall>b e. marshal_Command env \<lparr>Op = Command_PUT, CKey = PKey req, CValue = PValue req\<rparr> = Inr b \<and>
         raft_Apply env b (db, s) = (Inr (Some e), (db', s')) \<longrightarrow>
       \<not> PSuccess resp \<and>
       (\<exists>log rs db1 s1. apply_log unmarshal log db s = Some (rs, db1, s1) \<and>
          (\<forall>k. StrataGo_Get murmur k db' s' = StrataGo_Get murmur k db1 s1)))"
proof -
  let ?cmd = "\<lparr>Op = Command_PUT, CKey = PKey req, CValue = PValue req\<rparr>"
  have p: "put_propose env req (db, s) = (resp, (db', s'))" "err = None"
    using assms(1,5) by (auto simp: KVServer_Put_def Let_def split: prod.splits)
  have "db_inv murmur db' s' \<and> StrataGo_Get murmur (PKey req) db' s' = Some (value_of (bytes_of (PValue req)))"
    if ok: "PSuccess resp"
  proof -
    obtain b where b: "marshal_Command env ?cmd = Inr b" "raft_Apply env b (db, s) = (Inr None, (db', s'))"
      using put_propose_success [OF p(1) ok] by blast
    from raft_apply_engine [OF assms(4,2) b(2) proto_effect(1) [OF assms(3) b(1)]] show ?thesis by auto
  qed
  moreover have "\<not> PSuccess resp \<and> (\<exists>log rs db1 s1. apply_log unmarshal log db s = Some (rs, db1, s1) \<and>
      (\<forall>k. StrataGo_Get murmur k db' s' = StrataGo_Get murmur k db1 s1))"
    if b: "marshal_Command env ?cmd = Inr b" "raft_Apply env b (db, s) = (Inr (Some e), (db', s'))" for b e
    using raft_apply_engine [OF assms(4,2) b(2) proto_effect(1) [OF assms(3) b(1)]] p(1) b
    by (auto simp: put_propose_def)
  ultimately show ?thesis using p(2) by blast
qed

text \<open>
  C23: \<^verbatim>\<open>Delete\<close> on the leader does not look at the response. Its success means only that the
  entry was applied: if the state machine accepted it the key is absent, and if the state machine
  refused it, the answer is a success all the same and no lookup has changed by the entry.
\<close>

theorem kv_delete_acknowledged:
  assumes "raft_State env = Leader" "db_inv murmur db s"
    and "proto_command_law (marshal_Command env) unmarshal" "raft_apply_law unmarshal (raft_Apply env)"
    and "marshal_Command env \<lparr>Op = Command_DELETE, CKey = DKey req, CValue = None\<rparr> = Inr b"
    and "raft_Apply env b (db, s) = (Inr r, (db', s'))"
  shows "\<exists>srv'. KVServer_Delete env ctx req srv (db, s) =
      ((\<lparr>DSuccess = True, DLeaderAddress = ''''\<rparr>, None), srv', (db', s')) \<and>
    (r = None \<longrightarrow> StrataGo_Get murmur (DKey req) db' s' = Some None) \<and>
    (r \<noteq> None \<longrightarrow> (\<exists>log rs db1 s1. apply_log unmarshal log db s = Some (rs, db1, s1) \<and>
       (\<forall>k. StrataGo_Get murmur k db' s' = StrataGo_Get murmur k db1 s1)))"
proof -
  have "\<exists>srv'. KVServer_Delete env ctx req srv (db, s) =
      ((\<lparr>DSuccess = True, DLeaderAddress = []\<rparr>, None), srv', (db', s'))"
    using assms(1,5,6) by (simp add: KVServer_Delete_def Let_def delete_propose_def)
  with raft_apply_engine [OF assms(4,2,6) proto_effect(2) [OF assms(3,5)]] show ?thesis by fastforce
qed

section \<open>Reads\<close>


section \<open>Forwarding\<close>

lemma getLeaderClient_counts: "getLeaderClient env srv = (r, srv1) \<Longrightarrow> RequestsTotal srv1 = RequestsTotal srv"
  by (auto simp: getLeaderClient_def dial_leader_def Let_def conn_Close_def
      split: if_splits sum.splits option.splits)

text \<open>The remote call as the leader serves it: a response, or the error of the handler.\<close>

definition serve_Put :: "'c Env \<Rightarrow> conn \<Rightarrow> md \<Rightarrow> PutRequest \<Rightarrow> KVServer \<times> 'c \<Rightarrow> (error + PutResponse) \<times> KVServer \<times> 'c" where
  "serve_Put envL con md req st =
     (case KVServer_Put envL (Some md) req (fst st) (snd st) of
        ((resp, None), srv', c') \<Rightarrow> (Inr resp, srv', c')
      | ((_, Some e), srv', c') \<Rightarrow> (Inl e, srv', c'))"

text \<open>
  C21: a forwarded write. A node that is not the leader and reaches it over its connection gives the
  client the leader's own answer, with the leader's effect on the cluster; and the two nodes together
  count the request once.
\<close>

theorem kv_put_forwarded:
  assumes "raft_State env \<noteq> Leader" "client_Put env = serve_Put envL" "raft_State envL = Leader"
    and "getLeaderClient env srv = (Inr i, srv1)" "\<not> isProxyRequest ctx"
  shows "\<exists>resp c' srv' srvL'. put_propose envL req c = (resp, c') \<and>
    KVServer_Put env ctx req srv (srvL, c) = ((resp, None), srv', (srvL', c')) \<and>
    RequestsTotal srv' ''Put'' + RequestsTotal srvL' ''Put''
      = RequestsTotal srv ''Put'' + RequestsTotal srvL ''Put'' + 1"
proof -
  obtain resp c' where p: "put_propose envL req c = (resp, c')" by force
  have "isProxyRequest (Some proxy_md)" by (simp add: isProxyRequest_def proxy_md_def)
  then have "serve_Put envL con proxy_md req (srvL, c) = (Inr resp, (srvL, c'))" for con
    using assms(3) p by (simp add: serve_Put_def KVServer_Put_def Let_def count_request_def)
  with assms p getLeaderClient_counts [OF assms(4)] show ?thesis
    by (simp add: KVServer_Put_def Let_def put_forward_def count_request_def)
qed

end
