(* ===== verification/Cli.thy ===== *)
theory Cli
  imports KvServer
begin

text \<open>
  The command line client, \<^verbatim>\<open>src/cmd/cli/main.go\<close>: the bodies of its four commands. Cobra,
  which parses the command line, and gRPC are third-party code: the number of arguments has been
  checked as the command declares it, dialling and the remote calls are arguments. A command returns
  what it prints and the error it ends with.
\<close>

section \<open>The commands\<close>

text \<open>\<^verbatim>\<open>strings.ToUpper\<close> on ASCII.\<close>

definition ToUpper :: "string \<Rightarrow> string" where
  "ToUpper s = map (\<lambda>c. if 97 \<le> (of_char c :: nat) \<and> (of_char c :: nat) \<le> 122 then char_of ((of_char c :: nat) - 32) else c) s"

definition string_of :: "bytes \<Rightarrow> string" where
  "string_of b = map (\<lambda>x. char_of (unat x)) b"

definition getClient :: "(string \<Rightarrow> error option) \<Rightarrow> string \<Rightarrow> error + string" where
  "getClient NewClient targetAddr =
     (case NewClient targetAddr of
        Some e \<Rightarrow> Inl (Wrap (''failed to connect to '' @ targetAddr) e)
      | None \<Rightarrow> Inr targetAddr)"

definition putCmd ::
  "(string \<Rightarrow> error option) \<Rightarrow> (string \<Rightarrow> PutRequest \<Rightarrow> 'c \<Rightarrow> (error + PutResponse) \<times> 'c) \<Rightarrow> string
    \<Rightarrow> bytes \<Rightarrow> bytes \<Rightarrow> 'c \<Rightarrow> (string list \<times> error option) \<times> 'c" where
  "putCmd NewClient rpc targetAddr arg0 arg1 c =
     (case getClient NewClient targetAddr of
        Inl e \<Rightarrow> (([], Some e), c)
      | Inr client \<Rightarrow>
          (case rpc client \<lparr>PKey = arg0, PValue = Some arg1\<rparr> c of
             (Inl e, c1) \<Rightarrow> (([], Some (Wrap ''rpc failed'' e)), c1)
           | (Inr resp, c1) \<Rightarrow>
               (if PSuccess resp then (([''OK''], None), c1)
                else (([''FAILED: '' @ PMessage resp], None), c1))))"

definition parse_level :: "string \<Rightarrow> error + ConsistencyLevel" where
  "parse_level consistency =
     (let u = ToUpper consistency
      in if u = ''STRONG'' then Inr STRONG
         else if u = ''FAST'' then Inr FAST
         else if u = ''EVENTUAL'' then Inr EVENTUAL
         else Inl (Errorf ''invalid consistency level. Must be STRONG, FAST, or EVENTUAL''))"

definition getCmd ::
  "(string \<Rightarrow> error option) \<Rightarrow> (string \<Rightarrow> GetRequest \<Rightarrow> error + GetResponse) \<Rightarrow> string \<Rightarrow> string \<Rightarrow> bytes
    \<Rightarrow> string list \<times> error option" where
  "getCmd NewClient rpc targetAddr consistency arg0 =
     (case getClient NewClient targetAddr of
        Inl e \<Rightarrow> ([], Some e)
      | Inr client \<Rightarrow>
          (case parse_level consistency of
             Inl e \<Rightarrow> ([], Some e)
           | Inr level \<Rightarrow>
               (case rpc client \<lparr>GKey = arg0, GConsistency = level\<rparr> of
                  Inl e \<Rightarrow> ([], Some (Wrap ''rpc failed'' e))
                | Inr resp \<Rightarrow>
                    (if GFound resp then ([string_of (bytes_of (GValue resp))], None)
                     else ([''(nil) - key not found''], None)))))"

definition deleteCmd ::
  "(string \<Rightarrow> error option) \<Rightarrow> (string \<Rightarrow> DeleteRequest \<Rightarrow> 'c \<Rightarrow> (error + DeleteResponse) \<times> 'c) \<Rightarrow> string
    \<Rightarrow> bytes \<Rightarrow> 'c \<Rightarrow> (string list \<times> error option) \<times> 'c" where
  "deleteCmd NewClient rpc targetAddr arg0 c =
     (case getClient NewClient targetAddr of
        Inl e \<Rightarrow> (([], Some e), c)
      | Inr client \<Rightarrow>
          (case rpc client \<lparr>DKey = arg0\<rparr> c of
             (Inl e, c1) \<Rightarrow> (([], Some (Wrap ''rpc failed'' e)), c1)
           | (Inr resp, c1) \<Rightarrow> (([if DSuccess resp then ''OK'' else ''FAILED''], None), c1)))"

definition status_key :: bytes where
  "status_key = [95, 95, 115, 116, 97, 116, 117, 115, 95, 95]"

definition statusCmd ::
  "(string \<Rightarrow> error option) \<Rightarrow> (string \<Rightarrow> GetRequest \<Rightarrow> error + GetResponse) \<Rightarrow> string \<Rightarrow> string list \<times> error option" where
  "statusCmd NewClient rpc targetAddr =
     (case getClient NewClient targetAddr of
        Inl e \<Rightarrow> ([], Some e)
      | Inr client \<Rightarrow>
          (case rpc client \<lparr>GKey = status_key, GConsistency = EVENTUAL\<rparr> of
             Inl e \<Rightarrow> ([], Some (Wrap ''rpc failed'' e))
           | Inr resp \<Rightarrow> ([''Leader: '' @ GLeaderAddress resp], None)))"

text \<open>The end of \<^verbatim>\<open>main\<close>: the exit code after the command that cobra ran has returned.\<close>

definition cli_exit :: "string list \<times> error option \<Rightarrow> nat" where
  "cli_exit res = (if snd res \<noteq> None then 1 else 0)"

text \<open>The exit code tells a call that failed from one that was answered, not a refusal from a success.\<close>

lemma putCmd_exit:
  assumes "putCmd NewClient rpc targetAddr k v c = (res, c')"
  shows "cli_exit res = 0 \<longleftrightarrow>
    NewClient targetAddr = None \<and> (\<exists>resp. fst (rpc targetAddr \<lparr>PKey = k, PValue = Some v\<rparr> c) = Inr resp)"
  using assms
  by (auto simp: putCmd_def getClient_def cli_exit_def split: option.splits prod.splits sum.splits if_splits)

section \<open>From the command line to the engine\<close>

text \<open>The remote calls as the node at the other end serves them.\<close>

definition node_Put :: "'c Env \<Rightarrow> string \<Rightarrow> PutRequest \<Rightarrow> KVServer \<times> 'c \<Rightarrow> (error + PutResponse) \<times> KVServer \<times> 'c" where
  "node_Put env target req st =
     (case KVServer_Put env None req (fst st) (snd st) of
        ((resp, None), srv', c') \<Rightarrow> (Inr resp, srv', c')
      | ((_, Some e), srv', c') \<Rightarrow> (Inl e, srv', c'))"

definition node_Get :: "(bytes \<Rightarrow> u32) \<Rightarrow> 'c Env \<Rightarrow> KVServer \<Rightarrow> StrataGo \<Rightarrow> fs \<Rightarrow> string \<Rightarrow> GetRequest \<Rightarrow> error + GetResponse" where
  "node_Get murmur env srv db s target req =
     (case KVServer_Get murmur env req srv db s of None \<Rightarrow> Inl ErrIO | Some (res, _) \<Rightarrow> res)"

lemma KVServer_Put_leader:
  assumes "raft_State env = Leader"
  shows "KVServer_Put env ctx req srv c =
    (case put_propose env req c of (resp, c1) \<Rightarrow> ((resp, None), count_request (isProxyRequest ctx) ''Put'' srv, c1))"
  using assms by (simp add: KVServer_Put_def Let_def split: prod.splits)

text \<open>
  C25: from the command line to the engine and back. When \<^verbatim>\<open>put\<close> against the leader prints
  \<^verbatim>\<open>OK\<close>, a following \<^verbatim>\<open>get\<close> against the same leader, at a level spelled in whatever
  case, prints the value, or reports the key as absent if the value was empty.
\<close>

theorem cli_put_get:
  assumes "raft_State env = Leader" "db_inv murmur db s" "raft_VerifyLeader env' = None" "raft_State env' = Leader"
    and "proto_command_law (marshal_Command env) unmarshal" "raft_apply_law unmarshal (raft_Apply env)"
    and "NewClient targetAddr = None" "parse_level consistency = Inr level"
    and "putCmd NewClient (node_Put env) targetAddr k v (srv, (db, s)) = (([''OK''], None), (srv', (db', s')))"
  shows "getCmd NewClient (node_Get murmur env' srv' db' s') targetAddr consistency k =
    ([if v = [] then ''(nil) - key not found'' else string_of v], None)"
proof -
  let ?req = "\<lparr>PKey = k, PValue = Some v\<rparr>"
  obtain resp c1 where p: "put_propose env ?req (db, s) = (resp, c1)" by (metis prod.collapse)
  with assms(1,7,9) have "PSuccess resp" "c1 = (db', s')"
    by (auto simp: putCmd_def getClient_def node_Put_def KVServer_Put_leader split: if_splits)
  with put_propose_success [OF p] obtain b where
    b: "marshal_Command env \<lparr>Op = Command_PUT, CKey = k, CValue = Some v\<rparr> = Inr b"
      "raft_Apply env b (db, s) = (Inr None, (db', s'))" by auto
  from raft_apply_engine [OF assms(6,2) b(2) proto_effect(1) [OF assms(5) b(1)]]
  have "StrataGo_Get murmur k db' s' = Some (value_of v)" by auto
  then show ?thesis
    using assms(3,4,7,8)
    by (cases level) (auto simp: getCmd_def getClient_def node_Get_def KVServer_Get_def get_check_def Let_def value_of_def)
qed

end
