(* ===== verification/Node.thy ===== *)
theory Node
  imports KvServer
begin

text \<open>
  The process, \<^verbatim>\<open>src/main.go\<close>: the ports it derives, the management endpoint over which a node
  joins, the loop in which a new node asks to join, the loop that watches the state of the Raft node
  for the metrics, and the shutdown. The HTTP and gRPC servers and Raft are third-party code; their
  answers are arguments. The start of the process is in \<^verbatim>\<open>Boot\<close>.
\<close>

section \<open>Addresses and ports\<close>

definition advertiseAddr :: "string \<Rightarrow> int \<Rightarrow> string" where
  "advertiseAddr raftHost raftPort = raftHost @ '':'' @ Sprintf_d raftPort"

definition httpPort :: "int \<Rightarrow> int" where
  "httpPort raftPort = sint (of_int (raftPort + 2000) :: u64)"

definition metricsPort :: "int \<Rightarrow> int" where
  "metricsPort raftPort = sint (of_int (raftPort + 3000) :: u64)"

text \<open>\<open>Inl\<close> is \<^verbatim>\<open>log.Fatalf\<close>.\<close>

definition join_URL :: "string \<Rightarrow> string \<Rightarrow> string \<Rightarrow> error + string" where
  "join_URL joinAddr nodeID advertise =
     (case SplitHostPort joinAddr of
        Inl e \<Rightarrow> Inl (Wrap ''Invalid join address format'' e)
      | Inr (host, portStr) \<Rightarrow>
          (case Atoi portStr of
             Inl e \<Rightarrow> Inl (Wrap ''Invalid port in join address'' e)
           | Inr leaderRaftPort \<Rightarrow>
               (let leaderHttpPort = sint (of_int (leaderRaftPort + 2000) :: u64)
                in Inr (''http://'' @ host @ '':'' @ Sprintf_d leaderHttpPort @ ''/join?id='' @ nodeID
                        @ ''&addr='' @ advertise))))"

section \<open>Joining\<close>

text \<open>The handler of \<^verbatim>\<open>/join\<close>: the status code, and the cluster after it.\<close>

definition join_handler ::
  "RaftState \<Rightarrow> (string \<Rightarrow> string \<Rightarrow> 'c \<Rightarrow> error option \<times> 'c) \<Rightarrow> string \<Rightarrow> string \<Rightarrow> 'c \<Rightarrow> nat \<times> 'c" where
  "join_handler st AddVoter newID addr c =
     (if st \<noteq> Leader then (400, c)
      else (case AddVoter newID addr c of (Some _, c1) \<Rightarrow> (500, c1) | (None, c1) \<Rightarrow> (200, c1)))"

text \<open>
  The loop of the joining node: the answers to its successive requests are a stream, \<open>None\<close> a
  request that failed. It gives the number of requests made; not ending is \<open>None\<close>.
\<close>

partial_function (option) join_loop :: "(nat \<Rightarrow> nat option) \<Rightarrow> nat \<Rightarrow> nat option" where
  "join_loop answers n = (if answers n = Some 200 then Some (n + 1) else join_loop answers (n + 1))"

section \<open>Watching the state\<close>

record monitor =
  lastState :: RaftState
  ElectionTotal :: nat
  RaftStateGauge :: nat

definition monitor_start :: monitor where
  "monitor_start = \<lparr>lastState = Follower, ElectionTotal = 0, RaftStateGauge = 0\<rparr>"

definition monitor_turn :: "RaftState \<Rightarrow> monitor \<Rightarrow> monitor" where
  "monitor_turn currentState m =
     (let val = (case currentState of Candidate \<Rightarrow> 1 | Leader \<Rightarrow> 2 | _ \<Rightarrow> 0);
          elections = (if currentState = Candidate \<and> lastState m \<noteq> Candidate then ElectionTotal m + 1
                       else ElectionTotal m)
      in \<lparr>lastState = currentState, ElectionTotal = elections, RaftStateGauge = val\<rparr>)"

section \<open>Shutdown\<close>

text \<open>
  The end of \<^verbatim>\<open>main\<close> once the servers have stopped: the cached connection, Raft, the engine. The
  errors of the last two are printed.
\<close>

definition node_shutdown ::
  "(bytes \<Rightarrow> u32) \<Rightarrow> (nat \<Rightarrow> nat) \<Rightarrow> int \<Rightarrow> int \<Rightarrow> error option \<Rightarrow> KVServer \<Rightarrow> StrataGo \<Rightarrow> fs
    \<Rightarrow> (error list \<times> KVServer \<times> StrataGo \<times> fs) option" where
  "node_shutdown murmur rnd now1 now2 raft_Shutdown srv db s =
     (let srv1 = KVServer_Close srv;
          printed = (case raft_Shutdown of None \<Rightarrow> [] | Some e \<Rightarrow> [Wrap ''Error shutting down Raft'' e])
      in (case StrataGo_Close murmur rnd now1 now2 db s of
            None \<Rightarrow> None
          | Some (None, db1, s1) \<Rightarrow> Some (printed, srv1, db1, s1)
          | Some (Some e, db1, s1) \<Rightarrow> Some (printed @ [Wrap ''Error closing database'' e], srv1, db1, s1)))"

section \<open>Correctness\<close>

lemma join_URL_advertised:
  assumes "plain_host host" "0 \<le> p" "p < 2 ^ 63 - 2000"
  shows "join_URL (advertiseAddr host p) nodeID adv =
    Inr (''http://'' @ host @ '':'' @ Sprintf_d (httpPort p) @ ''/join?id='' @ nodeID @ ''&addr='' @ adv)"
  using Split_plain [OF assms(1) plain_Sprintf_d] Atoi_Sprintf_d [of p] assms
  by (simp add: join_URL_def advertiseAddr_def httpPort_def)

lemma join_loop_step: "answers n \<noteq> Some 200 \<Longrightarrow> join_loop answers n = join_loop answers (Suc n)"
  by (subst join_loop.simps) simp

lemma join_loop_first:
  "answers m = Some 200 \<Longrightarrow> n \<le> m \<Longrightarrow> (\<forall>j. n \<le> j \<and> j < m \<longrightarrow> answers j \<noteq> Some 200) \<Longrightarrow>
    join_loop answers n = Some (m + 1)"
proof (induction "m - n" arbitrary: n)
  case 0
  then show ?case by (subst join_loop.simps) simp
next
  case (Suc d)
  then have "join_loop answers (Suc n) = Some (m + 1)" by (intro Suc.hyps(1)) auto
  with Suc.prems Suc.hyps(2) show ?case using join_loop_step [of answers n] by auto
qed

text \<open>
  C39: joining. A new node that is given the address a leader advertises asks the management port of
  that leader, and its loop ends with the first answer that is a success, and only then; a node that
  is not the leader refuses and changes nothing.
\<close>

theorem node_joins:
  assumes "plain_host host" "0 \<le> p" "p < 2 ^ 63 - 2000"
    and "answers m = Some 200" "\<forall>j < m. answers j \<noteq> Some 200"
  shows "join_URL (advertiseAddr host p) nodeID adv =
      Inr (''http://'' @ host @ '':'' @ Sprintf_d (httpPort p) @ ''/join?id='' @ nodeID @ ''&addr='' @ adv) \<and>
    join_loop answers 0 = Some (m + 1) \<and>
    (st \<noteq> Leader \<longrightarrow> join_handler st AddVoter i a c = (400, c))"
  using join_URL_advertised [OF assms(1-3)] join_loop_first [of answers m 0] assms(4,5)
  by (simp add: join_handler_def)

definition sample_answers :: "nat \<Rightarrow> nat option" where
  "sample_answers n = (if n = 2 then Some 200 else if n = 1 then Some 400 else None)"

theorem node_joins_witness: "join_loop sample_answers 0 = Some 3"
proof -
  have "plain_host ''localhost''" "sample_answers 2 = Some 200" "\<forall>j < 2. sample_answers j \<noteq> Some 200"
    by (simp_all add: plain_host_def sample_answers_def)
  from node_joins [OF this(1) _ _ this(2,3), where p = 7001 and st = Follower and AddVoter = "\<lambda>_ _ c. (None, c)"
      and nodeID = "''n2''" and adv = "''n2:7001''" and i = "''n2''" and a = "''n2:7001''" and c = "()"]
  show ?thesis by simp
qed

text \<open>After a shutdown no connection to another node is open.\<close>

lemma node_shutdown_connections:
  assumes "cache_inv srv" "node_shutdown murmur rnd now1 now2 r srv db s = Some (es, srv', db', s')"
  shows "\<forall>c \<in> set (conns srv'). \<not> conn_open c"
  using close_stale [OF assms(1)] assms(2)
  by (auto simp: node_shutdown_def KVServer_Close_def Let_def split: option.splits)

text \<open>The elections in a sequence of samples: the places where it enters the candidate state.\<close>

definition elections :: "RaftState list \<Rightarrow> nat" where
  "elections xs = card {i. i < length xs \<and> xs ! i = Candidate \<and> (i = 0 \<or> xs ! (i - 1) \<noteq> Candidate)}"

lemma elections_snoc:
  "elections (xs @ [x]) = elections xs + (if x = Candidate \<and> (xs = [] \<or> last xs \<noteq> Candidate) then 1 else 0)"
proof -
  let ?E = "\<lambda>xs i. i < length xs \<and> xs ! i = Candidate \<and> (i = 0 \<or> xs ! (i - 1) \<noteq> Candidate)"
  have "{i. ?E (xs @ [x]) i} = {i. ?E xs i} \<union>
      (if x = Candidate \<and> (xs = [] \<or> last xs \<noteq> Candidate) then {length xs} else {})"
    by (cases "xs = []") (auto simp: nth_append last_conv_nth less_Suc_eq)
  then show ?thesis by (simp add: elections_def card_insert_if)
qed

text \<open>
  The election counter. After any sequence of samples it is the number of times the sequence
  entered the candidate state, and the gauge shows the last sample.
\<close>

lemma monitor_elections:
  "fold monitor_turn xs monitor_start =
    \<lparr>lastState = (if xs = [] then Follower else last xs), ElectionTotal = elections xs,
     RaftStateGauge = (if xs = [] then 0 else (case last xs of Candidate \<Rightarrow> 1 | Leader \<Rightarrow> 2 | _ \<Rightarrow> 0))\<rparr>"
proof (induction xs rule: rev_induct)
  case Nil
  then show ?case by (simp add: monitor_start_def elections_def)
next
  case (snoc x xs)
  then show ?case by (auto simp: monitor_turn_def Let_def elections_snoc)
qed

end
