(* ===== verification/ClusterSamples.thy ===== *)
theory ClusterSamples
  imports Samples Cli Node
begin

text \<open>
  Concrete codecs, a concrete snapshot sink and the sample databases, on which the theorems about
  the state machine and the server are instantiated.
\<close>

section \<open>Codecs\<close>

text \<open>The key behind its length, then the value; an empty value decodes as \<^verbatim>\<open>nil\<close>.\<close>

definition sample_pack :: "bytes \<Rightarrow> slice \<Rightarrow> error + bytes" where
  "sample_pack k v =
     (if length k + length (bytes_of v) < 2 ^ 30 then Inr (PutUint32 (of_nat (length k)) @ k @ bytes_of v)
      else Inl (Errorf ''too large''))"

definition sample_unpack :: "bytes \<Rightarrow> error + (bytes \<times> slice)" where
  "sample_unpack b =
     (case Read_u32 b of
        Inl e \<Rightarrow> Inl (ErrRead e)
      | Inr (len, r1) \<Rightarrow>
          (case ReadFull (unat len) r1 of
             Inl e \<Rightarrow> Inl (ErrRead e)
           | Inr (k, r2) \<Rightarrow> Inr (k, value_of r2)))"

lemma sample_unpack_pack: "sample_pack k v = Inr b \<Longrightarrow> length b < 2 ^ 31 \<and> sample_unpack b = Inr (k, value_of (bytes_of v))"
  by (auto simp: sample_pack_def sample_unpack_def ReadFull_append unat_of_nat_u32 split: if_splits)

definition sample_marshal_entry :: "KVEntry \<Rightarrow> error + bytes" where
  "sample_marshal_entry e = sample_pack (EKey e) (EValue e)"

definition sample_unmarshal_entry :: "bytes \<Rightarrow> error + KVEntry" where
  "sample_unmarshal_entry b =
     (case sample_unpack b of Inl e \<Rightarrow> Inl e | Inr (k, v) \<Rightarrow> Inr \<lparr>EKey = k, EValue = v\<rparr>)"

lemma sample_entry_law: "proto_entry_law sample_marshal_entry sample_unmarshal_entry"
  using sample_unpack_pack by (auto simp: proto_entry_law_def sample_marshal_entry_def sample_unmarshal_entry_def)

text \<open>A command: one byte for the operation, then the key and the value.\<close>

definition sample_marshal_command :: "Command \<Rightarrow> error + bytes" where
  "sample_marshal_command c =
     (case sample_pack (CKey c) (CValue c) of
        Inl e \<Rightarrow> Inl e
      | Inr b \<Rightarrow> (case Op c of Command_PUT \<Rightarrow> Inr (0 # b) | Command_DELETE \<Rightarrow> Inr (1 # b)
                  | Operation_other _ \<Rightarrow> Inl (Errorf ''unknown'')))"

definition sample_unmarshal_command :: "bytes \<Rightarrow> error + Command" where
  "sample_unmarshal_command b =
     (case b of
        [] \<Rightarrow> Inr \<lparr>Op = Command_PUT, CKey = [], CValue = None\<rparr>
      | x # b1 \<Rightarrow>
          (case sample_unpack b1 of
             Inl e \<Rightarrow> Inl e
           | Inr (k, v) \<Rightarrow>
               Inr \<lparr>Op = (if x = 0 then Command_PUT else if x = 1 then Command_DELETE else Operation_other (uint x)),
                    CKey = k, CValue = v\<rparr>))"

text \<open>A sink that keeps its content in memory and never fails.\<close>

definition sample_sink_Write :: "bytes \<Rightarrow> bytes \<Rightarrow> error option \<times> bytes" where
  "sample_sink_Write b k = (None, k @ b)"

definition sample_sink_Close :: "bytes \<Rightarrow> error option \<times> bytes" where
  "sample_sink_Close k = (None, k)"

lemma sample_sink_law: "sink_law sample_sink_Write sample_sink_Close id"
  by (simp add: sink_law_def sample_sink_Write_def sample_sink_Close_def)

section \<open>Commands and logs\<close>

definition log7 :: "bytes list" where
  "log7 = [0 # PutUint32 1 @ [1] @ [7], [9]]"

lemma unpack7: "sample_unpack (PutUint32 1 @ [1] @ [7]) = Inr ([1], Some [7])"
  by (simp add: sample_unpack_def ReadFull_def value_of_def)

lemma effects7: "effect sample_unmarshal_command (0 # PutUint32 1 @ [1] @ [7]) = Some ([1], Some [7])"
  "effect sample_unmarshal_command [9] = None"
proof -
  show "effect sample_unmarshal_command (0 # PutUint32 1 @ [1] @ [7]) = Some ([1], Some [7])"
    unfolding effect_def sample_unmarshal_command_def list.case unpack7 by simp
  show "effect sample_unmarshal_command [9] = None"
    by (simp add: effect_def sample_unmarshal_command_def sample_unpack_def Read_u32_def ReadFull_def)
qed

lemma writable0: "writable db0 fs0" and writable1: "writable db1 fs1"
  by (simp_all add: writable_def)

theorem fsm_log_refines_map_witness:
  "\<exists>rs db' s'. apply_log sample_unmarshal_command log7 db0 fs0 = Some (rs, db', s') \<and>
    list_all2 (\<lambda>data r. r = None \<longleftrightarrow> effect sample_unmarshal_command data \<noteq> None) log7 rs \<and>
    StrataGo_Get sample_hash [1] db' s' = Some (Some [7])"
proof -
  have "updates (effects sample_unmarshal_command log7) m [1] = Some [7]" for m
    unfolding log7_def by (simp only: effects_simps effects7 option.case updates_simps) simp
  with fsm_log_refines_map [OF inv0 writable0, of sample_unmarshal_command log7] show ?thesis by auto
qed

section \<open>A snapshot\<close>

definition snap1 :: strataSnapshot where
  "snap1 = \<lparr>snap_state = [([1], Some [7])]\<rparr>"

lemma snapshot1: "Snapshot db1 fs1 = Some (Inr snap1, fs1)"
proof -
  have "SkipList_entries mem1 = Some [([1], Some [7])]" using SkipList_entries_ok [OF skip_ok1] by simp
  then show ?thesis by (simp add: Snapshot_def ScanAll_def snap1_def map_puts_def)
qed

definition stream1 :: bytes where
  "stream1 = snd (Persist sample_marshal_entry sample_sink_Write sample_sink_Close id id snap1 [])"

lemma persist1:
  "Persist sample_marshal_entry sample_sink_Write sample_sink_Close id id snap1 [] = (None, stream1)"
  by (simp add: stream1_def Persist_def snap1_def sample_marshal_entry_def sample_pack_def
      sample_sink_Write_def sample_sink_Close_def)

lemma can_purge0: "can_purge sample_hash 5 6 db0 fs0"
  by (simp add: can_purge_def inv0 live0 fresh_tmp_def nothing_to_flush_def NewSkipList_def)



section \<open>Servers\<close>

lemma sample_command_law: "proto_command_law sample_marshal_command sample_unmarshal_command"
proof -
  have "sample_unmarshal_command b = Inr (c\<lparr>CValue := value_of (bytes_of (CValue c))\<rparr>)"
    if m: "sample_marshal_command c = Inr b" for c b
  proof -
    obtain b1 where b1: "sample_pack (CKey c) (CValue c) = Inr b1"
      using m by (auto simp: sample_marshal_command_def split: sum.splits)
    with m sample_unpack_pack [OF b1] show ?thesis
      by (cases c; cases "Op c") (auto simp: sample_marshal_command_def sample_unmarshal_command_def)
  qed
  then show ?thesis by (simp add: proto_command_law_def)
qed

text \<open>A cluster of one node: what is proposed is applied at once.\<close>

definition sample_apply :: "bytes \<Rightarrow> StrataGo \<times> fs \<Rightarrow> (error + error option) \<times> StrataGo \<times> fs" where
  "sample_apply b st =
     (case Apply sample_unmarshal_command b (fst st) (snd st) of
        None \<Rightarrow> (Inl ErrIO, st)
      | Some (r, st') \<Rightarrow> (Inr r, st'))"

lemma sample_apply_law: "raft_apply_law sample_unmarshal_command sample_apply"
  unfolding raft_apply_law_def
proof (intro allI impI)
  fix b db s r db' s'
  assume "sample_apply b (db, s) = (Inr r, (db', s'))"
  then have "apply_log sample_unmarshal_command [] db s = Some ([], db, s) \<and>
      Apply sample_unmarshal_command b db s = Some (r, db', s')"
    by (auto simp: sample_apply_def split: option.splits)
  then show "\<exists>log rs db1 s1. apply_log sample_unmarshal_command log db s = Some (rs, db1, s1) \<and>
      Apply sample_unmarshal_command b db1 s1 = Some (r, db', s')" by blast
qed

definition leader_env :: "(StrataGo \<times> fs) Env" where
  "leader_env = \<lparr>raft_State = Leader, raft_Leader = (\<lambda>_. ''a'' @ '':'' @ Sprintf_d 7001), raft_VerifyLeader = None,
     raft_Apply = sample_apply, grpc_NewClient = (\<lambda>_. None), client_Put = (\<lambda>_ _ _ c. (Inl ErrIO, c)),
     client_Delete = (\<lambda>_ _ _ c. (Inl ErrIO, c)), marshal_Command = sample_marshal_command,
     error_Error = (\<lambda>_. ''error'')\<rparr>"

definition follower_env :: "string \<Rightarrow> error option \<Rightarrow> (KVServer \<times> StrataGo \<times> fs) Env" where
  "follower_env host dial = \<lparr>raft_State = Follower, raft_Leader = (\<lambda>_. host @ '':'' @ Sprintf_d 7001),
     raft_VerifyLeader = Some ErrNotLeader, raft_Apply = (\<lambda>_ c. (Inl ErrNotLeader, c)), grpc_NewClient = (\<lambda>_. dial),
     client_Put = serve_Put leader_env, client_Delete = (\<lambda>_ _ _ c. (Inl ErrIO, c)),
     marshal_Command = sample_marshal_command, error_Error = (\<lambda>_. ''error'')\<rparr>"

definition put7 :: PutRequest where
  "put7 = \<lparr>PKey = [1], PValue = Some [7]\<rparr>"

lemma leader_addr: "plain_host host \<Longrightarrow>
  getLeaderGRPCAddress (raft_Leader (follower_env host dial) 0) = Inr (host @ '':'' @ Sprintf_d 8001)"
  using getLeaderGRPC_plain [of host 7001] by (simp add: follower_env_def)

lemma marshal7:
  "sample_marshal_command \<lparr>Op = Command_PUT, CKey = [1], CValue = Some [7]\<rparr> = Inr (0 # PutUint32 1 @ [1] @ [7])"
  "sample_marshal_command \<lparr>Op = Command_DELETE, CKey = [1], CValue = None\<rparr> = Inr (1 # PutUint32 1 @ [1])"
  by (simp_all add: sample_marshal_command_def sample_pack_def)

lemma apply7: "Apply sample_unmarshal_command (0 # PutUint32 1 @ [1] @ [7]) db0 fs0 = Some (None, db1, fs1)"
  using Apply_effect [of sample_unmarshal_command _ "(db0, fs0)"] effects7(1) put_db1
  by (simp add: engine_write_def)

lemma propose7: "put_propose leader_env put7 (db0, fs0) =
    (\<lparr>PSuccess = True, PMessage = ''Key saved successfully'', PLeaderAddress = ''''\<rparr>, (db1, fs1))"
  unfolding put_propose_def put7_def leader_env_def
  by (simp del: append_Cons append_Nil add: marshal7 sample_apply_def apply7)

theorem kv_put_acknowledged_witness:
  "\<exists>srv' db' s'. KVServer_Put leader_env None put7 NewKVServer (db0, fs0) =
      ((\<lparr>PSuccess = True, PMessage = ''Key saved successfully'', PLeaderAddress = ''''\<rparr>, None), srv', (db', s')) \<and>
    StrataGo_Get sample_hash [1] db' s' = Some (Some [7])"
proof -
  have l: "raft_State leader_env = Leader" "marshal_Command leader_env = sample_marshal_command"
    "raft_Apply leader_env = sample_apply" by (simp_all add: leader_env_def)
  let ?resp = "\<lparr>PSuccess = True, PMessage = ''Key saved successfully'', PLeaderAddress = ''''\<rparr>"
  obtain srv' where p: "KVServer_Put leader_env None put7 NewKVServer (db0, fs0) = ((?resp, None), srv', (db1, fs1))"
    using propose7 l(1) by (simp add: KVServer_Put_def)
  from kv_put_acknowledged [OF l(1) inv0 _ _ p, unfolded l(2,3), OF sample_command_law sample_apply_law] p
  show ?thesis by (simp add: put7_def value_of_def)
qed

text \<open>A closed database refuses the entry, and the client is told that the key was deleted.\<close>

theorem kv_delete_acknowledged_witness:
  "\<exists>srv' db' s'. KVServer_Delete leader_env None \<lparr>DKey = [1]\<rparr> NewKVServer (db1\<lparr>closed := True\<rparr>, fs1) =
      ((\<lparr>DSuccess = True, DLeaderAddress = ''''\<rparr>, None), srv', (db', s')) \<and>
    StrataGo_Get sample_hash [1] db' s' = Some (Some [7])"
proof -
  let ?db = "db1\<lparr>closed := True\<rparr>" and ?b = "1 # PutUint32 1 @ [1] :: bytes"
  have l: "raft_State leader_env = Leader" "marshal_Command leader_env = sample_marshal_command"
    "raft_Apply leader_env = sample_apply" by (simp_all add: leader_env_def)
  have inv: "db_inv sample_hash ?db fs1" using inv1 by (simp add: db_inv_def mem_ok_def)
  have "sample_unpack (PutUint32 1 @ [1]) = Inr ([1], None)"
    by (simp add: sample_unpack_def ReadFull_def value_of_def)
  then have "sample_unmarshal_command ?b = Inr \<lparr>Op = Command_DELETE, CKey = [1], CValue = None\<rparr>"
    unfolding sample_unmarshal_command_def by (simp del: append_Cons append_Nil)
  then have a: "sample_apply ?b (?db, fs1) = (Inr (Some err_closed), (?db, fs1))"
    by (simp add: sample_apply_def Apply_def StrataGo_Delete_def)
  have "StrataGo_Get sample_hash [1] ?db fs1 = Some (Some [7])"
    using get1 by (simp add: StrataGo_Get_def split: option.splits)
  with kv_delete_acknowledged [OF l(1) inv, unfolded l(2,3), OF sample_command_law sample_apply_law,
      of "\<lparr>DKey = [1]\<rparr>" ?b "Some err_closed" ?db fs1 None NewKVServer] marshal7(2) a
  show ?thesis by auto
qed


lemma follower_client:
  "\<exists>srv1. getLeaderClient (follower_env ''a'' None) NewKVServer = (Inr 0, srv1)"
proof -
  have "plain_host ''a''" by (simp add: plain_host_def)
  from leader_addr [OF this, of None] show ?thesis
    by (simp add: getLeaderClient_def follower_env_def cached_leader_def dial_leader_def NewKVServer_def)
qed

theorem kv_put_forwarded_witness:
  "\<exists>srv' srvL'. KVServer_Put (follower_env ''a'' None) None put7 NewKVServer (NewKVServer, (db0, fs0)) =
      ((\<lparr>PSuccess = True, PMessage = ''Key saved successfully'', PLeaderAddress = ''''\<rparr>, None), srv', (srvL', (db1, fs1))) \<and>
    RequestsTotal srv' ''Put'' + RequestsTotal srvL' ''Put'' = 1"
proof -
  let ?env = "follower_env ''a'' None"
  obtain srv1 where g: "getLeaderClient ?env NewKVServer = (Inr 0, srv1)" using follower_client by blast
  have "raft_State ?env \<noteq> Leader" "client_Put ?env = serve_Put leader_env" "raft_State leader_env = Leader"
    "\<not> isProxyRequest None" by (simp_all add: follower_env_def leader_env_def isProxyRequest_def)
  from kv_put_forwarded [OF this(1-3) g this(4), of put7 "(db0, fs0)" NewKVServer] propose7
  show ?thesis by (auto simp: NewKVServer_def)
qed

theorem server_connections_witness:
  "\<exists>srv. server_run (\<lambda>env. env = follower_env ''a'' None) srv \<and> cache_live srv \<and> leaderConn srv = Some 0"
proof -
  let ?env = "follower_env ''a'' None" and ?P = "\<lambda>env. env = follower_env ''a'' None"
  have "plain_host ''a''" by (simp add: plain_host_def)
  note addr = leader_addr [OF this, of None]
  obtain res srv c' where p: "KVServer_Put ?env None put7 NewKVServer (NewKVServer, (db0, fs0)) = (res, srv, c')"
    by (metis prod_cases3)
  have "serve_Put leader_env con proxy_md put7 (NewKVServer, (db0, fs0)) =
      (Inr \<lparr>PSuccess = True, PMessage = ''Key saved successfully'', PLeaderAddress = ''''\<rparr>, NewKVServer, (db1, fs1))" for con
    using propose7
    by (simp add: serve_Put_def KVServer_Put_def leader_env_def isProxyRequest_def proxy_md_def count_request_def)
  then have "leaderConn srv = Some 0"
    using p addr
    by (auto simp: KVServer_Put_def Let_def put_forward_def getLeaderClient_def follower_env_def cached_leader_def
        dial_leader_def NewKVServer_def)
  moreover have run: "server_run ?P srv" by (rule run_put [OF run_start _ p]) simp
  moreover have "\<forall>env a. ?P env \<longrightarrow> grpc_NewClient env a = None" by (simp add: follower_env_def)
  ultimately show ?thesis using server_connections [OF run] by blast
qed

theorem stale_connection_after_failed_dial_witness:
  "\<exists>srv1. getLeaderClient (follower_env ''b'' (Some ErrIO))
        \<lparr>leaderConn = Some 0, leaderAddr = ''a'' @ '':'' @ Sprintf_d 8001,
         conns = [\<lparr>conn_target = ''a'' @ '':'' @ Sprintf_d 8001, conn_open = True\<rparr>], RequestsTotal = (\<lambda>_. 0)\<rparr> =
      (Inl (Wrap ''failed to connect to leader'' ErrIO), srv1) \<and>
    getLeaderClient (follower_env ''a'' None) srv1 = (Inr 0, srv1) \<and> \<not> conn_open (conns srv1 ! 0)"
proof -
  let ?srv = "\<lparr>leaderConn = Some 0, leaderAddr = ''a'' @ '':'' @ Sprintf_d 8001,
         conns = [\<lparr>conn_target = ''a'' @ '':'' @ Sprintf_d 8001, conn_open = True\<rparr>], RequestsTotal = (\<lambda>_. 0)\<rparr>"
  have p: "plain_host ''a''" "plain_host ''b''" by (simp_all add: plain_host_def)
  have live: "cache_live ?srv" by (simp add: cache_defs)
  have d: "grpc_NewClient (follower_env ''b'' (Some ErrIO)) addr = Some ErrIO" for addr by (simp add: follower_env_def)
  show ?thesis
    by (rule stale_connection_after_failed_dial [OF live _ leader_addr [OF p(2)] _ d]) (simp_all add: leader_addr [OF p(1)])
qed

theorem cli_put_get_witness:
  "\<exists>srv' db' s'. putCmd (\<lambda>_. None) (node_Put leader_env) ''localhost:8001'' [1] [7] (NewKVServer, (db0, fs0)) =
      (([''OK''], None), (srv', (db', s'))) \<and>
    getCmd (\<lambda>_. None) (node_Get sample_hash leader_env srv' db' s') ''localhost:8001'' ''strong'' [1] = ([string_of [7]], None)"
proof -
  have l: "raft_State leader_env = Leader" "marshal_Command leader_env = sample_marshal_command"
    "raft_Apply leader_env = sample_apply" "raft_VerifyLeader leader_env = None" by (simp_all add: leader_env_def)
  have lev: "parse_level ''strong'' = Inr STRONG" by code_simp
  obtain srv' where p: "putCmd (\<lambda>_. None) (node_Put leader_env) ''localhost:8001'' [1] [7] (NewKVServer, (db0, fs0)) =
      (([''OK''], None), (srv', (db1, fs1)))"
    using propose7 l(1) by (simp add: putCmd_def getClient_def node_Put_def KVServer_Put_leader put7_def)
  from cli_put_get [OF l(1) inv0 l(4,1) _ _ _ lev p, unfolded l(2,3), OF sample_command_law sample_apply_law] p
  show ?thesis by simp
qed

end
