(* ===== verification/FsTypes.thy ===== *)
theory FsTypes
  imports Compaction
begin

text \<open>
  What every call of the engine keeps of the file system. The locale states the laws of a predicate that
  the calls of \<^verbatim>\<open>os\<close> keep, whether they fail or not; inside it every operation of the engine is shown
  to keep the predicate too. It is interpreted by the well-formedness of the directory, by the absence of faults and
  by a lower bound on the number of files.
\<close>

section \<open>Predicates that the system calls keep\<close>

locale os_invariant =
  fixes P :: "fs \<Rightarrow> bool"
  assumes P_pop: "P s \<Longrightarrow> pop_fault s = (f, s') \<Longrightarrow> P s'"
    and P_data: "P s \<Longrightarrow> P (s\<lparr>fs_data := (fs_data s)[i := b]\<rparr>)"
    and P_new: "P s \<Longrightarrow> P (snd (new_inode n s))"
    and P_sub: "P s \<Longrightarrow> subseq d (fs_dir s) \<Longrightarrow> P (s\<lparr>fs_dir := d\<rparr>)"
    and P_bind: "P s \<Longrightarrow> i \<in> snd ` set (fs_dir s) \<Longrightarrow> P (s\<lparr>fs_dir := AList.update n i (AList.delete m (fs_dir s))\<rparr>)"
begin

lemma P_delete: "P s \<Longrightarrow> P (s\<lparr>fs_dir := AList.delete n (fs_dir s)\<rparr>)"
  by (rule P_sub) (simp_all add: AList.delete_eq)

lemma P_Write: "P s \<Longrightarrow> file_Write i b s = (r, s') \<Longrightarrow> P s'"
  by (auto simp: file_Write_def split: prod.splits fault.splits dest: P_pop intro: P_data)

lemma P_Sync: "P s \<Longrightarrow> file_Sync i s = (r, s') \<Longrightarrow> P s'"
  by (auto simp: file_Sync_def split: prod.splits fault.splits dest: P_pop)

lemma P_Close: "P s \<Longrightarrow> file_Close i s = (r, s') \<Longrightarrow> P s'"
  by (auto simp: file_Close_def split: prod.splits fault.splits dest: P_pop)

lemma P_Truncate: "P s \<Longrightarrow> file_Truncate i n s = (r, s') \<Longrightarrow> P s'"
  by (auto simp: file_Truncate_def split: prod.splits fault.splits dest: P_pop intro: P_data)

lemma P_Open: "P s \<Longrightarrow> os_Open n s = (r, s') \<Longrightarrow> P s'"
  by (auto simp: os_Open_def split: prod.splits fault.splits option.splits dest: P_pop)

lemma P_Stat: "P s \<Longrightarrow> os_Stat n s = (r, s') \<Longrightarrow> P s'"
  by (auto simp: os_Stat_def split: prod.splits fault.splits option.splits dest: P_pop)

lemma P_ReadDir: "P s \<Longrightarrow> os_ReadDir d s = (r, s') \<Longrightarrow> P s'"
  by (auto simp: os_ReadDir_def split: prod.splits fault.splits dest: P_pop)

lemma P_MkdirAll: "P s \<Longrightarrow> os_MkdirAll d s = (r, s') \<Longrightarrow> P s'"
  by (auto simp: os_MkdirAll_def split: prod.splits fault.splits dest: P_pop)

lemma P_new': "P s \<Longrightarrow> new_inode n s = (i, s') \<Longrightarrow> P s'"
  using P_new [of s n] by simp

lemma P_Create: "P s \<Longrightarrow> os_Create n s = (r, s') \<Longrightarrow> P s'"
  by (auto simp: os_Create_def split: prod.splits fault.splits option.splits dest: P_pop intro: P_data P_new')

lemma P_append: "P s \<Longrightarrow> os_OpenFile_append n s = (r, s') \<Longrightarrow> P s'"
  by (auto simp: os_OpenFile_append_def split: prod.splits fault.splits option.splits dest: P_pop intro: P_new')

lemma P_Remove: "P s \<Longrightarrow> os_Remove n s = (r, s') \<Longrightarrow> P s'"
  by (auto simp: os_Remove_def split: prod.splits fault.splits option.splits dest: P_pop intro: P_delete)

lemma P_Rename: "P s \<Longrightarrow> os_Rename a b s = (r, s') \<Longrightarrow> P s'"
  by (auto simp: os_Rename_def split: prod.splits fault.splits option.splits if_splits dest: P_pop
      intro!: P_bind dest!: map_of_SomeD intro: rev_image_eqI)

lemma P_RemoveAll: "P s \<Longrightarrow> os_RemoveAll d s = (r, s') \<Longrightarrow> P s'"
proof -
  assume s: "P s" "os_RemoveAll d s = (r, s')"
  have "subseq (filter Q (take n xs) @ drop n xs) xs" for Q n and xs :: "(string \<times> nat) list"
    by (metis append_take_drop_id list_emb_append_mono subseq_filter_left subseq_order.order_refl)
  with s show ?thesis
    by (auto simp: os_RemoveAll_def split: prod.splits fault.splits dest: P_pop intro!: P_sub)
qed

lemmas P_os = P_Write P_Sync P_Close P_Truncate P_Open P_Stat P_ReadDir P_MkdirAll P_Create P_append P_Remove
  P_Rename P_RemoveAll

section \<open>Tables and the log\<close>

lemma P_write_seq: "P s \<Longrightarrow> write_seq i bs s = (r, s') \<Longrightarrow> P s'"
  by (induction bs arbitrary: s) (auto split: prod.splits option.splits dest: P_Write)

lemma P_Builder_Add: "P s \<Longrightarrow> Builder_Add murmur k v b s = (r, b', s') \<Longrightarrow> P s'"
  by (auto simp: Builder_Add_def Let_def split: prod.splits option.splits dest: P_write_seq simp del: write_seq.simps)

lemma P_add_all: "P s \<Longrightarrow> add_all murmur es b s = (r, b', s') \<Longrightarrow> P s'"
proof (induction es arbitrary: b s)
  case (Cons e es)
  then show ?case by (cases e) (auto split: prod.splits option.splits dest: P_Builder_Add)
qed simp

lemma P_cleanup: "P s \<Longrightarrow> P (cleanup b s)"
  unfolding cleanup_def by (metis P_Close P_Remove prod.collapse)

lemma P_Finish: "P s \<Longrightarrow> Finish b s = Some (r, s') \<Longrightarrow> P s'"
proof -
  assume s: "P s" and fin: "Finish b s = Some (r, s')"
  then obtain bf where bf: "add_hashes (hashes b) (NewBloomFilter (length (hashes b))) = Some bf"
    by (auto simp: Finish_def split: option.splits)
  let ?i = "b_file b" and ?fd = "Bloom_Bytes bf"
  let ?off = "bytesWritten b + int (4 + length ?fd)"
  obtain r1 s1 where w1: "write_seq ?i [PutUint32 (of_nat (length ?fd)), ?fd] s = (r1, s1)" by force
  obtain r2 s2 where w2: "write_seq ?i (index_writes (index b)) s1 = (r2, s2)" by force
  obtain r3 s3 where w3: "write_seq ?i [PutUint64 (of_int ?off), PutUint64 (of_int (bytesWritten b))] s2 = (r3, s3)" by force
  obtain r4 s4 where w4: "file_Sync ?i s3 = (r4, s4)" by force
  obtain r5 s5 where w5: "file_Close ?i s4 = (r5, s5)" by force
  obtain r6 s6 where w6: "os_Rename (tmpFilename b) (finalFilename b) s5 = (r6, s6)" by force
  have p: "P s1" "P s2" "P s3" "P s4" "P s5" "P s6"
    using P_write_seq [OF s w1] P_write_seq [OF _ w2] P_write_seq [OF _ w3] P_Sync [OF _ w4] P_Close [OF _ w5]
      P_Rename [OF _ w6] by blast+
  have "s' \<in> {cleanup b s1, cleanup b s2, cleanup b s3, cleanup b s4, cleanup b s5, cleanup b s6, s6}"
    using fin w1 w2 w3 w4 w5 w6 bf
    by (simp add: Finish_def writeIndex_def Let_def split: option.splits del: write_seq.simps)
  with p P_cleanup show ?thesis by blast
qed

lemma P_NewBuilder: "P s \<Longrightarrow> NewBuilder p now s = (r, s') \<Longrightarrow> P s'"
  by (auto simp: NewBuilder_def Let_def split: prod.splits sum.splits dest: P_Create)

lemma P_Builder_Flush: "P s \<Longrightarrow> Builder_Flush murmur sl b s = Some (r, s') \<Longrightarrow> P s'"
proof -
  assume s: "P s" and fl: "Builder_Flush murmur sl b s = Some (r, s')"
  then obtain es where es: "SkipList_entries sl = Some es" by (auto simp: Builder_Flush_def split: option.splits)
  obtain r1 b1 s1 where add: "add_all murmur es b s = (r1, b1, s1)" by (metis prod_cases3)
  note p = P_add_all [OF s add]
  from fl es add show ?thesis
    by (cases r1) (auto simp: Builder_Flush_def intro: P_cleanup [OF p] P_Finish [OF p])
qed

lemma P_NewReader: "P s \<Longrightarrow> NewReader p s = (r, s') \<Longrightarrow> P s'"
  by (auto simp: NewReader_def split: prod.splits sum.splits dest: P_Open) (metis P_Open P_Close prod.collapse)+

lemma P_Reader_Close: "P s \<Longrightarrow> Reader_Close r s = (e, r', s') \<Longrightarrow> P s'"
  by (auto simp: Reader_Close_def split: prod.splits if_splits dest: P_Close)

lemma P_NewIterator: "P s \<Longrightarrow> Reader_NewIterator r s = (x, s') \<Longrightarrow> P s'"
  by (auto simp: Reader_NewIterator_def split: prod.splits sum.splits dest: P_Open)

lemma P_SST_Close: "P s \<Longrightarrow> SST_Close it s = (e, it', s') \<Longrightarrow> P s'"
  by (auto simp: SST_Close_def split: prod.splits if_splits dest: P_Close)

lemma P_merge_loop: "P s \<Longrightarrow> merge_loop murmur lk h b s = Some (r, s') \<Longrightarrow> P s'"
proof (induction murmur lk h b s rule: merge_loop.induct)
  case (1 murmur lk h b s)
  show ?case
  proof (cases "h = []")
    case True
    with 1(4) show ?thesis by (subst (asm) merge_loop.simps) (auto intro: P_Finish [OF 1(3)])
  next
    case False
    obtain x h1 where pop: "heap_Pop mergeHeap_Less h = (x, h1)" by force
    obtain e lk1 b1 s1 where c: "(if lk = None \<or> lk \<noteq> Some (mi_key x)
        then (case Builder_Add murmur (mi_key x) (Some (mi_val x)) b s of (e, b1, s1) \<Rightarrow> (e, Some (mi_key x), b1, s1))
        else (None, lk, b, s)) = (e, lk1, b1, s1)" by (metis prod_cases4)
    have p1: "P s1" using c 1(3) by (auto split: if_splits prod.splits dest: P_Builder_Add)
    obtain nx it' where nx: "SST_Next (mi_iter x) = (nx, it')" by force
    show ?thesis
    proof (cases e)
      case (Some err)
      with 1(4) False pop c p1 show ?thesis by (subst (asm) merge_loop.simps) simp
    next
      case None
      show ?thesis
        using 1(4) False pop c None nx p1
          1(1) [OF False pop [symmetric] c [symmetric] None refl refl nx [symmetric]]
          1(2) [OF False pop [symmetric] c [symmetric] None refl refl nx [symmetric]]
        by (subst (asm) merge_loop.simps) (auto split: bool.splits option.splits)
    qed
  qed
qed

lemma P_Merge: "P s \<Longrightarrow> Merge murmur iters b s = Some (r, s') \<Longrightarrow> P s'"
  by (auto simp: Merge_def split: sum.splits dest: P_merge_loop)

lemma P_NewWAL: "P s \<Longrightarrow> NewWAL p s = (r, s') \<Longrightarrow> P s'"
  by (auto simp: NewWAL_def split: prod.splits sum.splits dest: P_append)

lemma P_WAL_Close: "P s \<Longrightarrow> WAL_Close w s = (r, w', s') \<Longrightarrow> P s'"
  by (auto simp: WAL_Close_def split: prod.splits if_splits dest: P_Close)

lemma P_WriteEntry:
  assumes "P s" "WriteEntry k v w s = (r, w', s')"
  shows "P s'"
proof -
  obtain r1 s1 where w1: "file_Write (wal_file w) (wal_record (sequenceNumber w + 1) k (bytes_of v)) s = (r1, s1)" by force
  obtain r2 s2 where w2: "file_Sync (wal_file w) s1 = (r2, s2)" by force
  have "P s1" "P s2" using P_Write [OF assms(1) w1] P_Sync [OF _ w2] by blast+
  with assms w1 w2 show ?thesis by (auto simp: WriteEntry_def Let_def split: if_splits option.splits)
qed

lemma P_Recover: "P s \<Longrightarrow> Recover w s = (r, w', s') \<Longrightarrow> P s'"
  by (auto simp: Recover_def Let_def split: prod.splits if_splits option.splits dest: P_Truncate)

section \<open>The engine\<close>

lemma P_Put: "P s \<Longrightarrow> StrataGo_Put k v db s = Some (r, db', s') \<Longrightarrow> P s'"
  by (auto simp: StrataGo_Put_def split: if_splits prod.splits option.splits dest: P_WriteEntry)

lemma P_Flush_rotate:
  assumes "P s" "Flush_rotate rnd db s = (x, db', s')"
  shows "P s'"
proof -
  let ?d = "dataDir db"
  obtain r1 w s1 where c: "WAL_Close (db_wal db) s = (r1, w, s1)" by (metis prod_cases3)
  obtain r2 s2 where rn: "os_Rename (wal_name ?d) (flushing_name ?d) s1 = (r2, s2)" by force
  obtain r3 s3 where nw: "NewWAL (wal_name ?d) s2 = (r3, s3)" by force
  obtain r4 s4 where bk: "os_Rename (flushing_name ?d) (wal_name ?d) s3 = (r4, s4)" by force
  have "P s1" "P s2" "P s3" "P s4"
    using P_WAL_Close [OF assms(1) c] P_Rename [OF _ rn] P_NewWAL [OF _ nw] P_Rename [OF _ bk] by blast+
  with assms c rn nw bk show ?thesis
    by (auto simp: Flush_rotate_def Let_def split: if_splits option.splits sum.splits)
qed

lemma P_rewrite_entries: "P s \<Longrightarrow> rewrite_entries es w s = (w', s') \<Longrightarrow> P s'"
proof (induction es arbitrary: w s)
  case (Cons e es)
  then show ?case by (cases e) (auto split: prod.splits dest: P_WriteEntry)
qed simp

lemma P_recover: "P s \<Longrightarrow> recoverFromFlushFailure e db s = Some (r, db', s') \<Longrightarrow> P s'"
  by (auto simp: recoverFromFlushFailure_def split: option.splits prod.splits dest: P_rewrite_entries)

lemma P_discard: "P s \<Longrightarrow> P (discard_table rd p s)"
  unfolding discard_table_def by (metis P_Reader_Close P_Remove prod.collapse)

lemma P_install: "P s \<Longrightarrow> P (snd (snd (Flush_install rd db s)))"
  unfolding Flush_install_def by (metis P_Remove prod.collapse snd_conv)

lemma P_Flush_write:
  assumes "P s" "Flush_write murmur now1 now2 db s = Some (r, db', s')"
  shows "P s'"
proof -
  let ?p = "filepath_Join (dataDir db) (sst_name now1)"
  obtain x1 s1 where nb: "NewBuilder ?p now2 s = (x1, s1)" by force
  note p1 = P_NewBuilder [OF assms(1) nb]
  show ?thesis
  proof (cases x1)
    case (Inl e)
    with assms(2) nb show ?thesis by (auto simp: Flush_write_def intro: P_recover [OF p1])
  next
    case (Inr b)
    then obtain m r2 s2 where m: "immutableMemtable db = Some m" "Builder_Flush murmur m b s1 = Some (r2, s2)"
      using assms(2) nb by (auto simp: Flush_write_def Let_def split: option.splits)
    note p2 = P_Builder_Flush [OF p1 m(2)]
    obtain x3 s3 where rd: "NewReader ?p s2 = (x3, s3)" by force
    note p3 = P_NewReader [OF p2 rd]
    have "P s'" if "Some (Flush_install rd' db s3) = Some (r, db', s')" for rd' using P_install [OF p3, of rd' db] that by simp
    with assms(2) nb Inr m rd p3 show ?thesis
      by (cases r2; cases x3) (auto simp: Flush_write_def Let_def split: sum.splits if_splits
          intro: P_recover [OF p2] P_recover [OF P_discard [OF p3]])
  qed
qed

lemma P_Flush: "P s \<Longrightarrow> Flush murmur rnd now1 now2 db s = Some (r, db', s') \<Longrightarrow> P s'"
  by (auto simp: Flush_def split: prod.splits option.splits dest: P_Flush_rotate P_Flush_write)

lemma P_close_readers: "P s \<Longrightarrow> close_readers rs s = (rs', s') \<Longrightarrow> P s'"
  by (induction rs arbitrary: s rs') (auto split: prod.splits dest: P_Reader_Close)

lemma P_StrataGo_Close:
  assumes "P s" "StrataGo_Close murmur rnd now1 now2 db s = Some (r, db', s')"
  shows "P s'"
proof (cases "closed db")
  case True
  with assms show ?thesis by (simp add: StrataGo_Close_def)
next
  case False
  then obtain r1 db1 s1 where fl: "Flush murmur rnd now1 now2 (db\<lparr>closed := True\<rparr>) s = Some (r1, db1, s1)"
    using assms(2) by (auto simp: StrataGo_Close_def split: option.splits)
  obtain r2 w s2 where c: "WAL_Close (db_wal db1) s1 = (r2, w, s2)" by (metis prod_cases3)
  obtain rs s3 where cr: "close_readers (sstReaders db1) s2 = (rs, s3)" by force
  have "P s1" "P s2" "P s3"
    using P_Flush [OF assms(1) fl] P_WAL_Close [OF _ c] P_close_readers [OF _ cr] by blast+
  with assms(2) False fl c cr show ?thesis by (cases r1) (auto simp: StrataGo_Close_def)
qed

lemma P_Purge:
  assumes "P s" "Purge murmur rnd rnd' now1 now2 db s = Some (r, db', s')"
  shows "P s'"
proof -
  obtain r1 db1 s1 where c: "StrataGo_Close murmur rnd now1 now2 db s = Some (r1, db1, s1)"
    using assms(2) by (auto simp: Purge_def split: option.splits)
  obtain r2 s2 where rm: "os_RemoveAll (dataDir db1) s1 = (r2, s2)" by force
  obtain r3 s3 where mk: "os_MkdirAll (dataDir db1) s2 = (r3, s3)" by force
  obtain r4 s4 where nw: "NewWAL (wal_name (dataDir db1)) s3 = (r4, s4)" by force
  have "P s1" "P s2" "P s3" "P s4"
    using P_StrataGo_Close [OF assms(1) c] P_RemoveAll [OF _ rm] P_MkdirAll [OF _ mk] P_NewWAL [OF _ nw] by blast+
  with assms(2) c rm mk nw show ?thesis
    by (cases r1; cases r2; cases r3; cases r4) (auto simp: Purge_def Let_def)
qed

lemma P_scan_readers: "P s \<Longrightarrow> scan_readers rs st s = (st', s') \<Longrightarrow> P s'"
proof (induction rs arbitrary: st s)
  case (Cons r rs)
  obtain x s1 where it: "Reader_NewIterator r s = (x, s1)" by force
  note p1 = P_NewIterator [OF Cons.prems(1) it]
  show ?case
  proof (cases x)
    case (Inl e)
    with Cons.IH [OF p1] Cons.prems(2) it show ?thesis by simp
  next
    case (Inr i)
    obtain es i1 where all: "iter_all i = (es, i1)" by force
    obtain e i2 s2 where cl: "SST_Close i1 s1 = (e, i2, s2)" by (metis prod_cases3)
    from Cons.IH [OF P_SST_Close [OF p1 cl]] Cons.prems(2) it Inr all cl show ?thesis by simp
  qed
qed simp

lemma P_ScanAll: "P s \<Longrightarrow> ScanAll db s = Some (r, s') \<Longrightarrow> P s'"
  by (auto simp: ScanAll_def split: if_splits prod.splits option.splits dest: P_scan_readers)

lemma P_replay: "P s \<Longrightarrow> replay_flushing es m w s = Some (r, m', w', s') \<Longrightarrow> P s'"
proof (induction es arbitrary: m w s)
  case (Cons e es)
  then show ?case by (cases e) (auto split: prod.splits option.splits dest: P_WriteEntry)
qed simp

lemma P_recover_flushing:
  assumes "P s" "recover_flushing ord d mem w s = Some (r, mem', w', s')"
  shows "P s'"
proof -
  obtain x1 s1 where st: "os_Stat (flushing_name d) s = (x1, s1)" by force
  obtain x2 s2 where nw: "NewWAL (flushing_name d) s1 = (x2, s2)" by force
  have p: "P s1" "P s2" using P_Stat [OF assms(1) st] P_NewWAL [OF _ nw] by blast+
  show ?thesis
  proof (cases "\<exists>n t. x1 = Inr n \<and> x2 = Inr t")
    case True
    then obtain n t where x: "x1 = Inr n" "x2 = Inr t" by blast
    obtain y t1 s3 where rc: "Recover t s2 = (y, t1, s3)" by (metis prod_cases3)
    obtain e t2 s4 where cl: "WAL_Close t1 s3 = (e, t2, s4)" by (metis prod_cases3)
    have p3: "P s3" "P s4" using P_Recover [OF p(2) rc] P_WAL_Close [OF _ cl] by blast+
    obtain m t3 s5 where pick: "(case y of Inl _ \<Rightarrow> ([], t2, s4) | Inr m \<Rightarrow> (m, t1, s3)) = (m, t3, s5)"
      by (metis prod_cases3)
    have p5: "P s5" using pick p3 by (auto split: sum.splits)
    obtain r6 m6 w6 s6 where rp: "replay_flushing (ord m) mem w s5 = Some (r6, m6, w6, s6)"
      using assms(2) st nw x rc cl pick by (auto simp: recover_flushing_def split: sum.splits option.splits)
    note p6 = P_replay [OF p5 rp]
    obtain e7 t7 s7 where cl7: "WAL_Close t3 s6 = (e7, t7, s7)" by (metis prod_cases3)
    obtain e8 s8 where rm: "os_Remove (flushing_name d) s7 = (e8, s8)" by force
    have "P s8" using P_WAL_Close [OF p6 cl7] P_Remove [OF _ rm] by blast
    with assms(2) st nw x rc cl pick rp p6 cl7 rm show ?thesis
      by (cases r6) (auto simp: recover_flushing_def split: sum.splits)
  next
    case False
    with assms(2) st nw p show ?thesis by (auto simp: recover_flushing_def split: sum.splits)
  qed
qed

lemma P_open_tables: "P s \<Longrightarrow> open_tables is s = (rs, s') \<Longrightarrow> P s'"
proof (induction "is" arbitrary: s rs)
  case (Cons i "is")
  then show ?case by (auto split: prod.splits sum.splits dest: P_NewReader)
qed simp

lemma P_Open_engine:
  assumes "P s" "Open rnd ord1 ord2 d s = Some (r, s')"
  shows "P s'"
proof -
  obtain r1 s1 where mk: "os_MkdirAll d s = (r1, s1)" by force
  obtain r2 s2 where nw: "NewWAL (wal_name d) s1 = (r2, s2)" by force
  have p: "P s1" "P s2" using P_MkdirAll [OF assms(1) mk] P_NewWAL [OF _ nw] by blast+
  show ?thesis
  proof (cases "r1 = None \<and> (\<exists>w. r2 = Inr w)")
    case True
    then obtain w where w: "r1 = None" "r2 = Inr w" by blast
    obtain r3 m3 w3 s3 where rf: "recover_flushing ord1 d (NewSkipList rnd) w s2 = Some (r3, m3, w3, s3)"
      using assms(2) mk nw w by (auto simp: Open_def split: option.splits)
    obtain r4 w4 s4 where rc: "Recover w3 s3 = (r4, w4, s4)" by (metis prod_cases3)
    obtain r5 s5 where rd: "os_ReadDir d s4 = (r5, s5)" by force
    have p: "P s3" "P s4" "P s5"
      using P_recover_flushing [OF p(2) rf] P_Recover [OF _ rc] P_ReadDir [OF _ rd] by blast+
    from assms(2) mk nw w rf rc rd p show ?thesis
      by (cases r3; cases r4; cases r5)
        (auto simp: Open_def split: option.splits prod.splits dest: P_open_tables [OF p(3)])
  next
    case False
    with assms(2) mk nw p show ?thesis by (auto simp: Open_def split: option.splits sum.splits)
  qed
qed

section \<open>Compaction\<close>

lemma P_select: "P s \<Longrightarrow> select_loop t g rs s = (x, s') \<Longrightarrow> P s'"
proof (induction rs arbitrary: t g s)
  case (Cons r rs)
  obtain q s1 where st: "os_Stat (Reader_Path r) s = (q, s1)" by force
  from Cons.IH [OF P_Stat [OF Cons.prems(1) st]] Cons.prems(2) st P_Stat [OF Cons.prems(1) st] show ?case
    by (cases q) (auto simp: Let_def split: if_splits)
qed simp

lemma P_open_iters: "P s \<Longrightarrow> open_iters rs s = (x, s') \<Longrightarrow> P s'"
proof (induction rs arbitrary: s x s')
  case (Cons r rs)
  then show ?case by (auto split: prod.splits sum.splits dest: P_NewIterator)
qed simp

lemma P_close_iters: "P s \<Longrightarrow> close_iters its s = (its', s') \<Longrightarrow> P s'"
  by (induction its arbitrary: s its') (auto split: prod.splits dest: P_SST_Close)

lemma P_delete_files: "P s \<Longrightarrow> P (delete_files rs s)"
proof (induction rs arbitrary: s)
  case (Cons r rs)
  have "P (snd (os_Remove (Reader_Path r) (snd (snd (Reader_Close r s)))))"
    using Cons.prems by (metis P_Reader_Close P_Remove prod.collapse)
  then show ?case by (simp add: Cons.IH)
qed simp

lemma P_compaction_delete: "P s \<Longrightarrow> P (compaction_delete its files s)"
  unfolding compaction_delete_def by (metis P_close_iters P_delete_files case_prod_conv prod.collapse)

lemma P_compaction_merge:
  assumes "P s" "compaction_merge murmur now d files s = Some (x, s')"
  shows "P s'"
proof -
  let ?p = "filepath_Join d (sst_name (Sscanf_ts (filepath_Base (Reader_Path (last files)))))"
  obtain x1 s1 where it: "open_iters (rev files) s = (x1, s1)" by force
  obtain x2 s2 where nb: "NewBuilder ?p now s1 = (x2, s2)" by force
  have p: "P s1" "P s2" using P_open_iters [OF assms(1) it] P_NewBuilder [OF _ nb] by blast+
  show ?thesis
  proof (cases "\<exists>its b. x1 = Inr its \<and> x2 = Inr b")
    case True
    then obtain its b where x: "x1 = Inr its" "x2 = Inr b" by blast
    obtain r3 s3 where mg: "Merge murmur its b s2 = Some (r3, s3)"
      using assms(2) it nb x by (auto simp: compaction_merge_def Let_def split: option.splits)
    obtain x4 s4 where rd: "NewReader ?p s3 = (x4, s4)" by force
    have "P s3" "P s4" using P_Merge [OF p(2) mg] P_NewReader [OF _ rd] by blast+
    with assms(2) it nb x mg rd show ?thesis
      by (cases r3; cases x4) (auto simp: compaction_merge_def Let_def)
  next
    case False
    with assms(2) it nb p show ?thesis by (auto simp: compaction_merge_def Let_def split: sum.splits)
  qed
qed

lemma P_RunCompaction:
  assumes "P s" "RunCompaction murmur now db s = Some (r, db', s')"
  shows "P s'"
proof -
  obtain files tier s1 where sel: "selectFilesForCompaction db s = ((files, tier), s1)" by (metis prod.collapse)
  have p1: "P s1" using P_select [OF assms(1)] sel by (simp add: selectFilesForCompaction_def)
  show ?thesis
  proof (cases "files = []")
    case True
    with assms(2) sel p1 show ?thesis by (simp add: RunCompaction_def)
  next
    case False
    then obtain x s2 where mg: "compaction_merge murmur now (dataDir db) files s1 = Some (x, s2)"
      using assms(2) sel by (auto simp: RunCompaction_def split: option.splits)
    note p2 = P_compaction_merge [OF p1 mg]
    from assms(2) sel False mg p2 P_compaction_delete [OF p2] show ?thesis
      by (auto simp: RunCompaction_def split: sum.splits prod.splits)
  qed
qed

end

section \<open>Three predicates\<close>

lemma fs_wf_bind:
  assumes "fs_wf s" "i \<in> snd ` set (fs_dir s)"
  shows "fs_wf (s\<lparr>fs_dir := AList.update n i (AList.delete m (fs_dir s))\<rparr>)"
proof -
  have "i < length (fs_data s)" using assms by (auto simp: fs_wf_def)
  from fs_wf_update [OF fs_wf_delete [OF assms(1), of m], of i n] this show ?thesis by simp
qed

interpretation dir_wf: os_invariant fs_wf
proof
  show "fs_wf s'" if "fs_wf s" "pop_fault s = (f, s')" for s f s'
    using that pop_fault_same [of s f s'] by (simp add: fs_wf_def)
  show "fs_wf (s\<lparr>fs_data := (fs_data s)[i := b]\<rparr>)" if "fs_wf s" for s i b
    using that by (simp add: fs_wf_def)
  show "fs_wf (snd (new_inode n s))" if "fs_wf s" for n s
    using fs_wf_update [OF fs_wf_grow [OF that, of "[]"], of "length (fs_data s)" n] by (simp add: new_inode_def)
  show "fs_wf (s\<lparr>fs_dir := d\<rparr>)" if "fs_wf s" "subseq d (fs_dir s)" for s d
    using that subseq_map [of d "fs_dir s" fst] subseqs_distinctD [of "map fst d" "map fst (fs_dir s)"]
    by (auto simp: fs_wf_def dest: list_emb_set)
qed (rule fs_wf_bind)

interpretation no_faults: os_invariant quiet
  by unfold_locales (auto simp: new_inode_def pop_fault_def split: list.splits)

interpretation file_count: os_invariant "\<lambda>s. n \<le> length (fs_data s)" for n
  by unfold_locales (auto simp: new_inode_def dest: pop_fault_same)

section \<open>Every call of the engine\<close>

datatype engine_call =
    CallPut bytes slice
  | CallDelete bytes
  | CallFlush "nat \<Rightarrow> nat" int int
  | CallClose "nat \<Rightarrow> nat" int int
  | CallPurge "nat \<Rightarrow> nat" "nat \<Rightarrow> nat" int int
  | CallScanAll
  | CallCompact int
  | CallOpen "nat \<Rightarrow> nat" "(bytes \<times> slice) list \<Rightarrow> (bytes \<times> slice) list"
      "(bytes \<times> slice) list \<Rightarrow> (bytes \<times> slice) list" string

text \<open>A call and its effect; what it returns is dropped, a failed \<^verbatim>\<open>Open\<close> leaves the old database.\<close>

fun run_call :: "(bytes \<Rightarrow> u32) \<Rightarrow> engine_call \<Rightarrow> StrataGo \<Rightarrow> fs \<Rightarrow> (StrataGo \<times> fs) option" where
  "run_call murmur (CallPut k v) db s = map_option snd (StrataGo_Put k v db s)"
| "run_call murmur (CallDelete k) db s = map_option snd (StrataGo_Delete k db s)"
| "run_call murmur (CallFlush rnd now1 now2) db s = map_option snd (Flush murmur rnd now1 now2 db s)"
| "run_call murmur (CallClose rnd now1 now2) db s = map_option snd (StrataGo_Close murmur rnd now1 now2 db s)"
| "run_call murmur (CallPurge rnd rnd' now1 now2) db s = map_option snd (Purge murmur rnd rnd' now1 now2 db s)"
| "run_call murmur CallScanAll db s = map_option (\<lambda>r. (db, snd r)) (ScanAll db s)"
| "run_call murmur (CallCompact now) db s = map_option snd (RunCompaction murmur now db s)"
| "run_call murmur (CallOpen rnd ord1 ord2 d) db s =
     map_option (\<lambda>r. (case fst r of Inl _ \<Rightarrow> db | Inr db' \<Rightarrow> db', snd r)) (Open rnd ord1 ord2 d s)"

fun run_calls :: "(bytes \<Rightarrow> u32) \<Rightarrow> engine_call list \<Rightarrow> StrataGo \<Rightarrow> fs \<Rightarrow> (StrataGo \<times> fs) option" where
  "run_calls murmur [] db s = Some (db, s)"
| "run_calls murmur (c # cs) db s =
     (case run_call murmur c db s of None \<Rightarrow> None | Some (db1, s1) \<Rightarrow> run_calls murmur cs db1 s1)"

context os_invariant
begin

lemma P_run_call: "P s \<Longrightarrow> run_call murmur c db s = Some (db', s') \<Longrightarrow> P s'"
  by (cases c) (auto simp: StrataGo_Delete_Put
      dest: P_Put P_Flush P_StrataGo_Close P_Purge P_ScanAll P_RunCompaction P_Open_engine)

lemma P_run_calls: "P s \<Longrightarrow> run_calls murmur cs db s = Some (db', s') \<Longrightarrow> P s'"
  by (induction cs arbitrary: db s) (auto split: option.splits dest: P_run_call)

end


end
