(* ===== verification/Cluster.thy ===== *)
theory Cluster
  imports KvServer FsTypes
begin

text \<open>
  A cluster of nodes: the state machine (\<^verbatim>\<open>src/consensus/fsm.go\<close>) on the engine of every node, driven by
  Raft. Raft is third-party code, and what the program relies on is the step relation: there is one committed log, which only grows;
  every node is handed its entries in order; after a restart it is handed them again from the start, or
  from the index of a snapshot that is restored first. Any node may take a snapshot and any node may restore any snapshot
  taken so far. The steps of the nodes are interleaved in any order.
\<close>

section \<open>The cluster\<close>

text \<open>The third-party parts: the decoder of commands, the codec of snapshot entries, the snapshot sink.\<close>

record 'k Parts =
  unmarshal_Command :: "bytes \<Rightarrow> error + Command"
  marshal_Entry :: "KVEntry \<Rightarrow> error + bytes"
  unmarshal_Entry :: "bytes \<Rightarrow> error + KVEntry"
  sink_write :: "bytes \<Rightarrow> 'k \<Rightarrow> error option \<times> 'k"
  sink_close :: "'k \<Rightarrow> error option \<times> 'k"
  sink_cancel :: "'k \<Rightarrow> 'k"
  sink_content :: "'k \<Rightarrow> bytes"
  new_sink :: 'k

record replica =
  rep_db :: StrataFSM
  rep_fs :: fs
  applied :: nat

text \<open>A snapshot is kept with the number of entries it covers.\<close>

record cluster =
  committed :: "bytes list"
  replicas :: "nat \<Rightarrow> replica"
  snapshots :: "(bytes \<times> nat) list"

datatype cluster_event =
    Commit bytes
  | Deliver nat
  | Flushed nat
  | Restart nat
  | TakeSnapshot nat
  | Install nat nat

definition set_replica :: "nat \<Rightarrow> StrataFSM \<Rightarrow> fs \<Rightarrow> nat \<Rightarrow> cluster \<Rightarrow> cluster" where
  "set_replica i db s n c = c\<lparr>replicas := (replicas c)(i := \<lparr>rep_db = db, rep_fs = s, applied = n\<rparr>)\<rparr>"

text \<open>
  The steps, as far as the key \<open>k\<close> goes: a flush or a snapshot is taken when \<open>k\<close> is not a ghost of a table.
  An entry is delivered when the engine accepts its write, or the entry stands for none.
\<close>

inductive cluster_step ::
  "(bytes \<Rightarrow> u32) \<Rightarrow> bytes \<Rightarrow> 'k Parts \<Rightarrow> cluster_event \<Rightarrow> cluster \<Rightarrow> cluster \<Rightarrow> bool" for murmur k P where
  commits: "length data < 2 ^ 32 \<Longrightarrow>
    cluster_step murmur k P (Commit data) c (c\<lparr>committed := committed c @ [data]\<rparr>)"
| delivers: "applied (replicas c i) < length (committed c) \<Longrightarrow>
    Apply (unmarshal_Command P) (committed c ! applied (replicas c i)) (rep_db (replicas c i)) (rep_fs (replicas c i)) =
      Some (resp, db', s') \<Longrightarrow>
    resp = None \<or> effect (unmarshal_Command P) (committed c ! applied (replicas c i)) = None \<Longrightarrow>
    cluster_step murmur k P (Deliver i) c (set_replica i db' s' (Suc (applied (replicas c i))) c)"
| flushes: "engine_step murmur k EFlush (rep_db (replicas c i), rep_fs (replicas c i)) (db', s') \<Longrightarrow>
    cluster_step murmur k P (Flushed i) c (set_replica i db' s' (applied (replicas c i)) c)"
| restarts: "engine_step murmur k ECrash (rep_db (replicas c i), rep_fs (replicas c i)) (db', s') \<Longrightarrow>
    cluster_step murmur k P (Restart i) c (set_replica i db' s' 0 c)"
| takes: "quiet (rep_fs (replicas c i)) \<Longrightarrow> db_tables murmur (rep_fs (replicas c i)) (rep_db (replicas c i)) ts \<Longrightarrow>
    no_ghosts murmur ts k \<Longrightarrow> Snapshot (rep_db (replicas c i)) (rep_fs (replicas c i)) = Some (Inr snap, s') \<Longrightarrow>
    \<forall>m. mset (ord m) = mset m \<Longrightarrow>
    Persist (marshal_Entry P) (sink_write P) (sink_close P) (sink_cancel P) ord snap (new_sink P) = (None, sink) \<Longrightarrow>
    cluster_step murmur k P (TakeSnapshot i) c
      (c\<lparr>snapshots := snapshots c @ [(sink_content P sink, applied (replicas c i))]\<rparr>)"
| installs: "j < length (snapshots c) \<Longrightarrow>
    can_purge murmur now1 now2 (rep_db (replicas c i)) (rep_fs (replicas c i)) \<Longrightarrow>
    Restore murmur rnd rnd' now1 now2 (unmarshal_Entry P) (fst (snapshots c ! j)) (rep_db (replicas c i)) (rep_fs (replicas c i)) =
      Some (resp, db', s') \<Longrightarrow>
    cluster_step murmur k P (Install i j) c (set_replica i db' s' (snd (snapshots c ! j)) c)"

inductive_cases commitsE: "cluster_step murmur k P (Commit data) c c'"
inductive_cases deliversE: "cluster_step murmur k P (Deliver i) c c'"
inductive_cases flushesE: "cluster_step murmur k P (Flushed i) c c'"
inductive_cases restartsE: "cluster_step murmur k P (Restart i) c c'"
inductive_cases takesE: "cluster_step murmur k P (TakeSnapshot i) c c'"
inductive_cases installsE: "cluster_step murmur k P (Install i j) c c'"

inductive cluster_run ::
  "(bytes \<Rightarrow> u32) \<Rightarrow> bytes \<Rightarrow> 'k Parts \<Rightarrow> cluster_event list \<Rightarrow> cluster \<Rightarrow> cluster \<Rightarrow> bool" for murmur k P where
  cluster_nil: "cluster_run murmur k P [] c c"
| cluster_snoc: "cluster_run murmur k P es c c' \<Longrightarrow> cluster_step murmur k P e c' c'' \<Longrightarrow>
    cluster_run murmur k P (es @ [e]) c c''"

section \<open>What is relied on\<close>

text \<open>A decoded field is no longer than the encoding it was decoded from.\<close>

definition fields_law :: "'k Parts \<Rightarrow> bool" where
  "fields_law P \<longleftrightarrow>
     (\<forall>b e. unmarshal_Entry P b = Inr e \<longrightarrow> length (EKey e) \<le> length b \<and> length (bytes_of (EValue e)) \<le> length b) \<and>
     (\<forall>b c. unmarshal_Command P b = Inr c \<longrightarrow> length (CKey c) \<le> length b \<and> length (bytes_of (CValue c)) \<le> length b)"

definition parts_law :: "'k Parts \<Rightarrow> bool" where
  "parts_law P \<longleftrightarrow> fields_law P \<and> proto_entry_law (marshal_Entry P) (unmarshal_Entry P) \<and>
     sink_law (sink_write P) (sink_close P) (sink_content P) \<and> sink_content P (new_sink P) = []"

section \<open>The specification\<close>

text \<open>The last write of a key in a log, and the value it leaves.\<close>

definition last_write :: "'k Parts \<Rightarrow> bytes list \<Rightarrow> bytes \<Rightarrow> bytes option option" where
  "last_write P log k =
     map_option (\<lambda>v. value_of (bytes_of v)) (map_of (rev (effects (unmarshal_Command P) log)) k)"

definition log_value :: "'k Parts \<Rightarrow> bytes list \<Rightarrow> bytes \<Rightarrow> bytes option" where
  "log_value P log k = (case last_write P log k of None \<Rightarrow> None | Some x \<Rightarrow> x)"

lemma effects_append: "effects unmarshal (xs @ ys) = effects unmarshal xs @ effects unmarshal ys"
  by (induction xs) (simp_all split: option.splits)

lemma last_write_simps [simp]:
  "last_write P [] k = None"
  "last_write P (log @ [data]) k =
     (case effect (unmarshal_Command P) data of
        None \<Rightarrow> last_write P log k
      | Some (k', v) \<Rightarrow> if k' = k then Some (value_of (bytes_of v)) else last_write P log k)"
  by (auto simp: last_write_def effects_append split: option.splits)

lemma last_write_mono:
  assumes "last_write P (take n log) k \<noteq> None"
  shows "last_write P log k \<noteq> None"
proof -
  have "last_write P (take n log @ drop n log) k \<noteq> None"
    using assms unfolding last_write_def effects_append by (auto simp: map_add_def split: option.splits)
  then show ?thesis by simp
qed

text \<open>
  What a node may show for a key after \<open>n\<close> entries: what the last write among them left, and if there is none what it had
  before, which can be something only if the log writes the key at all.
\<close>

definition displays :: "'k Parts \<Rightarrow> bytes list \<Rightarrow> nat \<Rightarrow> bytes \<Rightarrow> bytes option \<Rightarrow> bool" where
  "displays P log n k x \<longleftrightarrow> n \<le> length log \<and>
     (\<exists>m0. x = (case last_write P (take n log) k of None \<Rightarrow> m0 | Some y \<Rightarrow> y) \<and>
           (m0 = None \<or> last_write P log k \<noteq> None))"

definition entry_value :: "'k Parts \<Rightarrow> bytes \<Rightarrow> bytes \<Rightarrow> bytes option \<Rightarrow> bytes option" where
  "entry_value P data k x =
     (case effect (unmarshal_Command P) data of
        None \<Rightarrow> x | Some (k', v) \<Rightarrow> if k' = k then value_of (bytes_of v) else x)"

lemma displays_commit: "displays P log n k x \<Longrightarrow> displays P (log @ [data]) n k x"
  by (auto simp: displays_def split: option.splits)

lemma take_next: "n < length log \<Longrightarrow> take (Suc n) log = take n log @ [log ! n]"
  by (rule take_Suc_conv_app_nth)

lemma displays_deliver: "displays P log n k x \<Longrightarrow> n < length log \<Longrightarrow> displays P log (Suc n) k (entry_value P (log ! n) k x)"
  by (auto simp: displays_def take_next entry_value_def split: option.splits)

lemma displays_restart: "displays P log n k x \<Longrightarrow> displays P log 0 k x"
  using last_write_mono [of P n log k] by (auto simp: displays_def split: option.splits)

lemma displays_all: "displays P log (length log) k x \<Longrightarrow> x = log_value P log k"
  by (auto simp: displays_def log_value_def split: option.splits)

lemma log_value_next: "n < length log \<Longrightarrow>
  log_value P (take (Suc n) log) k = entry_value P (log ! n) k (log_value P (take n log) k)"
  by (auto simp: log_value_def entry_value_def take_next split: option.splits)

section \<open>Restoring a snapshot is durable\<close>

lemma Put_durable:
  assumes "durable murmur db s" "StrataGo_Put k v db s = Some (None, db', s')"
    and "length k < 2 ^ 32" "length (bytes_of v) < 2 ^ 32"
  shows "durable murmur db' s' \<and> engine_abs murmur k' (db', s') =
    (if k = k' then value_of (bytes_of v) else engine_abs murmur k' (db, s))"
proof -
  have "engine_step murmur k' (EPut k v) (db, s) (db', s')"
    using assms(2-4) by (intro engine_step.step_put) (simp_all add: wal_fits_def)
  from engine_step_sim [OF this assms(1)] show ?thesis by simp
qed

lemma Purge_durable:
  assumes "durable murmur db s" "can_purge murmur now1 now2 db s"
  shows "\<exists>db1 s1. Purge murmur rnd rnd' now1 now2 db s = Some (None, db1, s1) \<and> durable murmur db1 s1 \<and>
    writable db1 s1 \<and> engine_lookup murmur (db1, s1) = (\<lambda>_. None)"
proof -
  obtain db1 s1 where p: "Purge murmur rnd rnd' now1 now2 db s = Some (None, db1, s1)" "db_inv murmur db1 s1"
    "quiet s1" "wal_live db1 s1" "\<not> closed db1" "nothing_to_flush db1" "active_content db1 = []" "sstReaders db1 = []"
    "dataDir db1 = dataDir db" "\<forall>k. StrataGo_Get murmur k db1 s1 = Some None"
    "\<forall>n. in_tree (dataDir db) n \<longrightarrow> fs_file s1 n = (if n = wal_name (dataDir db) then Some [] else None)"
    using Purge_quiet [of murmur db s now1 now2 rnd rnd'] assms(2) unfolding can_purge_def by blast
  have wf: "fs_wf s1" using dir_wf.P_Purge [OF _ p(1)] assms(1) by (simp add: durable_def)
  have tree: "in_tree (dataDir db) (filepath_Join (dataDir db) n)" for n
    by (simp add: in_tree_def filepath_Join_def prefix_def)
  have only: "fs_file s1 (filepath_Join (dataDir db) n) = (if n = ''wal.log'' then Some [] else None)" for n
    using p(11) tree [of n] by (simp add: filepath_Join_def)
  have none: "map_of (fs_dir s1) (filepath_Join (dataDir db) n) = None" if "n \<noteq> ''wal.log''" for n
    using only [of n] that by (simp add: fs_file_def)
  have "durable murmur db1 s1"
    by (rule empty_durable [OF wf]) (use p none only [of "''wal.log''"] in \<open>auto simp: db_inv_def nothing_to_flush_def\<close>)
  with p show ?thesis by (auto simp: writable_def wal_live_def engine_lookup_def)
qed

lemma restore_loop_durable:
  "list_all2 (\<lambda>e b. snap_fits b \<and> unmarshal b = Inr \<lparr>EKey = fst e, EValue = snd e\<rparr>) es bs \<Longrightarrow>
    \<forall>e \<in> set es. length (fst e) < 2 ^ 32 \<and> length (bytes_of (snd e)) < 2 ^ 32 \<Longrightarrow>
    durable murmur db s \<Longrightarrow> writable db s \<Longrightarrow>
    \<exists>db' s'. restore_loop unmarshal (concat (map snap_frame bs)) db s = Some (None, db', s') \<and>
      durable murmur db' s' \<and> engine_lookup murmur (db', s') = updates es (engine_lookup murmur (db, s))"
proof (induction es bs arbitrary: db s rule: list_all2_induct)
  case Nil
  then show ?case by (simp add: restore_loop_end)
next
  case (Cons e es b bs)
  obtain k v where e: "e = (k, v)" by force
  have inv: "db_inv murmur db s" using Cons.prems(2) by (simp add: durable_def)
  obtain db1 s1 where p: "StrataGo_Put k v db s = Some (None, db1, s1)" "writable db1 s1"
    "engine_lookup murmur (db1, s1) = (engine_lookup murmur (db, s))(k := v)"
    using Put_writable [OF inv Cons.prems(3)] by blast
  have d: "durable murmur db1 s1" using Put_durable [OF Cons.prems(2) p(1)] Cons.prems(1) by (simp add: e)
  have "restore_loop unmarshal (snap_frame b @ concat (map snap_frame bs)) db s
      = restore_loop unmarshal (concat (map snap_frame bs)) db1 s1"
    using Cons.hyps(1) p(1) by (intro restore_loop_step) (simp_all add: e)
  moreover have "updates (e # es) (engine_lookup murmur (db, s)) = updates es (engine_lookup murmur (db1, s1))"
    by (simp only: e updates_simps p(3))
  ultimately show ?case using Cons.IH [OF _ d p(2)] Cons.prems(1) by (simp del: updates_simps)
qed

lemma Restore_durable:
  assumes "durable murmur db s" "can_purge murmur now1 now2 db s"
    and "list_all2 (\<lambda>e b. snap_fits b \<and> unmarshal b = Inr \<lparr>EKey = fst e, EValue = snd e\<rparr>) es bs"
    and "\<forall>e \<in> set es. length (fst e) < 2 ^ 32 \<and> length (bytes_of (snd e)) < 2 ^ 32"
  shows "\<exists>db' s'. Restore murmur rnd rnd' now1 now2 unmarshal (concat (map snap_frame bs)) db s = Some (None, db', s') \<and>
    durable murmur db' s' \<and> engine_lookup murmur (db', s') = updates es (\<lambda>_. None)"
proof -
  obtain db1 s1 where p: "Purge murmur rnd rnd' now1 now2 db s = Some (None, db1, s1)" "durable murmur db1 s1"
    "writable db1 s1" "engine_lookup murmur (db1, s1) = (\<lambda>_. None)"
    using Purge_durable [OF assms(1,2)] by blast
  from restore_loop_durable [OF assms(3,4) p(2,3)] show ?thesis by (simp add: Restore_def p(1,4))
qed

section \<open>The invariant\<close>

abbreviation shown :: "(bytes \<Rightarrow> u32) \<Rightarrow> bytes \<Rightarrow> replica \<Rightarrow> bytes option" where
  "shown murmur k r \<equiv> engine_abs murmur k (rep_db r, rep_fs r)"

text \<open>A stored stream restores to what a node could show after the entries it covers.\<close>

definition stream_ok :: "'k Parts \<Rightarrow> bytes list \<Rightarrow> bytes \<Rightarrow> bytes \<times> nat \<Rightarrow> bool" where
  "stream_ok P log k sn \<longleftrightarrow> (\<exists>es bs. fst sn = concat (map snap_frame bs) \<and>
     list_all2 (\<lambda>e b. snap_fits b \<and> unmarshal_Entry P b = Inr \<lparr>EKey = fst e, EValue = snd e\<rparr>) es bs \<and>
     displays P log (snd sn) k (visible (Some (updates es (\<lambda>_. None) k))))"

definition cluster_inv :: "(bytes \<Rightarrow> u32) \<Rightarrow> bytes \<Rightarrow> 'k Parts \<Rightarrow> cluster \<Rightarrow> bool" where
  "cluster_inv murmur k P c \<longleftrightarrow> (\<forall>data \<in> set (committed c). length data < 2 ^ 32) \<and>
     (\<forall>i. durable murmur (rep_db (replicas c i)) (rep_fs (replicas c i)) \<and>
          displays P (committed c) (applied (replicas c i)) k (shown murmur k (replicas c i))) \<and>
     (\<forall>sn \<in> set (snapshots c). stream_ok P (committed c) k sn)"

lemma cluster_inv_set:
  assumes "cluster_inv murmur k P c" "durable murmur db s" "displays P (committed c) n k (engine_abs murmur k (db, s))"
  shows "cluster_inv murmur k P (set_replica i db s n c)"
  using assms by (simp add: cluster_inv_def set_replica_def)

text \<open>An accepted entry does to the engine what it does to the specification.\<close>

lemma Apply_durable:
  assumes "durable murmur db s" "fields_law P" "length data < 2 ^ 32"
    and "Apply (unmarshal_Command P) data db s = Some (resp, db', s')"
    and "resp = None \<or> effect (unmarshal_Command P) data = None"
  shows "durable murmur db' s' \<and> engine_abs murmur k (db', s') = entry_value P data k (engine_abs murmur k (db, s))"
proof (cases "effect (unmarshal_Command P) data")
  case None
  with assms(1,4) show ?thesis
    using Apply_effect [of "unmarshal_Command P" data "(db, s)"] by (simp add: entry_value_def)
next
  case (Some kv)
  obtain k' v where kv: "kv = (k', v)" by force
  have fits: "length k' < 2 ^ 32" "length (bytes_of v) < 2 ^ 32"
    using Some kv assms(2,3) by (fastforce simp: effect_def fields_law_def split: sum.splits Operation.splits)+
  have "StrataGo_Put k' v db s = Some (None, db', s')"
    using Some kv assms(4,5) Apply_effect [of "unmarshal_Command P" data "(db, s)"] by (simp add: engine_write_def)
  from Put_durable [OF assms(1) this fits, of k] show ?thesis by (simp add: entry_value_def Some kv)
qed

lemma stream_entries_fit:
  assumes "fields_law P"
    and "list_all2 (\<lambda>e b. snap_fits b \<and> unmarshal_Entry P b = Inr \<lparr>EKey = fst e, EValue = snd e\<rparr>) es bs"
  shows "\<forall>e \<in> set es. length (fst e) < 2 ^ 32 \<and> length (bytes_of (snd e)) < 2 ^ 32"
proof
  fix e assume "e \<in> set es"
  then obtain b where "snap_fits b" "unmarshal_Entry P b = Inr \<lparr>EKey = fst e, EValue = snd e\<rparr>"
    using assms(2) by (auto simp: list_all2_conv_all_nth in_set_conv_nth)
  with assms(1) show "length (fst e) < 2 ^ 32 \<and> length (bytes_of (snd e)) < 2 ^ 32"
    by (fastforce simp: fields_law_def)
qed

lemma visible_value: "visible (Some (value_of (bytes_of v))) = visible (Some v)"
  by (cases v) (auto simp: visible_def value_of_def)

lemma stream_ok_commit: "stream_ok P log k sn \<Longrightarrow> stream_ok P (log @ [data]) k sn"
  unfolding stream_ok_def by (blast intro: displays_commit)

lemma replica_inv:
  assumes "cluster_inv murmur k P c"
  shows "durable murmur (rep_db (replicas c i)) (rep_fs (replicas c i))"
    "displays P (committed c) (applied (replicas c i)) k (shown murmur k (replicas c i))"
  using assms by (simp_all add: cluster_inv_def)

text \<open>A snapshot that was taken covers the entries its node has been handed.\<close>

lemma taken_stream:
  assumes "durable murmur db s" "displays P log n k (engine_abs murmur k (db, s))" "parts_law P"
    and "quiet s" "db_tables murmur s db ts" "no_ghosts murmur ts k" "Snapshot db s = Some (Inr snap, s')"
    and "\<forall>m. mset (ord m) = mset m"
    and "Persist (marshal_Entry P) (sink_write P) (sink_close P) (sink_cancel P) ord snap (new_sink P) = (None, sink)"
  shows "stream_ok P log k (sink_content P sink, n)"
proof -
  have inv: "db_inv murmur db s" "names_live db s" using assms(1) by (simp_all add: durable_def)
  have laws: "proto_entry_law (marshal_Entry P) (unmarshal_Entry P)"
    "sink_law (sink_write P) (sink_close P) (sink_content P)" "sink_content P (new_sink P) = []"
    using assms(3) by (simp_all add: parts_law_def)
  obtain es bs where st: "sink_content P sink = concat (map snap_frame bs)"
    "list_all2 (\<lambda>e b. snap_fits b \<and> unmarshal_Entry P b = Inr \<lparr>EKey = fst e, EValue = snd e\<rparr>) es bs"
    "updates es (\<lambda>_. None) k = value_of (bytes_of (engine_lookup murmur (db, s) k))"
    using snapshot_stream [OF inv(1) assms(5,4) inv(2) assms(7) laws(1,2) assms(8,9) laws(3)] assms(6) by blast
  have "engine_abs murmur k (db, s) = visible (Some (updates es (\<lambda>_. None) k))"
    using engine_lookup_Get [OF inv(1), of k] by (simp add: engine_abs_def st(3) visible_value)
  with st(1,2) assms(2) show ?thesis
    unfolding stream_ok_def by (intro exI [of _ es] exI [of _ bs]) simp
qed

text \<open>A node that restores a stream shows what the stream holds.\<close>

lemma installed_stream:
  assumes "durable murmur db s" "can_purge murmur now1 now2 db s" "fields_law P" "stream_ok P log k sn"
    and "Restore murmur rnd rnd' now1 now2 (unmarshal_Entry P) (fst sn) db s = Some (resp, db', s')"
  shows "durable murmur db' s'" "displays P log (snd sn) k (engine_abs murmur k (db', s'))"
proof -
  obtain es bs where st: "fst sn = concat (map snap_frame bs)"
    "list_all2 (\<lambda>e b. snap_fits b \<and> unmarshal_Entry P b = Inr \<lparr>EKey = fst e, EValue = snd e\<rparr>) es bs"
    "displays P log (snd sn) k (visible (Some (updates es (\<lambda>_. None) k)))"
    using assms(4) unfolding stream_ok_def by blast
  from Restore_durable [OF assms(1,2) st(2) stream_entries_fit [OF assms(3) st(2)], of rnd rnd'] assms(5)
  have d: "durable murmur db' s'" "engine_lookup murmur (db', s') = updates es (\<lambda>_. None)"
    by (simp_all add: st(1))
  then have "engine_abs murmur k (db', s') = visible (Some (updates es (\<lambda>_. None) k))"
    using engine_lookup_Get [of murmur db' s' k] by (simp add: engine_abs_def durable_def)
  with d(1) st(3) show "durable murmur db' s'" "displays P log (snd sn) k (engine_abs murmur k (db', s'))" by simp_all
qed

lemma cluster_step_inv:
  assumes "cluster_step murmur k P e c c'" "cluster_inv murmur k P c" "parts_law P"
  shows "cluster_inv murmur k P c'"
proof -
  note r = replica_inv [OF assms(2)]
  have law: "fields_law P" using assms(3) by (simp add: parts_law_def)
  show ?thesis
    using assms(1)
  proof cases
    case (commits data)
    with assms(2) show ?thesis by (auto simp: cluster_inv_def intro: displays_commit stream_ok_commit)
  next
    case (delivers i resp db' s')
    have "length (committed c ! applied (replicas c i)) < 2 ^ 32"
      using assms(2) delivers(3) by (simp add: cluster_inv_def)
    from Apply_durable [OF r(1) law this delivers(4,5), of k] displays_deliver [OF r(2) delivers(3)]
    show ?thesis unfolding delivers(2) by (intro cluster_inv_set [OF assms(2)]) simp_all
  next
    case (flushes i db' s')
    from engine_step_sim [OF flushes(3) r(1)] r(2) [of i]
    show ?thesis unfolding flushes(2) by (intro cluster_inv_set [OF assms(2)]) simp_all
  next
    case (restarts i db' s')
    from engine_step_sim [OF restarts(3) r(1)] displays_restart [OF r(2) [of i]]
    show ?thesis unfolding restarts(2) by (intro cluster_inv_set [OF assms(2)]) simp_all
  next
    case (takes i ts snap s' ord sink)
    from taken_stream [OF r assms(3) takes(3-8)] assms(2) show ?thesis by (simp add: takes(2) cluster_inv_def)
  next
    case (installs j now1 now2 i rnd rnd' resp db' s')
    have "stream_ok P (committed c) k (snapshots c ! j)" using assms(2) installs(3) by (simp add: cluster_inv_def)
    from installed_stream [OF r(1) installs(4) law this installs(5)]
    show ?thesis unfolding installs(2) by (rule cluster_inv_set [OF assms(2)])
  qed
qed

text \<open>A cluster before its first entry: durable engines that do not find the key.\<close>

definition cluster_start :: "(bytes \<Rightarrow> u32) \<Rightarrow> bytes \<Rightarrow> cluster \<Rightarrow> bool" where
  "cluster_start murmur k c \<longleftrightarrow> committed c = [] \<and> snapshots c = [] \<and>
     (\<forall>i. durable murmur (rep_db (replicas c i)) (rep_fs (replicas c i)) \<and> applied (replicas c i) = 0 \<and>
          shown murmur k (replicas c i) = None)"

lemma cluster_run_inv:
  "cluster_run murmur k P es c c' \<Longrightarrow> cluster_start murmur k c \<Longrightarrow> parts_law P \<Longrightarrow> cluster_inv murmur k P c'"
proof (induction rule: cluster_run.induct)
  case (cluster_nil c)
  then show ?case by (auto simp: cluster_start_def cluster_inv_def displays_def)
qed (rule cluster_step_inv)

text \<open>
  C5: the cluster refines its log. Along any interleaving of commits, deliveries, flushes, crashes with restart and redelivery,
  snapshots and restores, every node keeps a durable engine; and a node that has been handed the
  whole committed log shows for the key exactly what the last write of it in the log says, or nothing. So
  any two such nodes agree, whatever happened to each.
\<close>

theorem cluster_refines_log:
  assumes "cluster_run murmur k P es c c'" "cluster_start murmur k c" "parts_law P"
  shows "durable murmur (rep_db (replicas c' i)) (rep_fs (replicas c' i)) \<and>
    applied (replicas c' i) \<le> length (committed c') \<and>
    (applied (replicas c' i) = length (committed c') \<longrightarrow>
       visible (StrataGo_Get murmur k (rep_db (replicas c' i)) (rep_fs (replicas c' i))) = log_value P (committed c') k)"
proof -
  have "cluster_inv murmur k P c'" by (rule cluster_run_inv [OF assms])
  then have d: "durable murmur (rep_db (replicas c' i)) (rep_fs (replicas c' i))"
    "displays P (committed c') (applied (replicas c' i)) k (shown murmur k (replicas c' i))"
    by (simp_all add: cluster_inv_def)
  have "applied (replicas c' i) \<le> length (committed c')" using d(2) by (simp add: displays_def)
  moreover have "shown murmur k (replicas c' i) = log_value P (committed c') k"
    if "applied (replicas c' i) = length (committed c')"
    by (rule displays_all) (use d(2) that in simp)
  ultimately show ?thesis using d(1) by (simp add: engine_abs_def)
qed

section \<open>Strong reads\<close>

text \<open>A node that has never restarted nor restored a snapshot is exactly as far as its deliveries.\<close>

lemma steady_shown:
  assumes "cluster_run murmur k P es c c'" "cluster_start murmur k c" "parts_law P"
    and "\<forall>e \<in> set es. e \<noteq> Restart i \<and> (\<forall>j. e \<noteq> Install i j)"
  shows "shown murmur k (replicas c' i) = log_value P (take (applied (replicas c' i)) (committed c')) k"
  using assms
proof (induction rule: cluster_run.induct)
  case (cluster_nil c)
  then show ?case by (simp add: cluster_start_def log_value_def)
next
  case (cluster_snoc es c c' e c'')
  have inv: "cluster_inv murmur k P c'"
    by (rule cluster_run_inv [OF cluster_snoc.hyps(1) cluster_snoc.prems(1,2)])
  note r = replica_inv [OF inv, of i]
  have IH: "shown murmur k (replicas c' i) = log_value P (take (applied (replicas c' i)) (committed c')) k"
    using cluster_snoc by simp
  have law: "fields_law P" using cluster_snoc.prems(2) by (simp add: parts_law_def)
  have n: "applied (replicas c' i) \<le> length (committed c')" using r(2) by (simp add: displays_def)
  show ?case
    using cluster_snoc.hyps(2)
  proof cases
    case (commits data)
    then show ?thesis using IH n by simp
  next
    case (delivers i' resp db' s')
    show ?thesis
    proof (cases "i' = i")
      case True
      have "length (committed c' ! applied (replicas c' i)) < 2 ^ 32"
        using inv delivers(3) True by (simp add: cluster_inv_def)
      from Apply_durable [OF r(1) law this] delivers(3-5) True IH
      show ?thesis by (simp add: delivers(2) set_replica_def log_value_next)
    qed (use IH in \<open>simp add: delivers(2) set_replica_def\<close>)
  next
    case (flushes i' db' s')
    then show ?thesis
      using engine_step_sim [OF _ r(1), of k EFlush db' s'] IH by (cases "i' = i") (simp_all add: set_replica_def)
  qed (use IH cluster_snoc.prems(3) in \<open>auto simp: set_replica_def\<close>)
qed

text \<open>What a response tells the client.\<close>

definition read_value :: "GetResponse \<Rightarrow> bytes option" where
  "read_value resp = (if GFound resp then value_of (bytes_of (GValue resp)) else None)"

lemma KVServer_Get_strong:
  assumes "db_inv murmur db s" "raft_VerifyLeader env = None" "GConsistency req = STRONG"
  shows "\<exists>resp srv'. KVServer_Get murmur env req srv db s = Some (Inr resp, srv') \<and>
    read_value resp = engine_abs murmur (GKey req) (db, s)"
  using assms(2,3) engine_lookup_Get [OF assms(1), of "GKey req"]
  by (auto simp: KVServer_Get_def get_check_def read_value_def engine_abs_def visible_def value_of_def split: option.splits)


section \<open>A write that fails on one node\<close>

lemma unwritten:
  "\<forall>data \<in> set log. \<forall>v. effect unmarshal data \<noteq> Some (k, v) \<Longrightarrow>
    updates (effects unmarshal (accepted log rs)) m k = m k"
proof (induction log arbitrary: rs m)
  case (Cons data log)
  show ?case
  proof (cases rs)
    case (Cons r rs')
    with Cons.IH Cons.prems show ?thesis by (cases r) (auto split: option.splits)
  qed simp
qed simp

text \<open>
  C24: nodes that part for good. Two nodes that agree are handed the same committed write; the engine of one takes it,
  the engine of the other fails and \<^verbatim>\<open>Apply\<close> returns the error as the response, which is all that happens. As long as
  the key is not written again, and whatever else both are handed, one finds the new value and the other the old one.
\<close>

theorem apply_error_diverges:
  assumes "db_inv murmur db1 s1" "db_inv murmur db2 s2"
    and "StrataGo_Get murmur k db1 s1 = StrataGo_Get murmur k db2 s2"
    and "effect unmarshal data = Some (k, v)" "\<forall>d \<in> set log. \<forall>v'. effect unmarshal d \<noteq> Some (k, v')"
    and "Apply unmarshal data db1 s1 = Some (None, db1', s1')" "Apply unmarshal data db2 s2 = Some (Some e, db2', s2')"
  shows "\<exists>rs1 db1'' s1'' rs2 db2'' s2''.
    apply_log unmarshal log db1' s1' = Some (rs1, db1'', s1'') \<and> apply_log unmarshal log db2' s2' = Some (rs2, db2'', s2'') \<and>
    StrataGo_Get murmur k db1'' s1'' = Some v \<and> StrataGo_Get murmur k db2'' s2'' = StrataGo_Get murmur k db1 s1"
proof -
  obtain rs1 db1'' s1'' where 1: "apply_log unmarshal (data # log) db1 s1 = Some (None # rs1, db1'', s1'')"
    "apply_log unmarshal log db1' s1' = Some (rs1, db1'', s1'')" "db_inv murmur db1'' s1''"
    "engine_lookup murmur (db1'', s1'') =
       updates (effects unmarshal (accepted (data # log) (None # rs1))) (engine_lookup murmur (db1, s1))"
    using apply_log_spec [OF assms(1), of unmarshal "data # log"] assms(6) by (auto split: option.splits)
  obtain rs2 db2'' s2'' where 2: "apply_log unmarshal (data # log) db2 s2 = Some (Some e # rs2, db2'', s2'')"
    "apply_log unmarshal log db2' s2' = Some (rs2, db2'', s2'')" "db_inv murmur db2'' s2''"
    "engine_lookup murmur (db2'', s2'') =
       updates (effects unmarshal (accepted (data # log) (Some e # rs2))) (engine_lookup murmur (db2, s2))"
    using apply_log_spec [OF assms(2), of unmarshal "data # log"] assms(7) by (auto split: option.splits)
  have "engine_lookup murmur (db1'', s1'') k = v" "engine_lookup murmur (db2'', s2'') k = engine_lookup murmur (db2, s2) k"
    using 1(4) 2(4) assms(4) by (simp_all add: unwritten [OF assms(5)])
  with 1 2 assms(1-3) show ?thesis by (simp add: engine_lookup_Get)
qed

end
