(* ===== verification/ReplicaSamples.thy ===== *)
theory ReplicaSamples
  imports ClusterSamples Cluster
begin

text \<open>
  A cluster of nodes with the sample codecs. One entry is committed; node 0 is handed it and takes a snapshot,
  node 1 restores the snapshot, node 2 is handed nothing.
\<close>

definition parts1 :: "bytes Parts" where
  "parts1 = \<lparr>unmarshal_Command = sample_unmarshal_command, marshal_Entry = sample_marshal_entry,
     unmarshal_Entry = sample_unmarshal_entry, sink_write = sample_sink_Write, sink_close = sample_sink_Close,
     sink_cancel = id, sink_content = id, new_sink = []\<rparr>"

lemma unpack_lengths: "sample_unpack b = Inr (k, v) \<Longrightarrow> length k \<le> length b \<and> length (bytes_of v) \<le> length b"
  by (auto simp: sample_unpack_def ReadFull_Inr Read_u32_def value_of_def split: sum.splits if_splits)

lemma parts1_law: "parts_law parts1"
proof -
  have "fields_law parts1"
    using unpack_lengths
    by (fastforce simp: fields_law_def parts1_def sample_unmarshal_entry_def sample_unmarshal_command_def
        split: sum.splits list.splits)
  then show ?thesis using sample_entry_law sample_sink_law by (simp add: parts_law_def parts1_def)
qed

definition start1 :: cluster where
  "start1 = \<lparr>committed = [], replicas = (\<lambda>i. \<lparr>rep_db = db0, rep_fs = fs0, applied = 0\<rparr>), snapshots = []\<rparr>"

definition entry7 :: bytes where
  "entry7 = 0 # PutUint32 1 @ [1] @ [7]"

lemma start1_ok: "cluster_start sample_hash [1] start1"
proof -
  have "StrataGo_Get sample_hash [1] db0 fs0 = Some None"
    using StrataGo_Get_layers [OF mem_ok0, of sample_hash fs0 "[]" "[1]"] by (simp add: layered_Get_def imm_content_def)
  then show ?thesis using durable0 by (simp add: cluster_start_def start1_def engine_abs_def visible_def)
qed

lemma deliver7: "Apply sample_unmarshal_command entry7 db0 fs0 = Some (None, db1, fs1)"
  using Apply_effect [of sample_unmarshal_command entry7 "(db0, fs0)"] put_db1
  by (simp add: entry7_def effects7 [simplified] engine_write_def)

definition cluster1 :: cluster where
  "cluster1 = set_replica 0 db1 fs1 1 (start1\<lparr>committed := [entry7]\<rparr>)"

lemma run1: "cluster_run sample_hash [1] parts1 ([] @ [Commit entry7] @ [Deliver 0]) start1 cluster1"
proof -
  have "cluster_step sample_hash [1] parts1 (Commit entry7) start1 (start1\<lparr>committed := committed start1 @ [entry7]\<rparr>)"
    by (rule commits) (simp add: entry7_def)
  then have c: "cluster_run sample_hash [1] parts1 ([] @ [Commit entry7]) start1 (start1\<lparr>committed := [entry7]\<rparr>)"
    using cluster_snoc [OF cluster_nil] by (simp add: start1_def)
  have "cluster_step sample_hash [1] parts1 (Deliver 0) (start1\<lparr>committed := [entry7]\<rparr>) cluster1"
    using delivers [of "start1\<lparr>committed := [entry7]\<rparr>" 0 parts1 None db1 fs1 sample_hash "[1]"] deliver7
    by (simp add: cluster1_def start1_def parts1_def)
  from cluster_snoc [OF c this] show ?thesis by simp
qed

lemma run2:
  assumes "Restore sample_hash sample_rnd sample_rnd 5 6 sample_unmarshal_entry stream1 db0 fs0 = Some (r, db', s')"
  shows "cluster_run sample_hash [1] parts1 (([] @ [Commit entry7] @ [Deliver 0]) @ [TakeSnapshot 0] @ [Install 1 0]) start1
    (set_replica 1 db' s' 1 (cluster1\<lparr>snapshots := [(stream1, 1)]\<rparr>))"
proof -
  have r: "replicas cluster1 0 = \<lparr>rep_db = db1, rep_fs = fs1, applied = 1\<rparr>"
    "replicas cluster1 1 = \<lparr>rep_db = db0, rep_fs = fs0, applied = 0\<rparr>" "snapshots cluster1 = []"
    by (simp_all add: cluster1_def set_replica_def start1_def)
  have "cluster_step sample_hash [1] parts1 (TakeSnapshot 0) cluster1 (cluster1\<lparr>snapshots := [(stream1, 1)]\<rparr>)"
    using takes [of cluster1 0 sample_hash "[]" "[1]" snap1 fs1 id parts1 stream1] snapshot1 persist1
    by (simp add: r parts1_def no_ghosts_def)
  note t = cluster_snoc [OF run1 this]
  have "cluster_step sample_hash [1] parts1 (Install 1 0) (cluster1\<lparr>snapshots := [(stream1, 1)]\<rparr>)
      (set_replica 1 db' s' 1 (cluster1\<lparr>snapshots := [(stream1, 1)]\<rparr>))"
    using installs [of 0 "cluster1\<lparr>snapshots := [(stream1, 1)]\<rparr>" sample_hash 5 6 1 sample_rnd sample_rnd parts1 r db' s' "[1]"]
      can_purge0 assms
    by (simp add: r(2) [unfolded One_nat_def] parts1_def)
  from cluster_snoc [OF t this] show ?thesis by simp
qed

lemma log_value7: "log_value parts1 [entry7] [1] = Some [7]"
  using last_write_simps(2) [of parts1 "[]" entry7 "[1]"] effects7(1)
  by (simp add: log_value_def parts1_def entry7_def value_of_def)

theorem cluster_refines_log_witness:
  "\<exists>r db' s'. Restore sample_hash sample_rnd sample_rnd 5 6 sample_unmarshal_entry stream1 db0 fs0 = Some (r, db', s') \<and>
    visible (StrataGo_Get sample_hash [1] db' s') = Some [7] \<and>
    visible (StrataGo_Get sample_hash [1] db1 fs1) = Some [7]"
proof -
  obtain r db' s' where re:
    "Restore sample_hash sample_rnd sample_rnd 5 6 sample_unmarshal_entry stream1 db0 fs0 = Some (r, db', s')"
    using snapshot_restore [OF inv1 _ fs1_simps(2) _ snapshot1 sample_entry_law sample_sink_law _ persist1 _ can_purge0,
        of "[]" sample_rnd sample_rnd] by (fastforce simp: names_live_def)
  let ?c = "set_replica 1 db' s' 1 (cluster1\<lparr>snapshots := [(stream1, 1)]\<rparr>)"
  have c: "committed ?c = [entry7]" "replicas ?c 1 = \<lparr>rep_db = db', rep_fs = s', applied = 1\<rparr>"
    "replicas ?c 0 = \<lparr>rep_db = db1, rep_fs = fs1, applied = 1\<rparr>"
    by (simp_all add: cluster1_def set_replica_def start1_def)
  note w = cluster_refines_log [OF run2 [OF re] start1_ok parts1_law]
  from w [of 1] w [of 0] have "visible (StrataGo_Get sample_hash [1] db' s') = Some [7]"
    "visible (StrataGo_Get sample_hash [1] db1 fs1) = Some [7]"
    unfolding c by (simp_all add: log_value7)
  with re show ?thesis by blast
qed


theorem apply_error_diverges_witness:
  "\<exists>db2' s2'. Apply sample_unmarshal_command entry7 db0 (fs0\<lparr>fs_faults := [Fault 0]\<rparr>) = Some (Some ErrIO, db2', s2') \<and>
    StrataGo_Get sample_hash [1] db1 fs1 = Some (Some [7]) \<and> StrataGo_Get sample_hash [1] db2' s2' = Some None"
proof -
  let ?s = "fs0\<lparr>fs_faults := [Fault 0]\<rparr>"
  have inv: "db_inv sample_hash db0 ?s" by (simp add: db_inv_def mem_ok0)
  have same: "StrataGo_Get sample_hash [1] db0 fs0 = StrataGo_Get sample_hash [1] db0 ?s"
    by (simp add: StrataGo_Get_def split: option.splits)
  have none: "StrataGo_Get sample_hash [1] db0 fs0 = Some None"
    using StrataGo_Get_layers [OF mem_ok0, of sample_hash fs0 "[]" "[1]"] by (simp add: layered_Get_def imm_content_def)
  have eff: "effect sample_unmarshal_command entry7 = Some ([1], Some [7])" using effects7(1) by (simp add: entry7_def)
  obtain db2' s2' where f: "Apply sample_unmarshal_command entry7 db0 ?s = Some (Some ErrIO, db2', s2')"
    using Apply_effect [of sample_unmarshal_command entry7 "(db0, ?s)"] eff
    by (simp add: engine_write_def StrataGo_Put_def WriteEntry_def Let_def file_Write_def pop_fault_def)
  from apply_error_diverges [OF inv0 inv same eff, of "[]"] deliver7 f none show ?thesis by simp
qed

end
