(* ===== verification/Faults.thy ===== *)
theory Faults
  imports Interleaving
begin

text \<open>
  The storage engine under every fault schedule: whichever system calls fail, and in whichever
  order. \<open>keeps\<close> is the frame of a piece of code, the inodes it may write to and the names it may
  bind; every operation of the builder, the log and the readers gets one, and from them follows what
  a flush leaves behind on each of its error paths.
\<close>

section \<open>Frames\<close>

definition keeps :: "nat set \<Rightarrow> string set \<Rightarrow> fs \<Rightarrow> fs \<Rightarrow> bool" where
  "keeps I N s s' \<longleftrightarrow> length (fs_data s) \<le> length (fs_data s') \<and>
     (\<forall>i. i < length (fs_data s) \<and> i \<notin> I \<longrightarrow> fs_data s' ! i = fs_data s ! i) \<and>
     (\<forall>n. n \<notin> N \<longrightarrow> map_of (fs_dir s') n = map_of (fs_dir s) n)"

named_theorems frames

lemma keeps_refl [simp, frames]: "keeps I N s s"
  by (simp add: keeps_def)

lemma keeps_trans: "keeps I N s s1 \<Longrightarrow> keeps I N s1 s2 \<Longrightarrow> keeps I N s s2"
  unfolding keeps_def by (auto dest: le_trans)

lemma keeps_mono: "keeps I N s s' \<Longrightarrow> I \<subseteq> I' \<Longrightarrow> N \<subseteq> N' \<Longrightarrow> keeps I' N' s s'"
  unfolding keeps_def by blast

lemma keeps_all: "keeps {} {} s s' \<Longrightarrow> keeps I N s s'"
  by (erule keeps_mono) simp_all

text \<open>An inode that did not exist before is not part of the frame.\<close>

lemma keeps_new: "keeps (insert i I) N s s' \<Longrightarrow> length (fs_data s) \<le> i \<Longrightarrow> keeps I N s s'"
  unfolding keeps_def by (metis insert_iff not_less)

lemma keeps_pop [frames]: "pop_fault s = (f, s1) \<Longrightarrow> keeps I N s s1"
  by (simp add: keeps_def pop_fault_same)

lemma keeps_Write: "file_Write i b s = (r, s') \<Longrightarrow> keeps {i} {} s s'"
  by (auto simp: file_Write_def keeps_def split: prod.splits fault.splits dest: pop_fault_same)

lemma keeps_Sync: "file_Sync i s = (r, s') \<Longrightarrow> keeps {} {} s s'"
  by (auto simp: file_Sync_def keeps_def split: prod.splits fault.splits dest: pop_fault_same)

lemma keeps_Close: "file_Close i s = (r, s') \<Longrightarrow> keeps {} {} s s'"
  by (auto simp: file_Close_def keeps_def split: prod.splits fault.splits dest: pop_fault_same)

lemma keeps_Remove: "os_Remove n s = (r, s') \<Longrightarrow> keeps {} {n} s s'"
  by (auto simp: os_Remove_def keeps_def AList.delete_conv' split: prod.splits fault.splits option.splits
      dest!: pop_fault_same)

lemma keeps_Rename: "os_Rename a b s = (r, s') \<Longrightarrow> keeps {} {a, b} s s'"
  by (auto simp: os_Rename_def keeps_def AList.delete_conv' AList.update_conv'
      split: prod.splits fault.splits option.splits if_splits dest!: pop_fault_same)

lemma keeps_Open: "os_Open n s = (r, s') \<Longrightarrow> keeps {} {} s s'"
  by (auto simp: os_Open_def keeps_def split: prod.splits fault.splits option.splits dest!: pop_fault_same)

lemma keeps_Stat: "os_Stat n s = (r, s') \<Longrightarrow> keeps {} {} s s'"
  by (auto simp: os_Stat_def keeps_def split: prod.splits fault.splits option.splits dest!: pop_fault_same)

lemma keeps_Create:
  "os_Create n s = (r, s') \<Longrightarrow> map_of (fs_dir s) n = None \<Longrightarrow> keeps {} {n} s s'"
  by (auto simp: os_Create_def new_inode_def keeps_def nth_append AList.update_conv' Let_def
      split: prod.splits fault.splits option.splits dest!: pop_fault_same)

lemma keeps_append:
  "os_OpenFile_append n s = (r, s') \<Longrightarrow> keeps {} {n} s s'"
  by (auto simp: os_OpenFile_append_def new_inode_def keeps_def nth_append AList.update_conv' Let_def
      split: prod.splits fault.splits option.splits dest!: pop_fault_same)

lemma keeps_reads_table:
  "reads_table murmur s r es \<Longrightarrow> keeps I N s s' \<Longrightarrow> r_file r \<notin> I \<Longrightarrow> reads_table murmur s' r es"
  by (rule reads_table_frame) (auto simp: keeps_def reads_table_def)

lemma keeps_tables:
  "list_all2 (reads_table murmur s) rs ts \<Longrightarrow> keeps I N s s' \<Longrightarrow> r_file ` set rs \<inter> I = {} \<Longrightarrow>
    list_all2 (reads_table murmur s') rs ts"
  by (rule db_tables_frame) (auto simp: keeps_def)

section \<open>The builder under every fault schedule\<close>

lemma write_seq_any:
  "write_seq i bs s = (r, s') \<Longrightarrow> i < length (fs_data s) \<Longrightarrow>
    keeps {i} {} s s' \<and>
    (r = None \<longrightarrow> fs_data s' = (fs_data s)[i := fs_data s ! i @ concat bs] \<and> fs_dir s' = fs_dir s)"
proof (induction bs arbitrary: s)
  case (Cons b bs)
  obtain r1 s1 where w: "file_Write i b s = (r1, s1)" by force
  have k: "keeps {i} {} s s1" by (rule keeps_Write [OF w])
  show ?case
  proof (cases r1)
    case None
    then have s1: "fs_data s1 = (fs_data s)[i := fs_data s ! i @ b]" "fs_dir s1 = fs_dir s"
      using w by (auto simp: file_Write_def split: prod.splits fault.splits dest!: pop_fault_same)
    have "write_seq i bs s1 = (r, s')" using Cons.prems(1) w None by simp
    from Cons.IH [OF this] s1 Cons.prems(2) keeps_trans [OF k] show ?thesis by auto
  next
    case (Some e)
    with Cons.prems(1) w k show ?thesis by auto
  qed
qed simp

lemma Builder_Add_any:
  assumes "Builder_Add murmur k v b s = (r, b', s')" "b_file b < length (fs_data s)"
  shows "keeps {b_file b} {} s s' \<and> b_file b' = b_file b \<and> tmpFilename b' = tmpFilename b \<and>
    (r = None \<longrightarrow>
      b' = (note_key murmur k b)\<lparr>bytesWritten := bytesWritten b + int (length (sst_record (k, bytes_of v)))\<rparr> \<and>
      fs_data s' = (fs_data s)[b_file b := fs_data s ! b_file b @ sst_record (k, bytes_of v)] \<and>
      fs_dir s' = fs_dir s)"
proof -
  obtain r1 s1 where w: "write_seq (b_file b) [PutUint32 (of_nat (length k)), PutUint32 (of_nat (length (bytes_of v))),
      k, bytes_of v] s = (r1, s1)" by force
  from write_seq_any [OF this assms(2)] assms(1) w show ?thesis
    unfolding Builder_Add_def Let_def note_key_simps w
    by (cases r1) (auto simp: sst_record_def)
qed

lemma add_all_any:
  "add_all murmur es b s = (r, b', s') \<Longrightarrow> b_file b < length (fs_data s) \<Longrightarrow>
    keeps {b_file b} {} s s' \<and> b_file b' = b_file b \<and> tmpFilename b' = tmpFilename b \<and>
    (r = None \<longrightarrow> built murmur (map plain es) b b' \<and> fs_dir s' = fs_dir s \<and>
      fs_data s' = (fs_data s)[b_file b := fs_data s ! b_file b @ sst_block (map plain es)])"
proof (induction es arbitrary: b s)
  case Nil
  then show ?case by (simp add: built_def)
next
  case (Cons e es)
  obtain k v where e: "e = (k, v)" by force
  obtain r1 b1 s1 where add: "Builder_Add murmur k v b s = (r1, b1, s1)" by (metis prod_cases3)
  note a = Builder_Add_any [OF add Cons.prems(2)]
  show ?case
  proof (cases r1)
    case None
    have "b_file b1 < length (fs_data s1)" using a None Cons.prems(2) by simp
    moreover have "add_all murmur es b1 s1 = (r, b', s')" using Cons.prems(1) add None by (simp add: e)
    ultimately have IH: "keeps {b_file b1} {} s1 s'" "b_file b' = b_file b1" "tmpFilename b' = tmpFilename b1"
      "r = None \<Longrightarrow> built murmur (map plain es) b1 b' \<and> fs_dir s' = fs_dir s1 \<and>
        fs_data s' = (fs_data s1)[b_file b1 := fs_data s1 ! b_file b1 @ sst_block (map plain es)]"
      using Cons.IH by blast+
    have "built murmur (map plain (e # es)) b b'" if "r = None"
      using IH(4) [OF that] a None note_key_index [of murmur k b "bytes_of v" "map plain es"]
      by (simp add: built_def e)
    with IH a None Cons.prems(2) show ?thesis by (auto simp: e intro: keeps_trans)
  next
    case (Some e')
    with Cons.prems(1) add a show ?thesis by (auto simp: e)
  qed
qed

lemma keeps_cleanup: "keeps {} {tmpFilename b} s (cleanup b s)"
proof -
  obtain r1 s1 r2 s2 where "file_Close (b_file b) s = (r1, s1)" "os_Remove (tmpFilename b) s1 = (r2, s2)"
    by (metis surj_pair)
  then show ?thesis
    using keeps_trans [of "{}" "{tmpFilename b}" s s1 s2] keeps_mono [OF keeps_Close, of "b_file b" s r1 s1]
      keeps_Remove [of "tmpFilename b" s1 r2 s2] by (simp add: cleanup_def)
qed

lemma os_Rename_cases:
  assumes "os_Rename a b s = (r, s')"
  shows "r \<noteq> None \<Longrightarrow> keeps {} {} s s'"
    "r = None \<Longrightarrow> a \<noteq> b \<Longrightarrow> map_of (fs_dir s) a = Some i \<Longrightarrow>
      fs_data s' = fs_data s \<and> map_of (fs_dir s') = (map_of (fs_dir s))(a := None, b \<mapsto> i)"
  using assms
  by (auto simp: os_Rename_def keeps_def AList.delete_conv' AList.update_conv' fun_eq_iff
      split: prod.splits fault.splits option.splits if_splits dest!: pop_fault_same)

lemma sync_close_same:
  "file_Sync i s = (r, s') \<Longrightarrow> fs_data s' = fs_data s \<and> fs_dir s' = fs_dir s"
  "file_Close i s = (r, s') \<Longrightarrow> fs_data s' = fs_data s \<and> fs_dir s' = fs_dir s"
  by (auto simp: file_Sync_def file_Close_def split: prod.splits fault.splits dest!: pop_fault_same)

text \<open>
  \<^verbatim>\<open>Finish\<close> returns. If it fails, the final name is as before; if it does not, the final name
  leads to the complete table.
\<close>

lemma Finish_any:
  assumes b: "built murmur es b0 b"
    and b0: "bytesWritten b0 = 0" "lastIndexPos b0 = 0" "index b0 = []" "hashes b0 = []"
    and i: "b_file b < length (fs_data s)" "fs_data s ! b_file b = sst_block es"
    and n: "length es \<le> max_bloom_keys"
    and d: "map_of (fs_dir s) (tmpFilename b) = Some (b_file b)" "tmpFilename b \<noteq> finalFilename b"
  shows "\<exists>r s'. Finish b s = Some (r, s') \<and>
    (r \<noteq> None \<longrightarrow> keeps {b_file b} {tmpFilename b} s s') \<and>
    (r = None \<longrightarrow> fs_data s' = (fs_data s)[b_file b := sst_image murmur es] \<and>
      map_of (fs_dir s') = (map_of (fs_dir s))(tmpFilename b := None, finalFilename b \<mapsto> b_file b))"
proof -
  let ?hs = "map (\<lambda>e. HashKey murmur (fst e)) es" and ?i = "b_file b"
  obtain bf where bf: "add_hashes ?hs (NewBloomFilter (length es)) = Some bf"
    using add_hashes_total [OF NewBloomFilter_bit_length [OF n]] by blast
  have fd: "sst_filter murmur es = Bloom_Bytes bf" by (simp add: sst_filter_def bf)
  have bs: "bytesWritten b = int (length (sst_block es))" "hashes b = ?hs" "index b = sst_index es"
    using b b0 by (simp_all add: built_def sst_index_def)
  let ?fd = "Bloom_Bytes bf"
  let ?off = "int (length (sst_block es)) + int (4 + length ?fd)"
  obtain r1 s1 where w1: "write_seq ?i [PutUint32 (of_nat (length ?fd)), ?fd] s = (r1, s1)" by force
  obtain r2 s2 where w2: "write_seq ?i (index_writes (sst_index es)) s1 = (r2, s2)" by force
  obtain r3 s3 where w3: "write_seq ?i [PutUint64 (of_int ?off), PutUint64 (of_int (int (length (sst_block es))))] s2
      = (r3, s3)" by force
  obtain r4 s4 where w4: "file_Sync ?i s3 = (r4, s4)" by force
  obtain r5 s5 where w5: "file_Close ?i s4 = (r5, s5)" by force
  obtain r6 s6 where w6: "os_Rename (tmpFilename b) (finalFilename b) s5 = (r6, s6)" by force
  note a1 = write_seq_any [OF w1 i(1)]
  have i1: "?i < length (fs_data s1)" using a1 i(1) by (simp add: keeps_def)
  note a2 = write_seq_any [OF w2 i1]
  have i2: "?i < length (fs_data s2)" using a2 i1 by (simp add: keeps_def)
  note a3 = write_seq_any [OF w3 i2]
  have k2: "keeps {?i} {} s s2" using a1 a2 keeps_trans by blast
  have k3: "keeps {?i} {} s s3" using k2 a3 keeps_trans by blast
  have k5: "keeps {?i} {} s s4" "keeps {?i} {} s s5"
    using k3 sync_close_same(1) [OF w4] sync_close_same(2) [OF w5] by (simp_all add: keeps_def)
  have k6: "keeps {?i} {} s s6" if "r6 \<noteq> None"
    using keeps_trans [OF k5(2) keeps_mono [OF os_Rename_cases(1) [OF w6 that]]] by simp
  have fail: "keeps {?i} {tmpFilename b} s (cleanup b t)" if "keeps {?i} {} s t" for t
    by (rule keeps_trans [OF keeps_mono [OF that] keeps_mono [OF keeps_cleanup]]) auto
  have complete: "fs_data s6 = (fs_data s)[?i := sst_image murmur es] \<and>
      map_of (fs_dir s6) = (map_of (fs_dir s))(tmpFilename b := None, finalFilename b \<mapsto> ?i)"
    if "r1 = None" "r2 = None" "r3 = None" "r6 = None"
  proof -
    have "fs_data s3 = (fs_data s)[?i := sst_image murmur es]" "fs_dir s3 = fs_dir s"
      using a1 a2 a3 that i by (simp_all add: sst_image_def fd Let_def add.assoc)
    then show ?thesis
      using os_Rename_cases(2) [OF w6 that(4) d(2), of ?i] sync_close_same(1) [OF w4] sync_close_same(2) [OF w5] d(1)
      by simp
  qed
  have "Finish b s = Some (if r1 \<noteq> None then (r1, cleanup b s1) else if r2 \<noteq> None then (r2, cleanup b s2)
      else if r3 \<noteq> None then (r3, cleanup b s3) else if r4 \<noteq> None then (r4, cleanup b s4)
      else if r5 \<noteq> None then (r5, cleanup b s5) else if r6 \<noteq> None then (r6, cleanup b s6) else (None, s6))"
    using w1 w2 w3 w4 w5 w6 bf
    by (simp add: Finish_def writeIndex_def bs Let_def split: option.splits del: write_seq.simps)
  then show ?thesis using fail a1 k2 k3 k5 k6 complete by auto
qed

text \<open>Creating the temporary file, under a name that is not taken.\<close>

lemma NewBuilder_any:
  assumes "NewBuilder path now s = (r, s1)" "map_of (fs_dir s) (tmp_name path now) = None"
  shows "keeps {} {tmp_name path now} s s1"
    "r = Inr b \<Longrightarrow> b = fresh_builder path now s \<and> fs_data s1 = fs_data s @ [[]] \<and>
      map_of (fs_dir s1) = (map_of (fs_dir s))(tmp_name path now \<mapsto> length (fs_data s))"
  using assms
  by (auto simp: NewBuilder_def os_Create_def new_inode_def keeps_def tmp_name_def fresh_builder_def Let_def
      nth_append AList.update_conv' fun_eq_iff
      split: prod.splits fault.splits sum.splits option.splits dest!: pop_fault_same)

text \<open>A build: whatever happens, only the temporary name and, on success, the final one change.\<close>

lemma build_any:
  assumes new: "NewBuilder path now s = (Inr b, s1)" "map_of (fs_dir s) (tmp_name path now) = None"
    and n: "length es \<le> max_bloom_keys" and add: "add_all murmur es b s1 = (r1, b1, s2)"
  shows "keeps {} {tmp_name path now} s s2" "keeps {} {tmp_name path now} s (cleanup b1 s2)"
    "r1 = None \<Longrightarrow> \<exists>r s'. Finish b1 s2 = Some (r, s') \<and>
      (r \<noteq> None \<longrightarrow> keeps {} {tmp_name path now} s s') \<and>
      (r = None \<longrightarrow> fs_data s' = fs_data s @ [sst_image murmur (map plain es)] \<and>
        map_of (fs_dir s') = (map_of (fs_dir s))(path \<mapsto> length (fs_data s)))"
proof -
  let ?t = "tmp_name path now" and ?i = "length (fs_data s)"
  note nb = NewBuilder_any [OF new]
  have b: "b = fresh_builder path now s" "fs_data s1 = fs_data s @ [[]]"
    "map_of (fs_dir s1) = (map_of (fs_dir s))(?t \<mapsto> ?i)" using nb(2) by simp_all
  have bi: "b_file b = ?i" "tmpFilename b = ?t" "b_file b < length (fs_data s1)"
    using b by (simp_all add: fresh_builder_def)
  note a = add_all_any [OF add bi(3)]
  have into: "keeps {} {?t} s u" if "keeps {?i} {?t} s1 u" for u
  proof (rule keeps_new)
    show "keeps {?i} {?t} s u"
      by (rule keeps_trans [OF keeps_mono [OF nb(1)] keeps_mono [OF that]]) (auto simp: bi(1))
  qed simp
  show k2: "keeps {} {?t} s s2" using into keeps_mono [OF conjunct1 [OF a]] bi(1) by simp
  show "keeps {} {?t} s (cleanup b1 s2)"
    using keeps_trans [OF k2 keeps_mono [OF keeps_cleanup]] a bi(2) by simp
  assume r1: "r1 = None"
  then have bt: "built murmur (map plain es) b b1" "fs_dir s2 = fs_dir s1"
    "fs_data s2 = (fs_data s1)[?i := fs_data s1 ! ?i @ sst_block (map plain es)]"
    using a bi(1) by simp_all
  have fin: "b_file b1 = ?i" "tmpFilename b1 = ?t" "finalFilename b1 = path" "?t \<noteq> path"
    using bt(1) b(1) by (simp_all add: built_def fresh_builder_def tmp_name_def)
  have "\<exists>r s'. Finish b1 s2 = Some (r, s') \<and>
    (r \<noteq> None \<longrightarrow> keeps {b_file b1} {tmpFilename b1} s2 s') \<and>
    (r = None \<longrightarrow> fs_data s' = (fs_data s2)[b_file b1 := sst_image murmur (map plain es)] \<and>
      map_of (fs_dir s') = (map_of (fs_dir s2))(tmpFilename b1 := None, finalFilename b1 \<mapsto> b_file b1))"
    by (rule Finish_any [OF bt(1)]) (use b bt n fin in \<open>simp_all add: fresh_builder_def\<close>)
  moreover have "keeps {?i} {?t} s1 u" if "keeps {?i} {?t} s2 u" for u
    using keeps_trans [OF keeps_mono [OF conjunct1 [OF a]] that] bi(1) by simp
  ultimately show "\<exists>r s'. Finish b1 s2 = Some (r, s') \<and> (r \<noteq> None \<longrightarrow> keeps {} {?t} s s') \<and>
      (r = None \<longrightarrow> fs_data s' = fs_data s @ [sst_image murmur (map plain es)] \<and>
        map_of (fs_dir s') = (map_of (fs_dir s))(path \<mapsto> length (fs_data s)))"
    using into b bt fin new(2) by (fastforce simp: fun_eq_iff)
qed

lemma NewReader_any:
  assumes "NewReader path s = (r, s1)"
  shows "keeps {} {} s s1"
    "r = Inr rd \<Longrightarrow> map_of (fs_dir s) path = Some i \<Longrightarrow> i < length (fs_data s) \<Longrightarrow>
      fs_data s ! i = sst_image murmur es \<Longrightarrow> table_ok murmur es \<Longrightarrow>
      reads_table murmur s1 rd es \<and> r_path rd = path \<and> r_file rd = i"
proof -
  obtain r0 s0 where o: "os_Open path s = (r0, s0)" by force
  note k0 = keeps_Open [OF o]
  show "keeps {} {} s s1"
    using assms o k0 sync_close_same(2) [of _ s0]
    by (auto simp: NewReader_def keeps_def split: sum.splits prod.splits) (metis prod.collapse)+
  show "reads_table murmur s1 rd es \<and> r_path rd = path \<and> r_file rd = i"
    if "r = Inr rd" "map_of (fs_dir s) path = Some i" "i < length (fs_data s)"
      "fs_data s ! i = sst_image murmur es" "table_ok murmur es"
    using assms that
    by (auto simp: NewReader_def os_Open_def loadIndex_image reads_table_def
        split: sum.splits prod.splits fault.splits option.splits dest!: pop_fault_same)
qed

section \<open>A flush under every fault schedule\<close>

lemma keeps_WriteEntry:
  "WriteEntry k v w s = (r, w', s') \<Longrightarrow> wal_file w < length (fs_data s) \<Longrightarrow>
    wal_file w' = wal_file w \<and> keeps {wal_file w} {} s s'"
  using WriteEntry_frame [of w s k v r w' s'] by (auto simp: keeps_def)

lemma rewrite_entries_any:
  "rewrite_entries es w s = (w', s') \<Longrightarrow> wal_file w < length (fs_data s) \<Longrightarrow>
    wal_file w' = wal_file w \<and> keeps {wal_file w} {} s s'"
proof (induction es arbitrary: w s)
  case (Cons e es)
  obtain k v where e: "e = (k, v)" by force
  obtain r w1 s1 where w: "WriteEntry k v w s = (r, w1, s1)" by (metis prod_cases3)
  note k = keeps_WriteEntry [OF w Cons.prems(2)]
  have "wal_file w1 < length (fs_data s1)" using k Cons.prems(2) by (simp add: keeps_def)
  with Cons.IH [of w1 s1] Cons.prems(1) w k show ?case by (auto simp: e intro: keeps_trans)
qed simp

lemma recoverFromFlushFailure_any:
  assumes "immutableMemtable db = Some m" "skip_ok m" "wal_file (db_wal db) < length (fs_data s)"
  shows "\<exists>w s'. recoverFromFlushFailure e db s =
      Some (Some (Wrap ''flush failed, data preserved'' e), db\<lparr>db_wal := w, immutableMemtable := None\<rparr>, s') \<and>
    wal_file w = wal_file (db_wal db) \<and> keeps {wal_file (db_wal db)} {} s s'"
proof -
  obtain w s' where "rewrite_entries (skip_content m) (db_wal db) s = (w, s')" by force
  with rewrite_entries_any [OF this assms(3)] assms(1) SkipList_entries_ok [OF assms(2)] show ?thesis
    by (intro exI [of _ w] exI [of _ s']) (simp add: recoverFromFlushFailure_def)
qed

text \<open>What a change in the frame of the log leaves of a database with the same tables.\<close>

lemma db_inv_frame:
  assumes "db_inv murmur db s" "keeps {wal_file (db_wal db)} N s s'"
    and "mem_ok db'" "sstReaders db' = sstReaders db" "wal_file (db_wal db') = wal_file (db_wal db)"
  shows "db_inv murmur db' s'" "db_tables murmur s db ts \<Longrightarrow> db_tables murmur s' db' ts"
proof -
  have "r_file ` set (sstReaders db) \<inter> {wal_file (db_wal db)} = {}" using assms(1) by (simp add: db_inv_def)
  then have t: "db_tables murmur s' db' ts" if "db_tables murmur s db ts" for ts
    using keeps_tables [OF that assms(2)] assms(4) by simp
  then show "db_tables murmur s db ts \<Longrightarrow> db_tables murmur s' db' ts" .
  from assms t show "db_inv murmur db' s'" by (auto simp: db_inv_def keeps_def)
qed

lemma Get_frame:
  assumes "mem_ok db" "db_tables murmur s db ts" "mem_ok db'" "db_tables murmur s' db' ts"
    and "first_of [active_content db', imm_content db'] k = first_of [active_content db, imm_content db] k"
  shows "StrataGo_Get murmur k db' s' = StrataGo_Get murmur k db s"
  using StrataGo_Get_layers [OF assms(1,2)] StrataGo_Get_layers [OF assms(3,4)] assms(5)
  by (simp add: layered_Get_def)

text \<open>The table under its final name, once the build succeeded: opening it may fail, reading it back does not.\<close>

definition flush_done :: "(bytes \<Rightarrow> u32) \<Rightarrow> int \<Rightarrow> SkipList \<Rightarrow> StrataGo \<Rightarrow> fs \<Rightarrow> StrataGo \<Rightarrow> fs \<Rightarrow> bool" where
  "flush_done murmur now1 m db s db' s' \<longleftrightarrow>
     (\<exists>rd. db' = db\<lparr>sstReaders := sstReaders db @ [rd], immutableMemtable := None\<rparr> \<and>
        reads_table murmur s' rd (map plain (skip_content m)) \<and>
        r_path rd = sst_path (dataDir db) now1 \<and> r_file rd = length (fs_data s) \<and>
        map_of (fs_dir s') (r_path rd) = Some (r_file rd))"

definition flush_failed :: "error \<Rightarrow> StrataGo \<Rightarrow> StrataGo \<Rightarrow> bool" where
  "flush_failed e db db' \<longleftrightarrow> db' = db \<or>
     (\<exists>w e'. e = Wrap ''flush failed, data preserved'' e' \<and> wal_file w = wal_file (db_wal db) \<and>
        db' = db\<lparr>db_wal := w, immutableMemtable := None\<rparr>)"

text \<open>
  Once the build succeeded the table is there under its final name: opening it may fail, reading it
  back does not, and the count is right.
\<close>

lemma Flush_verify_any:
  assumes m: "immutableMemtable db = Some m" "skip_ok m" and wf: "wal_file (db_wal db) < length (fs_data s)"
    and ok: "table_ok murmur (map plain (skip_content m))"
    and s2: "fs_data s2 = fs_data s @ [sst_image murmur (map plain (skip_content m))]"
    "map_of (fs_dir s2) = (map_of (fs_dir s))(sst_path (dataDir db) now1 \<mapsto> length (fs_data s))"
    and rd: "NewReader (sst_path (dataDir db) now1) s2 = (Inr rd, s3)"
  shows "ReadAll rd s3 = Inr (map plain (skip_content m))" "length (skip_content m) = Size m"
    "flush_done murmur now1 m db s (fst (snd (Flush_install rd db s3))) (snd (snd (Flush_install rd db s3)))"
    "keeps {} {sst_path (dataDir db) now1, flushing_name (dataDir db)} s (snd (snd (Flush_install rd db s3)))"
proof -
  let ?p = "sst_path (dataDir db) now1" and ?es = "map plain (skip_content m)"
  note k3 = NewReader_any(1) [OF rd]
  have r: "reads_table murmur s3 rd ?es" "r_path rd = ?p" "r_file rd = length (fs_data s)"
    using NewReader_any(2) [OF rd refl, of "length (fs_data s)" murmur ?es] s2 ok by simp_all
  show "ReadAll rd s3 = Inr ?es" by (rule reads_table_ReadAll [OF r(1)])
  show "length (skip_content m) = Size m" by (rule skip_ok_Size [OF m(2), symmetric])
  obtain e s4 where rm: "os_Remove (flushing_name (dataDir db)) s3 = (e, s4)" by force
  note k4 = keeps_Remove [OF rm]
  have "keeps {} {?p} s s2" using s2 by (simp add: keeps_def nth_append)
  with k3 k4 have "keeps {} {?p, flushing_name (dataDir db)} s s4"
    by (meson keeps_trans keeps_mono empty_subsetI insert_mono subset_insertI)
  then show "keeps {} {?p, flushing_name (dataDir db)} s (snd (snd (Flush_install rd db s3)))"
    by (simp add: Flush_install_def rm)
  have "reads_table murmur s4 rd ?es" using keeps_reads_table [OF r(1) k4] by simp
  moreover have "map_of (fs_dir s4) ?p = Some (length (fs_data s))" using k3 k4 s2(2) by (simp add: keeps_def)
  ultimately show "flush_done murmur now1 m db s (fst (snd (Flush_install rd db s3))) (snd (snd (Flush_install rd db s3)))"
    using r by (auto simp: flush_done_def Flush_install_def rm)
qed

lemma Builder_Flush_any:
  assumes new: "NewBuilder path now s = (Inr b, s1)" "map_of (fs_dir s) (tmp_name path now) = None"
    and m: "skip_ok m" "length (skip_content m) \<le> max_bloom_keys"
  shows "\<exists>r s'. Builder_Flush murmur m b s1 = Some (r, s') \<and>
    (r \<noteq> None \<longrightarrow> keeps {} {tmp_name path now} s s') \<and>
    (r = None \<longrightarrow> fs_data s' = fs_data s @ [sst_image murmur (map plain (skip_content m))] \<and>
      map_of (fs_dir s') = (map_of (fs_dir s))(path \<mapsto> length (fs_data s)))"
proof -
  obtain r1 b1 s2 where add: "add_all murmur (skip_content m) b s1 = (r1, b1, s2)" by (metis prod_cases3)
  note bd = build_any [OF new m(2) add]
  show ?thesis
  proof (cases r1)
    case (Some e)
    with bd(2) add show ?thesis by (simp add: Builder_Flush_def SkipList_entries_ok [OF m(1)])
  next
    case None
    with bd(3) add show ?thesis by (simp add: Builder_Flush_def SkipList_entries_ok [OF m(1)])
  qed
qed

text \<open>A flush that has failed while building: the data goes back into the log.\<close>

lemma flush_fails_any:
  assumes m: "immutableMemtable db = Some m" "skip_ok m" and wf: "wal_file (db_wal db) < length (fs_data s)"
    and t: "keeps {} {n} s t" "n \<in> N"
  shows "\<exists>r db' s'. recoverFromFlushFailure e db t = Some (Some r, db', s') \<and>
    keeps {wal_file (db_wal db)} N s s' \<and> flush_failed r db db'"
proof -
  have "wal_file (db_wal db) < length (fs_data t)" using wf t(1) by (simp add: keeps_def)
  from recoverFromFlushFailure_any [OF m this] obtain w s' where w:
    "recoverFromFlushFailure e db t = Some (Some (Wrap ''flush failed, data preserved'' e),
       db\<lparr>db_wal := w, immutableMemtable := None\<rparr>, s')"
    "wal_file w = wal_file (db_wal db)" "keeps {wal_file (db_wal db)} {} t s'" by blast
  have "keeps {wal_file (db_wal db)} N s s'"
    by (rule keeps_trans [OF keeps_mono [OF t(1)] keeps_mono [OF w(3)]]) (use t(2) in auto)
  with w show ?thesis by (auto simp: flush_failed_def)
qed

lemma Flush_write_any:
  assumes m: "immutableMemtable db = Some m" "skip_ok m" and wf: "wal_file (db_wal db) < length (fs_data s)"
    and ok: "table_ok murmur (map plain (skip_content m))" and fresh: "fresh_tmp now1 now2 db s"
  defines "N \<equiv> {sst_path (dataDir db) now1, tmp_name (sst_path (dataDir db) now1) now2, flushing_name (dataDir db)}"
  shows "\<exists>r db' s'. Flush_write murmur now1 now2 db s = Some (r, db', s') \<and>
    keeps {wal_file (db_wal db)} N s s' \<and>
    (case r of None \<Rightarrow> flush_done murmur now1 m db s db' s' | Some e \<Rightarrow> flush_failed e db db')"
proof -
  let ?p = "sst_path (dataDir db) now1" and ?t = "tmp_name (sst_path (dataDir db) now1) now2"
  have p: "filepath_Join (dataDir db) (sst_name now1) = ?p" by (simp add: sst_path_def)
  have tmp: "map_of (fs_dir s) ?t = None" using fresh by (simp add: fresh_tmp_def)
  have n: "length (skip_content m) \<le> max_bloom_keys" using ok by (simp add: table_ok_def)
  have fail: ?thesis if t: "Flush_write murmur now1 now2 db s = recoverFromFlushFailure e db t" "keeps {} {?t} s t" for e t
    using flush_fails_any [OF m wf t(2), of N e] t(1) by (auto simp: N_def)
  obtain r0 s1 where new: "NewBuilder ?p now2 s = (r0, s1)" by force
  show ?thesis
  proof (cases r0)
    case (Inl e)
    then show ?thesis
      using new NewBuilder_any(1) [OF new tmp] by (intro fail [of e s1]) (simp_all add: Flush_write_def p)
  next
    case (Inr b)
    with new have new': "NewBuilder ?p now2 s = (Inr b, s1)" by simp
    obtain r s3 where f: "Builder_Flush murmur m b s1 = Some (r, s3)" "r \<noteq> None \<longrightarrow> keeps {} {?t} s s3"
      "r = None \<longrightarrow> fs_data s3 = fs_data s @ [sst_image murmur (map plain (skip_content m))] \<and>
          map_of (fs_dir s3) = (map_of (fs_dir s))(?p \<mapsto> length (fs_data s))"
      using Builder_Flush_any [OF new' tmp m(2) n] by blast
    show ?thesis
    proof (cases r)
      case (Some e)
      then show ?thesis using f new' m(1) by (intro fail [of e s3]) (simp_all add: Flush_write_def p)
    next
      case r: None
      then have s3: "fs_data s3 = fs_data s @ [sst_image murmur (map plain (skip_content m))]"
        "map_of (fs_dir s3) = (map_of (fs_dir s))(?p \<mapsto> length (fs_data s))" using f(3) by simp_all
      obtain q s4 where rd: "NewReader ?p s3 = (q, s4)" by force
      show ?thesis
      proof (cases q)
        case (Inl e)
        then have "Flush_write murmur now1 now2 db s = Some (Some e, db, s4)"
          using f(1) r rd new' m(1) by (simp add: Flush_write_def p Let_def)
        moreover have "keeps {wal_file (db_wal db)} N s s4"
          by (rule keeps_trans [OF _ keeps_mono [OF NewReader_any(1) [OF rd]]])
            (use s3 in \<open>simp_all add: keeps_def nth_append N_def\<close>)
        ultimately show ?thesis by (auto simp: flush_failed_def)
      next
        case (Inr rd')
        note v = Flush_verify_any [OF m wf ok s3 rd [unfolded Inr]]
        have "Flush_write murmur now1 now2 db s = Some (Flush_install rd' db s4)"
          using f(1) r rd Inr new' m(1) v(1,2) by (simp add: Flush_write_def p Let_def)
        moreover have "keeps {wal_file (db_wal db)} N s (snd (snd (Flush_install rd' db s4)))"
          using keeps_mono [OF v(4)] by (simp add: N_def)
        ultimately show ?thesis using v(3) by (auto simp: Flush_install_def)
      qed
    qed
  qed
qed

text \<open>
  The rotation: an early return changes neither memtables nor tables; otherwise the memtable is
  pending and the database has a new, empty log.
\<close>

lemma NewWAL_any:
  assumes "NewWAL path s = (r, s')"
  shows "keeps {} {path} s s'"
    "r = Inr w \<Longrightarrow> map_of (fs_dir s) path = None \<Longrightarrow> wal_file w = length (fs_data s) \<and> wal_file w < length (fs_data s')"
  using assms
  by (auto simp: NewWAL_def os_OpenFile_append_def new_inode_def keeps_def nth_append AList.update_conv' Let_def
      split: prod.splits fault.splits sum.splits option.splits dest!: pop_fault_same)

lemma WAL_Close_any: "WAL_Close w s = (r, w', s') \<Longrightarrow> wal_file w' = wal_file w \<and> keeps {} {} s s'"
  by (auto simp: WAL_Close_def split: if_splits prod.splits dest!: keeps_Close)

lemma Flush_rotate_any:
  fixes db :: StrataGo
  defines "NS \<equiv> {wal_name (dataDir db), flushing_name (dataDir db)}"
  assumes rot: "Flush_rotate rnd db s = (x, db1, s1)"
  shows "(case x of
      Some r \<Rightarrow> (r = None \<longrightarrow> Size (activeMemtable db) = 0 \<and> immutableMemtable db = None) \<and>
        (\<exists>w. db1 = db\<lparr>db_wal := w\<rparr> \<and> wal_file w = wal_file (db_wal db)) \<and> keeps {} NS s s1
    | None \<Rightarrow> (immutableMemtable db \<noteq> None \<and> db1 = db \<and> s1 = s) \<or>
        (immutableMemtable db = None \<and>
         (\<exists>w. db1 = db\<lparr>immutableMemtable := Some (activeMemtable db), activeMemtable := NewSkipList rnd, db_wal := w\<rparr> \<and>
            wal_file w = length (fs_data s) \<and> wal_file w < length (fs_data s1)) \<and> keeps {} NS s s1))"
proof (cases "immutableMemtable db \<noteq> None \<or> Size (activeMemtable db) = 0")
  case True
  have "\<exists>w. db = db\<lparr>db_wal := w\<rparr> \<and> wal_file w = wal_file (db_wal db)" by (rule exI [of _ "db_wal db"]) simp
  with True rot show ?thesis by (auto simp: Flush_rotate_def split: if_splits)
next
  case False
  let ?d = "dataDir db"
  obtain r1 w s2 where c: "WAL_Close (db_wal db) s = (r1, w, s2)" by (metis prod_cases3)
  obtain r2 s3 where rn: "os_Rename (wal_name ?d) (flushing_name ?d) s2 = (r2, s3)" by force
  obtain r3 s4 where nw: "NewWAL (wal_name ?d) s3 = (r3, s4)" by force
  obtain r4 s5 where bk: "os_Rename (flushing_name ?d) (wal_name ?d) s4 = (r4, s5)" by force
  have k2: "keeps {} NS s s2" "wal_file w = wal_file (db_wal db)"
    using WAL_Close_any [OF c] by (auto intro: keeps_all)
  have k3: "keeps {} NS s s3" by (rule keeps_trans [OF k2(1) keeps_mono [OF keeps_Rename [OF rn]]]) (auto simp: NS_def)
  have k4: "keeps {} NS s s4" by (rule keeps_trans [OF k3 keeps_mono [OF NewWAL_any(1) [OF nw]]]) (auto simp: NS_def)
  have k5: "keeps {} NS s s5" by (rule keeps_trans [OF k4 keeps_mono [OF keeps_Rename [OF bk]]]) (auto simp: NS_def)
  have gone: "map_of (fs_dir s3) (wal_name ?d) = None" "fs_data s3 = fs_data s2" if r2: "r2 = None"
  proof -
    obtain i where "map_of (fs_dir s2) (wal_name ?d) = Some i"
      using rn r2 by (auto simp: os_Rename_def split: prod.splits fault.splits option.splits dest!: pop_fault_same)
    from os_Rename_cases(2) [OF rn r2 _ this] show "map_of (fs_dir s3) (wal_name ?d) = None" "fs_data s3 = fs_data s2"
      by simp_all
  qed
  have "fs_data s2 = fs_data s"
    using c by (auto simp: WAL_Close_def split: if_splits prod.splits dest!: sync_close_same(2))
  with NewWAL_any(2) [OF nw _ gone(1)] gone(2)
  have new: "wal_file w' = length (fs_data s) \<and> wal_file w' < length (fs_data s4)" if "r2 = None" "r3 = Inr w'" for w'
    using that by simp
  have "(x, db1, s1) = (case r1 of Some e \<Rightarrow> (Some (Some e), db\<lparr>db_wal := w\<rparr>, s2) | None \<Rightarrow>
      (case r2 of Some e \<Rightarrow> (Some (Some e), db\<lparr>db_wal := w\<rparr>, s3) | None \<Rightarrow>
      (case r3 of Inl e \<Rightarrow> (Some (Some e), db\<lparr>db_wal := w\<rparr>, s5)
       | Inr nw \<Rightarrow> (None, db\<lparr>immutableMemtable := Some (activeMemtable db), activeMemtable := NewSkipList rnd,
            db_wal := nw\<rparr>, s4))))"
    using False rot c rn nw bk by (auto simp: Flush_rotate_def Let_def split: option.splits sum.splits)
  with k2 k3 k4 k5 new False show ?thesis by (fastforce split: option.splits sum.splits)
qed

lemma Flush_rotate_keeps:
  assumes inv: "db_inv murmur db s" and rot: "Flush_rotate rnd db s = (None, db1, s1)"
  shows "db_inv murmur db1 s1 \<and> (\<forall>k. StrataGo_Get murmur k db1 s1 = StrataGo_Get murmur k db s)"
proof (cases "immutableMemtable db")
  case None
  with Flush_rotate_any [OF rot] obtain w where w: "db1 = db\<lparr>immutableMemtable := Some (activeMemtable db),
      activeMemtable := NewSkipList rnd, db_wal := w\<rparr>" "wal_file w = length (fs_data s)"
    "wal_file w < length (fs_data s1)" "keeps {} {wal_name (dataDir db), flushing_name (dataDir db)} s s1" by auto
  obtain ts where ts: "db_tables murmur s db ts" and mem: "mem_ok db" using inv by (auto simp: db_inv_def)
  have "r_file r < length (fs_data s)" if "r \<in> set (sstReaders db)" for r
    using list_all2_conv_all_nth [THEN iffD1, OF ts] that by (auto simp: in_set_conv_nth reads_table_def)
  then have files: "length (fs_data s) \<notin> r_file ` set (sstReaders db)" by force
  have mem1: "mem_ok db1" using mem by (simp add: mem_ok_def w(1))
  have ts1: "db_tables murmur s1 db1 ts" using keeps_tables [OF ts w(4)] by (simp add: w(1))
  have "db_inv murmur db1 s1" using mem1 ts1 w(2,3) files by (auto simp: db_inv_def w(1))
  moreover have "StrataGo_Get murmur k db1 s1 = StrataGo_Get murmur k db s" for k
    by (rule Get_frame [OF mem ts mem1 ts1])
      (simp add: w(1) None active_content_def imm_content_def split: option.splits)
  ultimately show ?thesis by blast
next
  case (Some m)
  with Flush_rotate_any [OF rot] inv show ?thesis by auto
qed

lemma Flush_rotate_early:
  assumes inv: "db_inv murmur db s" and rot: "Flush_rotate rnd db s = (Some r, db1, s1)"
  shows "db_inv murmur db1 s1 \<and> (\<forall>k. StrataGo_Get murmur k db1 s1 = StrataGo_Get murmur k db s)"
proof -
  let ?N = "{wal_name (dataDir db), flushing_name (dataDir db)}"
  obtain ts where ts: "db_tables murmur s db ts" and mem: "mem_ok db" using inv by (auto simp: db_inv_def)
  from Flush_rotate_any [OF rot] obtain w where w: "db1 = db\<lparr>db_wal := w\<rparr>" "wal_file w = wal_file (db_wal db)"
    "keeps {} ?N s s1" by auto
  have k: "keeps {wal_file (db_wal db)} ?N s s1" by (rule keeps_mono [OF w(3)]) simp_all
  have d: "mem_ok db1" "sstReaders db1 = sstReaders db" "wal_file (db_wal db1) = wal_file (db_wal db)"
    using mem by (simp_all add: mem_ok_def w(1,2))
  note fr = db_inv_frame [OF inv k d]
  have "StrataGo_Get murmur k db1 s1 = StrataGo_Get murmur k db s" for k
    by (rule Get_frame [OF mem ts d(1) fr(2) [OF ts]]) (simp add: w(1) active_content_def imm_content_def)
  with fr(1) show ?thesis by blast
qed

lemma Flush_rotate_same:
  assumes "db_inv murmur db s" "Flush_rotate rnd db s = (x, db1, s1)"
  shows "db_inv murmur db1 s1 \<and> (\<forall>k. StrataGo_Get murmur k db1 s1 = StrataGo_Get murmur k db s)"
  using assms Flush_rotate_keeps Flush_rotate_early by (cases x) blast+

text \<open>
  The keys whose lookup a flush of the contents \<open>c\<close> with the result \<open>r\<close> leaves alone: after a
  success the settled ones; after the error that claims to have preserved the data those that
  are not in \<open>c\<close>; after every other error all.
\<close>

definition flush_leaves :: "(bytes \<Rightarrow> u32) \<Rightarrow> (bytes \<times> slice) list \<Rightarrow> error option \<Rightarrow> bytes \<Rightarrow> bool" where
  "flush_leaves murmur c r k \<longleftrightarrow>
     (case r of None \<Rightarrow> settled murmur c k
      | Some (Wrap msg e) \<Rightarrow> msg \<noteq> ''flush failed, data preserved'' \<or> map_of c k = None
      | Some _ \<Rightarrow> True)"

lemma Flush_write_outcome:
  assumes inv: "db_inv murmur db s" and m: "immutableMemtable db = Some m"
    and ok: "table_ok murmur (map plain (skip_content m))" and fresh: "fresh_tmp now1 now2 db s"
  shows "\<exists>r db' s'. Flush_write murmur now1 now2 db s = Some (r, db', s') \<and> db_inv murmur db' s' \<and>
    (\<forall>k. flush_leaves murmur (skip_content m) r k \<longrightarrow> StrataGo_Get murmur k db' s' = StrataGo_Get murmur k db s) \<and>
    (r = None \<longrightarrow> immutableMemtable db' = None \<and>
       fs_file s' (sst_path (dataDir db) now1) = Some (sst_image murmur (map plain (skip_content m))))"
proof -
  obtain ts where ts: "db_tables murmur s db ts" and mem: "mem_ok db" and wf: "wal_file (db_wal db) < length (fs_data s)"
    and wr: "r_file ` set (sstReaders db) \<inter> {wal_file (db_wal db)} = {}"
    using inv by (auto simp: db_inv_def)
  have mo: "skip_ok m" using mem m by (simp add: mem_ok_def)
  let ?N = "{sst_path (dataDir db) now1, tmp_name (sst_path (dataDir db) now1) now2, flushing_name (dataDir db)}"
  obtain r db' s' where w: "Flush_write murmur now1 now2 db s = Some (r, db', s')" "keeps {wal_file (db_wal db)} ?N s s'"
    "case r of None \<Rightarrow> flush_done murmur now1 m db s db' s' | Some e \<Rightarrow> flush_failed e db db'"
    using Flush_write_any [OF m mo wf ok fresh] by blast
  note ts' = keeps_tables [OF ts w(2) wr]
  have imm: "imm_content db = skip_content m" using m by (simp add: imm_content_def)
  show ?thesis
  proof (cases r)
    case None
    with w(3) obtain rd where rd: "db' = db\<lparr>sstReaders := sstReaders db @ [rd], immutableMemtable := None\<rparr>"
      "reads_table murmur s' rd (map plain (skip_content m))" "r_path rd = sst_path (dataDir db) now1"
      "r_file rd \<noteq> wal_file (db_wal db)" "fs_file s' (r_path rd) = Some (sst_image murmur (map plain (skip_content m)))"
      using wf by (auto simp: flush_done_def fs_file_def reads_table_def)
    have mem': "mem_ok db'" using mem by (simp add: mem_ok_def rd(1))
    have t': "db_tables murmur s' db' (ts @ [map plain (skip_content m)])"
      using ts' rd(2) by (simp add: rd(1) list_all2_appendI)
    have "db_inv murmur db' s'"
      using mem' t' wf wr w(2) rd(4) by (auto simp: db_inv_def rd(1) keeps_def)
    moreover have "active_content db' = active_content db" "imm_content db' = []"
      by (simp_all add: rd(1) active_content_def imm_content_def)
    ultimately show ?thesis
      using w(1) None rd(3,5) StrataGo_Get_layers [OF mem' t'] StrataGo_Get_layers [OF mem ts] imm
      by (auto simp: flush_leaves_def flush_layers) (simp add: rd(1))
  next
    case (Some e)
    with w(3) have f: "flush_failed e db db'" by simp
    then have d: "mem_ok db'" "sstReaders db' = sstReaders db" "wal_file (db_wal db') = wal_file (db_wal db)"
      "active_content db' = active_content db"
      using mem by (auto simp: flush_failed_def mem_ok_def active_content_def)
    note fr = db_inv_frame [OF inv w(2) d(1-3)]
    have "StrataGo_Get murmur k db' s' = StrataGo_Get murmur k db s" if "flush_leaves murmur (skip_content m) r k" for k
    proof (rule Get_frame [OF mem ts d(1) fr(2) [OF ts]])
      show "first_of [active_content db', imm_content db'] k = first_of [active_content db, imm_content db] k"
        using f that Some imm d(4) by (auto simp: flush_failed_def flush_leaves_def imm_content_def split: option.splits)
    qed
    with w(1) Some fr(1) show ?thesis by blast
  qed
qed

text \<open>
  C14: \<^verbatim>\<open>Flush\<close>, whatever fails. It returns and keeps the invariant of the database. Without an error
  nothing is pending, the memtable is a table under its name, and every lookup is as before (for all
  keys but ghosts of the new table and keys bound to the empty value). With an error every lookup is as
  before, but for the one error that says the data is preserved: there the keys of the memtable are no
  longer looked up in it, and only the others keep their value.
\<close>

theorem flush_any_schedule:
  assumes "db_inv murmur db s" "fresh_tmp now1 now2 db s"
    and "table_ok murmur (map plain (skip_content (to_flush db)))"
  shows "\<exists>r db' s'. Flush murmur rnd now1 now2 db s = Some (r, db', s') \<and> db_inv murmur db' s' \<and>
    (\<forall>k. flush_leaves murmur (skip_content (to_flush db)) r k \<longrightarrow>
       StrataGo_Get murmur k db' s' = StrataGo_Get murmur k db s) \<and>
    (r = None \<longrightarrow> immutableMemtable db' = None \<and>
       (Size (activeMemtable db) \<noteq> 0 \<or> immutableMemtable db \<noteq> None \<longrightarrow>
        fs_file s' (sst_path (dataDir db) now1) = Some (sst_image murmur (map plain (skip_content (to_flush db))))))"
proof -
  obtain x db1 s1 where rot: "Flush_rotate rnd db s = (x, db1, s1)" by (metis prod_cases3)
  note a = Flush_rotate_any [OF rot]
  show ?thesis
  proof (cases x)
    case (Some r)
    with a have "r = None \<longrightarrow> Size (activeMemtable db) = 0 \<and> immutableMemtable db = None"
      "immutableMemtable db1 = immutableMemtable db" by auto
    with Flush_rotate_early [OF assms(1) rot [unfolded Some]] rot Some show ?thesis by (auto simp: Flush_def)
  next
    case None
    have pend: "\<exists>m. immutableMemtable db1 = Some m \<and> skip_content m = skip_content (to_flush db)"
      "dataDir db1 = dataDir db" "fresh_tmp now1 now2 db1 s1"
      using a None assms(2) by (auto simp: to_flush_def fresh_tmp_def keeps_def)
    note k = Flush_rotate_keeps [OF assms(1) rot [unfolded None]]
    from pend(1) obtain m where m: "immutableMemtable db1 = Some m" "skip_content m = skip_content (to_flush db)" by blast
    have "table_ok murmur (map plain (skip_content m))" using assms(3) by (simp add: m(2))
    from Flush_write_outcome [OF conjunct1 [OF k] m(1) this pend(3)]
    obtain r db' s' where "Flush_write murmur now1 now2 db1 s1 = Some (r, db', s')" "db_inv murmur db' s'"
      "\<forall>k. flush_leaves murmur (skip_content m) r k \<longrightarrow> StrataGo_Get murmur k db' s' = StrataGo_Get murmur k db s"
      "r = None \<longrightarrow> immutableMemtable db' = None \<and>
         fs_file s' (sst_path (dataDir db1) now1) = Some (sst_image murmur (map plain (skip_content m)))"
      using conjunct2 [OF k] by auto
    with rot None m(2) pend(2) show ?thesis by (auto simp: Flush_def)
  qed
qed

end
