(* ===== verification/Compacting.thy ===== *)
theory Compacting
  imports Faults Compaction
begin

text \<open>
  The phases of a compaction (\<^verbatim>\<open>src/engine/compaction.go\<close>) under every fault schedule: the choice
  of the tables, the unlocked merge, the locked replacement of the readers and the unlocked removal of
  the inputs.
\<close>

section \<open>The phases, whatever fails\<close>

lemma select_loop_any:
  "select_loop t g rs s = ((files, tier), s') \<Longrightarrow>
    keeps {} {} s s' \<and> (files = [] \<or> (length files = CompactionThreshold \<and> subseq files (g @ rs)))"
proof (induction rs arbitrary: t g s)
  case (Cons r rs)
  obtain q s1 where st: "os_Stat (Reader_Path r) s = (q, s1)" by force
  note k = keeps_Stat [OF st]
  have skip: "subseq files (g @ r # rs)" if "subseq files (g @ rs)"
    by (rule subseq_order.trans [OF that], rule list_emb_append_mono) auto
  have alone: "subseq files (g @ r # rs)" if "subseq files (r # rs)"
    by (rule list_emb_append2 [OF that])
  show ?case
  proof (cases q)
    case (Inl e)
    with Cons.IH [of t g s1] Cons.prems st k skip show ?thesis by (auto intro: keeps_trans)
  next
    case (Inr sz)
    show ?thesis
    proof (cases "getTier sz = t")
      case True
      show ?thesis
      proof (cases "length (g @ [r]) = CompactionThreshold")
        case full: True
        then have "files = g @ [r]" "s' = s1" using Cons.prems True Inr st by (auto simp: Let_def)
        with full k show ?thesis by (simp add: list_emb_append_mono)
      next
        case False
        with Cons.IH [of t "g @ [r]" s1] Cons.prems True Inr st k show ?thesis by (auto simp: Let_def intro: keeps_trans)
      qed
    next
      case False
      with Cons.IH [of "getTier sz" "[r]" s1] Cons.prems Inr st k alone show ?thesis
        by (auto simp: Let_def intro: keeps_trans)
    qed
  qed
qed simp

lemma Reader_NewIterator_any:
  assumes "Reader_NewIterator r s = (x, s')"
  shows "keeps {} {} s s'"
    "x = Inr it \<Longrightarrow> reads_table murmur s r es \<Longrightarrow> map_of (fs_dir s) (r_path r) = Some (r_file r) \<Longrightarrow> delivers it es"
proof -
  show "keeps {} {} s s'"
    using assms by (auto simp: Reader_NewIterator_def split: prod.splits sum.splits dest!: keeps_Open)
  let ?q = "s\<lparr>fs_faults := []\<rparr>"
  assume x: "x = Inr it" and r: "reads_table murmur s r es" "map_of (fs_dir s) (r_path r) = Some (r_file r)"
  have "Reader_NewIterator r ?q = (Inr it, ?q)"
    using assms x r(2)
    by (auto simp: Reader_NewIterator_def os_Open_def split: prod.splits sum.splits fault.splits option.splits
        dest!: pop_fault_same)
  moreover have "\<exists>it'. Reader_NewIterator r ?q = (Inr it', ?q) \<and> delivers it' es"
    by (rule Reader_NewIterator_image) (use r in \<open>auto simp: reads_table_def\<close>)
  ultimately show "delivers it es" by simp
qed

abbreviation names_lead :: "fs \<Rightarrow> Reader list \<Rightarrow> bool" where
  "names_lead s rs \<equiv> list_all (\<lambda>r. map_of (fs_dir s) (r_path r) = Some (r_file r)) rs"

lemma open_iters_any:
  "open_iters rs s = (x, s') \<Longrightarrow> list_all2 (reads_table murmur s) rs ts \<Longrightarrow> names_lead s rs \<Longrightarrow>
    keeps {} {} s s' \<and> (\<forall>its. x = Inr its \<longrightarrow> list_all2 delivers its ts)"
proof (induction rs arbitrary: s x s' ts)
  case (Cons r rs)
  then obtain t us where ts: "ts = t # us" "reads_table murmur s r t" "list_all2 (reads_table murmur s) rs us"
    by (auto simp: list_all2_Cons1)
  obtain y s1 where it: "Reader_NewIterator r s = (y, s1)" by force
  note k = Reader_NewIterator_any(1) [OF it]
  obtain z s2 where rest: "open_iters rs s1 = (z, s2)" by force
  have "list_all2 (reads_table murmur s1) rs us" using keeps_tables [OF ts(3) k] by simp
  moreover have "names_lead s1 rs" using Cons.prems(3) k by (auto simp: list_all_iff keeps_def)
  ultimately have IH: "keeps {} {} s1 s2" "z = Inr its \<Longrightarrow> list_all2 delivers its us" for its
    using Cons.IH [OF rest] by blast+
  show ?case
  proof (cases y)
    case (Inl e)
    with Cons.prems(1) it k show ?thesis by auto
  next
    case (Inr i)
    have "delivers i t" using Reader_NewIterator_any(2) [OF it Inr ts(2)] Cons.prems(3) by simp
    with Cons.prems(1) it rest Inr IH keeps_trans [OF k IH(1)] ts(1) show ?thesis by (cases z) auto
  qed
qed auto

lemma Merge_any:
  assumes new: "NewBuilder path now s = (Inr b, s1)" "map_of (fs_dir s) (tmp_name path now) = None"
    and its: "list_all2 delivers iters ts" "list_all ksorted ts" and n: "length (merged ts) \<le> max_bloom_keys"
  shows "\<exists>r s'. Merge murmur iters b s1 = Some (r, s') \<and>
    (r \<noteq> None \<longrightarrow> keeps {} {tmp_name path now} s s') \<and>
    (r = None \<longrightarrow> fs_data s' = fs_data s @ [sst_image murmur (merged ts)] \<and>
      map_of (fs_dir s') = (map_of (fs_dir s))(path \<mapsto> length (fs_data s)))"
proof -
  let ?es = "map (apsnd Some) (merged ts)"
  have pl: "map plain ?es = merged ts" by (simp add: comp_def)
  obtain r1 b1 s2 where add: "add_all murmur ?es b s1 = (r1, b1, s2)" by (metis prod_cases3)
  have "length ?es \<le> max_bloom_keys" using n by simp
  note bd = build_any [OF new this add, unfolded pl]
  show ?thesis
  proof (cases r1)
    case None
    with bd(3) add show ?thesis by (simp add: Merge_add_Finish [OF its] add_Finish_def)
  next
    case (Some e)
    with bd(1) add show ?thesis by (simp add: Merge_add_Finish [OF its] add_Finish_def)
  qed
qed

text \<open>
  The merge phase, for any database: it binds at most the name of the newest input and a temporary
  name, writes only to a new file, and on success that file holds the merge.
\<close>

definition merge_ready :: "(bytes \<Rightarrow> u32) \<Rightarrow> int \<Rightarrow> string \<Rightarrow> Reader list \<Rightarrow> (bytes \<times> bytes) list list \<Rightarrow> fs \<Rightarrow> bool" where
  "merge_ready murmur now d files tf s \<longleftrightarrow> files \<noteq> [] \<and> list_all2 (reads_table murmur s) files tf \<and> names_lead s files \<and>
     table_path d (r_path (last files)) \<and> map_of (fs_dir s) (tmp_name (r_path (last files)) now) = None \<and>
     table_ok murmur (merged (rev tf))"

text \<open>Opening the merged table.\<close>

lemma merged_reader_any:
  assumes k1: "keeps {} {} s s1" and p: "p \<in> N" and ok: "table_ok murmur m"
    and s3: "fs_data s3 = fs_data s1 @ [sst_image murmur m]" "map_of (fs_dir s3) = (map_of (fs_dir s1))(p \<mapsto> length (fs_data s1))"
    and rd: "NewReader p s3 = (x, s4)"
  shows "keeps {} N s s4"
    "x = Inr r \<Longrightarrow> reads_table murmur s4 r m \<and> r_path r = p \<and> length (fs_data s) \<le> r_file r"
proof -
  have "keeps {} N s1 s3" using s3 p by (auto simp: keeps_def nth_append)
  then show "keeps {} N s s4"
    by (rule keeps_trans [OF keeps_trans [OF keeps_all [OF k1]] keeps_all [OF NewReader_any(1) [OF rd]]])
  have "length (fs_data s) \<le> length (fs_data s1)" using k1 by (simp add: keeps_def)
  then show "x = Inr r \<Longrightarrow> reads_table murmur s4 r m \<and> r_path r = p \<and> length (fs_data s) \<le> r_file r"
    using NewReader_any(2) [OF rd, of r "length (fs_data s1)" murmur m] s3 ok by simp
qed

text \<open>The merge once the iterators are open.\<close>

lemma opened_merge_any:
  assumes "merge_ready murmur now d files tf s"
    and it: "open_iters (rev files) s = (Inr its, s1)" and k1: "keeps {} {} s s1" and dl: "list_all2 delivers its (rev tf)"
  shows "\<exists>x s'. compaction_merge murmur now d files s = Some (x, s') \<and>
    keeps {} {r_path (last files), tmp_name (r_path (last files)) now} s s' \<and>
    (\<forall>rd its. x = Inr (rd, its) \<longrightarrow> reads_table murmur s' rd (merged (rev tf)) \<and>
       r_path rd = r_path (last files) \<and> length (fs_data s) \<le> r_file rd)"
proof -
  from assms(1) have f: "list_all2 (reads_table murmur s) files tf" "table_path d (r_path (last files))"
    "map_of (fs_dir s) (tmp_name (r_path (last files)) now) = None" "table_ok murmur (merged (rev tf))"
    by (simp_all add: merge_ready_def)
  let ?p = "r_path (last files)" and ?m = "merged (rev tf)"
  let ?N = "{?p, tmp_name ?p now}"
  have path: "filepath_Join d (sst_name (Sscanf_ts (filepath_Base (Reader_Path (last files))))) = ?p"
    unfolding Reader_Path_def by (rule merged_path [OF f(2)])
  have srt: "list_all ksorted (rev tf)"
    using list_all2_conv_all_nth [THEN iffD1, OF f(1)]
    by (auto simp: list_all_iff in_set_conv_nth reads_table_def table_ok_def)
  have n: "length ?m \<le> max_bloom_keys" using f(4) by (simp add: table_ok_def)
  have tmp1: "map_of (fs_dir s1) (tmp_name ?p now) = None" using f(3) k1 by (simp add: keeps_def)
  obtain x2 s2 where new: "NewBuilder ?p now s1 = (x2, s2)" by force
  show ?thesis
  proof (cases x2)
    case (Inl e)
    have "keeps {} ?N s s2"
      by (rule keeps_trans [OF keeps_all [OF k1] keeps_mono [OF NewBuilder_any(1) [OF new tmp1]]]) auto
    with it new Inl show ?thesis by (auto simp: compaction_merge_def path)
  next
    case (Inr b)
    obtain r s3 where mg: "Merge murmur its b s2 = Some (r, s3)" "r \<noteq> None \<longrightarrow> keeps {} {tmp_name ?p now} s1 s3"
      "r = None \<longrightarrow> fs_data s3 = fs_data s1 @ [sst_image murmur ?m] \<and>
        map_of (fs_dir s3) = (map_of (fs_dir s1))(?p \<mapsto> length (fs_data s1))"
      using Merge_any [OF new [unfolded Inr] tmp1 dl srt n] by blast
    show ?thesis
    proof (cases r)
      case (Some e)
      have "keeps {} {tmp_name ?p now} s1 s3" using mg(2) Some by simp
      then have "keeps {} ?N s s3" by (rule keeps_trans [OF keeps_all [OF k1] keeps_mono]) auto
      with it Inr new mg(1) Some show ?thesis by (auto simp: compaction_merge_def path)
    next
      case None
      then have s3: "fs_data s3 = fs_data s1 @ [sst_image murmur ?m]"
        "map_of (fs_dir s3) = (map_of (fs_dir s1))(?p \<mapsto> length (fs_data s1))" using mg(3) by simp_all
      obtain x3 s4 where rd: "NewReader ?p s3 = (x3, s4)" by force
      have "compaction_merge murmur now d files s = Some (map_sum id (\<lambda>rd. (rd, its)) x3, s4)"
        using it Inr new mg(1) None rd by (cases x3) (simp_all add: compaction_merge_def path)
      moreover have "keeps {} ?N s s4" by (rule merged_reader_any(1) [OF k1 _ f(4) s3 rd]) simp
      moreover have "reads_table murmur s4 rd' ?m \<and> r_path rd' = ?p \<and> length (fs_data s) \<le> r_file rd'"
        if "map_sum id (\<lambda>rd. (rd, its)) x3 = Inr (rd', its')" for rd' its'
        by (rule merged_reader_any(2) [OF k1 UNIV_I f(4) s3 rd]) (use that in \<open>cases x3, simp_all\<close>)
      ultimately show ?thesis by blast
    qed
  qed
qed

lemma compaction_merge_any:
  assumes "merge_ready murmur now d files tf s"
  shows "\<exists>x s'. compaction_merge murmur now d files s = Some (x, s') \<and>
    keeps {} {r_path (last files), tmp_name (r_path (last files)) now} s s' \<and>
    (\<forall>rd its. x = Inr (rd, its) \<longrightarrow> reads_table murmur s' rd (merged (rev tf)) \<and>
       r_path rd = r_path (last files) \<and> length (fs_data s) \<le> r_file rd)"
proof -
  obtain x1 s1 where it: "open_iters (rev files) s = (x1, s1)" by force
  have "keeps {} {} s s1 \<and> (\<forall>its. x1 = Inr its \<longrightarrow> list_all2 delivers its (rev tf))"
    by (rule open_iters_any [OF it, where murmur = murmur]) (use assms in \<open>simp_all add: merge_ready_def list_all2_rev\<close>)
  then have k1: "keeps {} {} s s1" and dl: "x1 = Inr its \<Longrightarrow> list_all2 delivers its (rev tf)" for its by blast+
  show ?thesis
  proof (cases x1)
    case (Inl e)
    with it keeps_all [OF k1] show ?thesis by (auto simp: compaction_merge_def)
  next
    case (Inr its)
    from opened_merge_any [OF assms it [unfolded Inr] k1 dl [OF Inr]] show ?thesis .
  qed
qed

lemma delete_files_any: "keeps {} (r_path ` set rs) s (delete_files rs s)"
proof (induction rs arbitrary: s)
  case (Cons r rs)
  let ?N = "r_path ` set (r # rs)"
  obtain e1 r1 s1 where c: "Reader_Close r s = (e1, r1, s1)" by (metis prod_cases3)
  obtain e2 s2 where rm: "os_Remove (Reader_Path r) s1 = (e2, s2)" by force
  have "keeps {} {} s s1" using c by (auto simp: Reader_Close_def split: if_splits prod.splits dest!: keeps_Close)
  then have "keeps {} ?N s s2"
    by (rule keeps_trans [OF keeps_all keeps_mono [OF keeps_Remove [OF rm]]]) (auto simp: Reader_Path_def)
  then have "keeps {} ?N s (delete_files rs s2)"
    by (rule keeps_trans [OF _ keeps_mono [OF Cons.IH]]) auto
  then show ?case by (simp add: c rm)
qed simp

lemma close_iters_any: "keeps {} {} s (snd (close_iters its s))"
proof (induction its arbitrary: s)
  case (Cons it its)
  obtain e it1 s1 where c: "SST_Close it s = (e, it1, s1)" by (metis prod_cases3)
  have "keeps {} {} s s1" using c by (auto simp: SST_Close_def split: if_splits prod.splits dest!: keeps_Close)
  with Cons.IH [of s1] show ?case by (simp add: c split_beta) (rule keeps_trans)
qed simp

lemma compaction_delete_any: "keeps {} (r_path ` set files) s (compaction_delete its files s)"
proof -
  obtain its1 s1 where c: "close_iters its s = (its1, s1)" by force
  have "keeps {} {} s s1" using close_iters_any [of s its] by (simp add: c)
  then have "keeps {} (r_path ` set files) s (delete_files files s1)"
    using keeps_trans [OF keeps_all delete_files_any] by blast
  then show ?thesis
    using keeps_trans [OF _ keeps_all [OF close_iters_any]] by (simp add: compaction_delete_def c)
qed

section \<open>A whole compaction, whatever fails\<close>

lemma list_all2_subseq:
  "subseq xs ys \<Longrightarrow> list_all2 R ys ts \<Longrightarrow> \<exists>us. subseq us ts \<and> list_all2 R xs us"
proof (induction arbitrary: ts rule: list_emb.induct)
  case (list_emb_Cons xs ys y)
  then obtain t us where "ts = t # us" "list_all2 R ys us" by (auto simp: list_all2_Cons1)
  moreover from this list_emb_Cons.IH obtain vs where "subseq vs us" "list_all2 R xs vs" by blast
  ultimately show ?case by (intro exI [of _ vs]) auto
next
  case (list_emb_Cons2 x y xs ys)
  then obtain t us where "ts = t # us" "R y t" "list_all2 R ys us" by (auto simp: list_all2_Cons1)
  moreover from this list_emb_Cons2.IH obtain vs where "subseq vs us" "list_all2 R xs vs" by blast
  ultimately show ?case using list_emb_Cons2.hyps by (intro exI [of _ "t # vs"]) auto
qed auto

lemma list_all2_exists: "list_all (\<lambda>x. \<exists>y. R x y) xs \<Longrightarrow> \<exists>ys. list_all2 R xs ys"
  by (induction xs) (auto simp: list_all2_Cons1)

lemma set_replace_readers: "set (replace_readers c n b rs) \<subseteq> insert n (set rs)"
  by (induction rs arbitrary: b) auto

text \<open>The locked phase on any database that has the inputs as neighbours: no lookup changes.\<close>

lemma install_neighbours:
  assumes rs: "sstReaders db = as @ files @ bs" "distinct (sstReaders db)" "files \<noteq> []" and mem: "mem_ok db"
    and ts: "list_all2 (reads_table murmur s) as ta" "list_all2 (reads_table murmur s) files tf"
      "list_all2 (reads_table murmur s) bs tb"
    and rd: "reads_table murmur s rd (merged (rev tf))"
  defines "db' \<equiv> compaction_install files rd db"
  shows "sstReaders db' = as @ rd # bs" "db_tables murmur s db' (ta @ [merged (rev tf)] @ tb)"
    "no_ghosts murmur (ta @ tf @ tb) k \<Longrightarrow> no_ghosts murmur (ta @ [merged (rev tf)] @ tb) k \<Longrightarrow>
      StrataGo_Get murmur k db' s = StrataGo_Get murmur k db s"
proof -
  show db': "sstReaders db' = as @ rd # bs"
    using replace_readers_group [of as files bs rd] rs by (simp add: db'_def compaction_install_def)
  then show t': "db_tables murmur s db' (ta @ [merged (rev tf)] @ tb)" using ts rd by (simp add: list_all2_appendI)
  have t: "db_tables murmur s db (ta @ tf @ tb)" using ts by (simp add: rs(1) list_all2_appendI)
  have mem': "mem_ok db'" using mem by (simp add: db'_def compaction_install_def mem_ok_def)
  have srt: "list_all ksorted tf"
    using list_all2_conv_all_nth [THEN iffD1, OF ts(2)]
    by (auto simp: list_all_iff in_set_conv_nth reads_table_def table_ok_def)
  assume g: "no_ghosts murmur (ta @ tf @ tb) k" "no_ghosts murmur (ta @ [merged (rev tf)] @ tb) k"
  have "active_content db' = active_content db" "imm_content db' = imm_content db"
    by (simp_all add: db'_def compaction_install_def active_content_def imm_content_def)
  then show "StrataGo_Get murmur k db' s = StrataGo_Get murmur k db s"
    unfolding StrataGo_Get_layers [OF mem' t'] StrataGo_Get_layers [OF mem t] layered_Get_def
      compaction_layers [OF srt g] by simp
qed

lemma db_inv_install:
  assumes "db_inv murmur db s" "reads_table murmur s rd m" "r_file rd \<noteq> wal_file (db_wal db)"
  shows "db_inv murmur (compaction_install files rd db) s"
proof -
  let ?rs = "replace_readers files rd False (sstReaders db)"
  obtain ts where ts: "db_tables murmur s db ts" using assms(1) by (auto simp: db_inv_def)
  have sub: "set ?rs \<subseteq> insert rd (set (sstReaders db))" by (rule set_replace_readers)
  have "\<exists>t. reads_table murmur s r t" if "r \<in> set (sstReaders db)" for r
    using list_all2_conv_all_nth [THEN iffD1, OF ts] that by (auto simp: in_set_conv_nth)
  with sub assms(2) have "list_all (\<lambda>r. \<exists>t. reads_table murmur s r t) ?rs" by (auto simp: list_all_iff)
  then have "\<exists>us. list_all2 (reads_table murmur s) ?rs us" by (rule list_all2_exists)
  with assms(1,3) sub show ?thesis by (auto simp: db_inv_def compaction_install_def mem_ok_def)
qed

text \<open>
  When a compaction can run, whatever fails on the way: every table is found under its own name, its
  temporary name is free, and the merge of any four of the tables is a table.
\<close>

definition compactable :: "(bytes \<Rightarrow> u32) \<Rightarrow> int \<Rightarrow> StrataGo \<Rightarrow> fs \<Rightarrow> (bytes \<times> bytes) list list \<Rightarrow> bool" where
  "compactable murmur now db s ts \<longleftrightarrow> names_live db s \<and> distinct (sstReaders db) \<and>
     (\<forall>r \<in> set (sstReaders db). table_path (dataDir db) (r_path r) \<and>
        map_of (fs_dir s) (tmp_name (r_path r) now) = None) \<and>
     (\<forall>tf. subseq tf ts \<and> length tf = CompactionThreshold \<longrightarrow> table_ok murmur (merged (rev tf)))"

lemma selected_ready:
  assumes c: "compactable murmur now db s ts" and ts: "db_tables murmur s db ts"
    and sel: "selectFilesForCompaction db s = ((files, tier), s1)" "files \<noteq> []"
  shows "\<exists>tf. subseq tf ts \<and> merge_ready murmur now (dataDir db) files tf s1"
proof -
  have k: "keeps {} {} s s1" and sub: "length files = CompactionThreshold" "subseq files (sstReaders db)"
    using select_loop_any [OF sel(1) [unfolded selectFilesForCompaction_def]] sel(2) by auto
  obtain tf where tf: "subseq tf ts" "list_all2 (reads_table murmur s) files tf"
    using list_all2_subseq [OF sub(2) ts] by blast
  have in_rs: "set files \<subseteq> set (sstReaders db)" using sub(2) by (auto dest: list_emb_set)
  have "list_all2 (reads_table murmur s1) files tf" using keeps_tables [OF tf(2) k] by simp
  moreover have "names_lead s1 files"
    using c in_rs k by (auto simp: compactable_def names_live_def list_all_iff keeps_def)
  moreover have "table_ok murmur (merged (rev tf))"
    using c tf(1) list_all2_lengthD [OF tf(2)] sub(1) by (simp add: compactable_def)
  moreover have "last files \<in> set (sstReaders db)" using in_rs sel(2) by auto
  ultimately show ?thesis
    using c k tf(1) sel(2) by (auto simp: merge_ready_def compactable_def keeps_def)
qed

text \<open>A change of files that are not the database's own: no lookup changes.\<close>

lemma keeps_Get:
  assumes "db_inv murmur db s" "keeps {} N s s'"
  shows "db_inv murmur db s'" "StrataGo_Get murmur k db s' = StrataGo_Get murmur k db s"
proof -
  obtain ts where ts: "db_tables murmur s db ts" and mem: "mem_ok db" using assms(1) by (auto simp: db_inv_def)
  have k: "keeps {wal_file (db_wal db)} N s s'" by (rule keeps_mono [OF assms(2)]) simp_all
  show "db_inv murmur db s'" by (rule db_inv_frame(1) [OF assms(1) k mem]) simp_all
  show "StrataGo_Get murmur k db s' = StrataGo_Get murmur k db s"
    by (rule Get_frame [OF mem ts mem db_inv_frame(2) [OF assms(1) k mem _ _ ts]]) simp_all
qed

lemma tables_unique:
  assumes "list_all2 (reads_table murmur s) rs ts" "list_all2 (reads_table murmur s) rs us"
  shows "ts = us"
proof -
  have "right_unique (reads_table murmur s)"
    by (rule right_uniqueI) (metis reads_table_ReadAll sum.inject(2))
  then have "right_unique (list_all2 (reads_table murmur s))" by (rule list.right_unique_rel)
  from right_uniqueD [OF this assms] show ?thesis .
qed

text \<open>When what was merged are neighbours, the new table takes their place.\<close>

lemma compaction_neighbours:
  assumes "sublist files (sstReaders db)" "files \<noteq> []" "distinct (sstReaders db)" "mem_ok db"
    and tab: "db_tables murmur s db ts" "list_all2 (reads_table murmur s) files tf"
    and rd: "reads_table murmur s rd (merged (rev tf))"
  shows "\<exists>ts'. db_tables murmur s (compaction_install files rd db) ts' \<and>
    (\<forall>k. no_ghosts murmur ts k \<and> no_ghosts murmur ts' k \<longrightarrow>
       StrataGo_Get murmur k (compaction_install files rd db) s = StrataGo_Get murmur k db s)"
proof -
  obtain as bs where rs: "sstReaders db = as @ files @ bs" using assms(1) by (auto simp: sublist_def)
  obtain ta tg tb where ts: "ts = ta @ tg @ tb" "list_all2 (reads_table murmur s) as ta"
    "list_all2 (reads_table murmur s) files tg" "list_all2 (reads_table murmur s) bs tb"
    using tab(1) unfolding rs by (auto simp: list_all2_append1)
  have tg: "tg = tf" by (rule tables_unique [OF ts(3) tab(2)])
  note inst = install_neighbours [OF rs assms(3,2,4) ts(2-4) rd [folded tg], unfolded tg]
  from inst(2) show ?thesis
    by (rule exI [of _ "ta @ [merged (rev tf)] @ tb", OF conjI]) (use inst(3) ts(1) tg in auto)
qed

text \<open>The last two phases: the new reader is installed and the merged files are removed.\<close>

lemma compaction_finish:
  assumes inv: "db_inv murmur db s" and rd: "reads_table murmur s rd (merged (rev tf))" "r_file rd \<noteq> wal_file (db_wal db)"
  shows "db_inv murmur (compaction_install files rd db) (compaction_delete its files s)"
    and "sublist files (sstReaders db) \<Longrightarrow> files \<noteq> [] \<Longrightarrow> distinct (sstReaders db) \<Longrightarrow> db_tables murmur s db ts \<Longrightarrow>
      list_all2 (reads_table murmur s) files tf \<Longrightarrow>
      \<exists>ts'. db_tables murmur (compaction_delete its files s) (compaction_install files rd db) ts' \<and>
        (\<forall>k. no_ghosts murmur ts k \<and> no_ghosts murmur ts' k \<longrightarrow>
           StrataGo_Get murmur k (compaction_install files rd db) (compaction_delete its files s) = StrataGo_Get murmur k db s)"
proof -
  note same = keeps_Get [OF db_inv_install [OF inv rd, of files] compaction_delete_any]
  show "db_inv murmur (compaction_install files rd db) (compaction_delete its files s)" by (rule same(1))
  assume *: "sublist files (sstReaders db)" "files \<noteq> []" "distinct (sstReaders db)" "db_tables murmur s db ts"
    "list_all2 (reads_table murmur s) files tf"
  have "mem_ok db" using inv by (simp add: db_inv_def)
  from compaction_neighbours [OF *(1-3) this *(4,5) rd(1)] obtain ts' where
    "db_tables murmur s (compaction_install files rd db) ts'" "\<forall>k. no_ghosts murmur ts k \<and> no_ghosts murmur ts' k \<longrightarrow>
       StrataGo_Get murmur k (compaction_install files rd db) s = StrataGo_Get murmur k db s" by blast
  moreover from keeps_tables [OF this(1) compaction_delete_any]
  have "db_tables murmur (compaction_delete its files s) (compaction_install files rd db) ts'" by simp
  ultimately show "\<exists>ts'. db_tables murmur (compaction_delete its files s) (compaction_install files rd db) ts' \<and>
      (\<forall>k. no_ghosts murmur ts k \<and> no_ghosts murmur ts' k \<longrightarrow>
         StrataGo_Get murmur k (compaction_install files rd db) (compaction_delete its files s) = StrataGo_Get murmur k db s)"
    using same(2) by auto
qed

text \<open>
  C4: \<^verbatim>\<open>RunCompaction\<close>, whatever fails. It returns and keeps the invariant. If it reports an error, or
  finds nothing to merge, the database is unchanged and every lookup is as before. If it merges tables
  that are neighbours, every key that is not a ghost of a table before or after has its value as before.
\<close>

theorem compaction_any_schedule:
  assumes "db_inv murmur db s" "db_tables murmur s db ts" "compactable murmur now db s ts"
    and "selectFilesForCompaction db s = ((files, tier), s1)"
  shows "\<exists>r db' s'. RunCompaction murmur now db s = Some (r, db', s') \<and> db_inv murmur db' s' \<and>
    (r \<noteq> None \<or> files = [] \<longrightarrow> db' = db \<and> (\<forall>k. StrataGo_Get murmur k db' s' = StrataGo_Get murmur k db s)) \<and>
    (r = None \<and> files \<noteq> [] \<and> sublist files (sstReaders db) \<longrightarrow>
       (\<exists>ts'. db_tables murmur s' db' ts' \<and>
          (\<forall>k. no_ghosts murmur ts k \<and> no_ghosts murmur ts' k \<longrightarrow>
             StrataGo_Get murmur k db' s' = StrataGo_Get murmur k db s)))"
proof -
  have k1: "keeps {} {} s s1"
    using select_loop_any [OF assms(4) [unfolded selectFilesForCompaction_def]] by simp
  note same1 = keeps_Get [OF assms(1) k1]
  show ?thesis
  proof (cases "files = []")
    case True
    then have "RunCompaction murmur now db s = Some (None, db, s1)" using assms(4) by (simp add: RunCompaction_def)
    with same1 True show ?thesis by auto
  next
    case False
    obtain tf where tf: "merge_ready murmur now (dataDir db) files tf s1"
      using selected_ready [OF assms(3,2,4) False] by blast
    let ?N = "{r_path (last files), tmp_name (r_path (last files)) now}"
    obtain x s2 where mg: "compaction_merge murmur now (dataDir db) files s1 = Some (x, s2)" "keeps {} ?N s1 s2"
      "\<forall>rd its. x = Inr (rd, its) \<longrightarrow> reads_table murmur s2 rd (merged (rev tf)) \<and>
         r_path rd = r_path (last files) \<and> length (fs_data s1) \<le> r_file rd"
      using compaction_merge_any [OF tf] by blast
    note same2 = keeps_Get [OF same1(1) mg(2)]
    show ?thesis
    proof (cases x)
      case (Inl e)
      then have "RunCompaction murmur now db s = Some (Some e, db, s2)"
        using assms(4) False mg(1) by (simp add: RunCompaction_def)
      with same1 same2 show ?thesis by auto
    next
      case (Inr y)
      then obtain rd its where x: "x = Inr (rd, its)" by (cases y) auto
      with mg(3) have rd: "reads_table murmur s2 rd (merged (rev tf))" "length (fs_data s1) \<le> r_file rd" by auto
      let ?db' = "compaction_install files rd db" and ?s' = "compaction_delete its files s2"
      have run: "RunCompaction murmur now db s = Some (None, ?db', ?s')"
        using assms(4) False mg(1) x by (simp add: RunCompaction_def)
      have "r_file rd \<noteq> wal_file (db_wal db)" using rd(2) same1(1) by (auto simp: db_inv_def)
      note fin = compaction_finish [OF same2(1) rd(1) this, where files = files and its = its]
      have "distinct (sstReaders db)" using assms(3) by (simp add: compactable_def)
      moreover have "db_tables murmur s2 db ts" using keeps_tables [OF keeps_tables [OF assms(2) k1] mg(2)] by simp
      moreover have "list_all2 (reads_table murmur s2) files tf"
        using keeps_tables [OF _ mg(2)] tf by (simp add: merge_ready_def)
      ultimately show ?thesis using run fin(1) fin(2) [of ts] False by (simp add: same1(2) same2(2))
    qed
  qed
qed

end
