(* ===== verification/CompactionLoss.thy ===== *)
theory CompactionLoss
  imports Compacting
begin

text \<open>
  Two ways in which a compaction loses data: the merged table carries the name of one of the inputs
  and is removed with them, so a restart finds neither; and a table whose file cannot be examined is
  passed over without ending the group, so tables around it are merged and end up on its wrong side.
\<close>

section \<open>A restart after a compaction\<close>

lemma finite_sst_names: "finite (sst_names d s)"
proof -
  have "sst_names d s \<subseteq> {n. filepath_Join d n \<in> fst ` set (fs_dir s)}"
    by (auto simp: sst_names_def dom_map_of_conv_image_fst)
  moreover have "finite {n. filepath_Join d n \<in> fst ` set (fs_dir s)}"
    using finite_vimageI [of "fst ` set (fs_dir s)" "filepath_Join d"]
    by (simp add: vimage_def inj_def filepath_Join_def)
  ultimately show ?thesis by (rule finite_subset)
qed

lemma sorted_list_of_set_filter:
  "finite A \<Longrightarrow> sorted_list_of_set {x \<in> A. P x} = filter P (sorted_list_of_set A)"
  by (rule sorted_distinct_set_unique) (auto intro: sorted_wrt_filter)

text \<open>Removing files from the directory removes their tables from what \<^verbatim>\<open>Open\<close> finds, in place.\<close>

lemma disk_infos_removed:
  assumes "fs_wf s" "fs_wf s'" "sst_names d s' = {n \<in> sst_names d s. P (filepath_Join d n)}"
  shows "disk_infos d s' = filter (\<lambda>i. P (info_path i)) (disk_infos d s)"
  unfolding disk_infos_def sstable_infos_def sst_names_list [OF assms(1)] sst_names_list [OF assms(2)]
    assms(3) sorted_list_of_set_filter [OF finite_sst_names] filter_sort
  by (simp add: filter_map comp_def)

lemma disk_paths_distinct: "fs_wf s \<Longrightarrow> distinct (map info_path (disk_infos d s))"
proof -
  assume a: "fs_wf s"
  let ?f = "\<lambda>n. \<lparr>info_path = filepath_Join d n, timestamp = Sscanf_ts n\<rparr>"
  have "distinct (map (info_path \<circ> ?f) (sorted_list_of_set (sst_names d s)))"
    by (simp add: distinct_map inj_on_def comp_def filepath_Join_def)
  moreover have "mset (map info_path (disk_infos d s)) = mset (map (info_path \<circ> ?f) (sorted_list_of_set (sst_names d s)))"
    by (simp add: disk_infos_def sstable_infos_def sst_names_list [OF a] multiset.map_comp comp_def)
  ultimately show ?thesis by (metis mset_eq_imp_distinct_iff)
qed

lemma removed_tables:
  assumes dur: "durable murmur db s" and wf: "fs_wf s'" and rs: "sstReaders db = as @ files @ bs"
    and dir: "\<forall>n. map_of (fs_dir s') n = (if n \<in> r_path ` set files then None else map_of (fs_dir s) n)"
  shows "map r_path (as @ bs) = map info_path (disk_infos (dataDir db) s')"
    "\<forall>r \<in> set (as @ bs). r_path r \<notin> r_path ` set files"
proof -
  let ?d = "dataDir db" and ?P = "\<lambda>p. p \<notin> r_path ` set files"
  have d: "fs_wf s" "map r_path (sstReaders db) = map info_path (disk_infos ?d s)" using dur by (simp_all add: durable_def)
  have "distinct (map r_path (as @ files @ bs))" using disk_paths_distinct [OF d(1)] d(2) rs by metis
  then show np: "\<forall>r \<in> set (as @ bs). ?P (r_path r)" by auto
  have "sst_names ?d s' = {n \<in> sst_names ?d s. ?P (filepath_Join ?d n)}"
    using dir by (auto simp: sst_names_def dom_def split: if_splits)
  from disk_infos_removed [OF d(1) wf this]
  have "map info_path (disk_infos ?d s') = filter ?P (map info_path (disk_infos ?d s))" by (simp add: filter_map comp_def)
  also have "\<dots> = filter ?P (map r_path (as @ files @ bs))" by (simp only: d(2) [symmetric] rs)
  also have "filter ?P (map r_path (as @ files @ bs)) = map r_path (as @ bs)"
    using np by (auto simp: filter_map comp_def filter_id_conv filter_empty_conv intro!: filter_True filter_False)
  finally show "map r_path (as @ bs) = map info_path (disk_infos ?d s')" by simp
qed

text \<open>The database that a restart finds: the one before, without the tables that were merged.\<close>

lemma durable_removed:
  assumes dur: "durable murmur db s" "wal_covers rs db s" and rs: "sstReaders db = as @ files @ bs"
    and s': "fs_wf s'" "fs_data s' = fs_data s @ [img]"
      "\<forall>n. map_of (fs_dir s') n = (if n \<in> r_path ` set files then None else map_of (fs_dir s) n)"
    and paths: "\<forall>r \<in> set files. table_path (dataDir db) (r_path r)"
  shows "durable murmur (db\<lparr>sstReaders := as @ bs\<rparr>) s'" "wal_covers rs (db\<lparr>sstReaders := as @ bs\<rparr>) s'"
proof -
  let ?db = "db\<lparr>sstReaders := as @ bs\<rparr>"
  from dur(1) obtain ts where ts: "db_tables murmur s db ts" and d: "mem_ok db" "wal_file (db_wal db) < length (fs_data s)"
    "wal_file (db_wal db) \<notin> r_file ` set (sstReaders db)" "wal_live db s" "names_live db s"
    "map_of (fs_dir s) (flushing_name (dataDir db)) = None"
    by (auto simp: durable_def db_inv_def)
  obtain ta tf tb where "list_all2 (reads_table murmur s) as ta" "list_all2 (reads_table murmur s) bs tb"
    using ts unfolding rs by (auto simp: list_all2_append1)
  then have "list_all2 (reads_table murmur s) (as @ bs) (ta @ tb)" by (rule list_all2_appendI)
  then have tabs: "db_tables murmur s' ?db (ta @ tb)"
    using db_tables_frame [of murmur s "as @ bs" "ta @ tb" s'] by (simp add: s'(2) nth_append)
  have inv: "db_inv murmur ?db s'" using tabs d(1-3) rs by (auto simp: db_inv_def mem_ok_def s'(2))
  note rt = removed_tables [OF dur(1) s'(1) rs s'(3)]
  have "names_live ?db s'"
    using d(5) rt(2) s'(3) by (auto simp: names_live_def list_all_iff rs)
  moreover have "wal_name (dataDir db) \<notin> r_path ` set files" "flushing_name (dataDir db) \<notin> r_path ` set files"
    using paths by (fastforce simp: table_path_def)+
  moreover show cov: "wal_covers rs ?db s'"
    using dur(2) d(2) by (simp add: wal_covers_def s'(2) nth_append active_content_def)
  ultimately show "durable murmur ?db s'"
    using dur(1) inv s'(1,3) d(4,6) rt(1) by (auto simp: durable_def wal_live_def)
qed

lemma first_of_None: "first_of ts k = None \<longleftrightarrow> (\<forall>t \<in> set ts. map_of t k = None)"
  by (induction ts) (auto split: option.splits)

text \<open>A lookup of a key that only the merged table holds, with that table and without it.\<close>

lemma lookup_only_merged:
  assumes "list_all ksorted tf" "first_of (rev tf) k = Some v" "first_of (ta @ tb) k = None" "no_ghosts murmur (ta @ tb) k"
  shows "tables_Get murmur k (rev (ta @ [merged (rev tf)] @ tb)) = value_of v"
    "tables_Get murmur k (rev (ta @ tb)) = None"
proof -
  have m: "map_of (merged (rev tf)) k = Some v" using map_of_merged [of "rev tf"] assms(1,2) by simp
  have g: "no_ghosts murmur (rev (ta @ [merged (rev tf)] @ tb)) k" "no_ghosts murmur (rev (ta @ tb)) k"
    using assms(4) m by (simp_all add: no_ghosts_def)
  have n: "first_of (rev ta) k = None" "first_of (rev tb) k = None" using assms(3) by (simp_all add: first_of_None)
  show "tables_Get murmur k (rev (ta @ [merged (rev tf)] @ tb)) = value_of v"
    using tables_Get_first [OF g(1)] n m by (simp add: first_of_append)
  show "tables_Get murmur k (rev (ta @ tb)) = None"
    using tables_Get_first [OF g(2)] n by (simp add: first_of_append)
qed

text \<open>
  C31: a compaction and then a restart lose the merged tables. When nothing fails the compaction
  succeeds, and a key that only the merged tables hold, with a value, is found before the restart;
  \<^verbatim>\<open>Open\<close> on the files then succeeds, without a word about it, with the readers of the other tables
  only, and the key is not found.
\<close>

theorem compaction_lost_on_restart:
  assumes "durable murmur db s" "db_tables murmur s db ts" "can_compact murmur now db s ts"
    and "selectFilesForCompaction db s = ((files, tier), s1)" "files \<noteq> []"
    and "\<forall>xs. mset (ord2 xs) = mset xs" "length (fs_data s ! wal_file (db_wal db)) < 2 ^ 32"
  shows "\<exists>db' s' as bs ta tf tb db''. RunCompaction murmur now db s = Some (None, db', s') \<and>
    Open rnd ord1 ord2 (dataDir db) s' = Some (Inr db'', s') \<and>
    sstReaders db = as @ files @ bs \<and> ts = ta @ tf @ tb \<and> length tf = 4 \<and> sstReaders db'' = as @ bs \<and>
    (\<forall>k v. map_of (active_content db) k = None \<and> first_of (rev tf) k = Some v \<and> v \<noteq> [] \<and>
       first_of (ta @ tb) k = None \<and> no_ghosts murmur (ta @ tb) k \<longrightarrow>
       StrataGo_Get murmur k db' s' = Some (Some v) \<and> StrataGo_Get murmur k db'' s' = Some None)"
proof -
  obtain as bs ta tf tb r s' where run: "sstReaders db = as @ files @ bs" "ts = ta @ tf @ tb"
    "RunCompaction murmur now db s = Some (None, db\<lparr>sstReaders := as @ r # bs\<rparr>, s')" "quiet s'"
    "list_all2 (reads_table murmur s') (as @ r # bs) (ta @ [merged (rev tf)] @ tb)" "list_all ksorted tf"
    "fs_data s' = fs_data s @ [sst_image murmur (merged (rev tf))]"
    "\<forall>n. map_of (fs_dir s') n = (if n \<in> r_path ` set files then None else map_of (fs_dir s) n)"
    "fs_wf s \<longrightarrow> fs_wf s'" "length ta = length as" "length tf = 4"
    using compaction_run [OF assms(3,2,4,5)] by blast
  obtain rs where rs: "wal_covers rs db s" using assms(1) by (auto simp: durable_def)
  have wf: "fs_wf s'" using run(9) assms(1) by (simp add: durable_def)
  have mem: "mem_ok db" "immutableMemtable db = None" "wal_file (db_wal db) < length (fs_data s)"
    using assms(1) by (auto simp: durable_def db_inv_def)
  have paths: "\<forall>r \<in> set files. table_path (dataDir db) (r_path r)"
    using assms(3) run(1) by (auto simp: can_compact_def)
  let ?db0 = "db\<lparr>sstReaders := as @ bs\<rparr>" and ?db' = "db\<lparr>sstReaders := as @ r # bs\<rparr>"
  note dur = durable_removed [OF assms(1) rs run(1) wf run(7,8) paths]
  have len: "length (fs_data s' ! wal_file (db_wal ?db0)) < 2 ^ 32"
    using assms(7) mem(3) by (simp add: run(7) nth_append)
  obtain db'' where o: "Open rnd ord1 ord2 (dataDir db) s' = Some (Inr db'', s')" "sstReaders db'' = as @ bs"
    "\<forall>k. StrataGo_Get murmur k db'' s' =
       (if map_of (active_content ?db0) k = Some None then Some (Some []) else StrataGo_Get murmur k ?db0 s')"
    using Open_again [OF dur(1) run(4) assms(6) len, of rnd ord1] by auto
  have t0: "list_all2 (reads_table murmur s') (as @ bs) (ta @ tb)"
    using run(5,10) by (simp add: list_all2_append list_all2_appendI)
  have "StrataGo_Get murmur k ?db' s' = Some (Some v) \<and> StrataGo_Get murmur k db'' s' = Some None"
    if k: "map_of (active_content db) k = None" "first_of (rev tf) k = Some v" "v \<noteq> []"
      "first_of (ta @ tb) k = None" "no_ghosts murmur (ta @ tb) k" for k v
  proof -
    note l = lookup_only_merged [OF run(6) k(2,4,5)]
    have m: "mem_ok ?db'" "mem_ok ?db0" "active_content ?db' = active_content db" "active_content ?db0 = active_content db"
      "imm_content ?db' = []" "imm_content ?db0 = []"
      using mem by (simp_all add: mem_ok_def active_content_def imm_content_def)
    have "StrataGo_Get murmur k ?db' s' = Some (Some v)"
      using StrataGo_Get_layers [OF m(1), of murmur s' _ k] run(5) l(1) m(3,5) k(1,3)
      by (auto simp: layered_Get_def value_of_def)
    moreover have "StrataGo_Get murmur k ?db0 s' = Some None"
      using StrataGo_Get_layers [OF m(2), of murmur s' _ k] t0 l(2) m(4,6) k(1) by (auto simp: layered_Get_def)
    ultimately show ?thesis using o(3) m(4) k(1) by simp
  qed
  with run(1-3,11) o(1,2) show ?thesis by blast
qed

section \<open>A table that is passed over\<close>

text \<open>Four tables of one tier around one whose name is gone: the group spans it.\<close>

lemma select_spans:
  assumes "quiet s" "sstReaders db = [a, m, b, c, d]" "names_lead s [a, b, c, d]" "fs_file s (r_path m) = None"
    and "tier_of s b = tier_of s a" "tier_of s c = tier_of s a" "tier_of s d = tier_of s a"
  shows "selectFilesForCompaction db s = (([a, b, c, d], tier_of s a), s)"
proof -
  have st: "os_Stat (Reader_Path r) s = (case fs_file s (r_path r) of None \<Rightarrow> (Inl ErrNotExist, s)
      | Some x \<Rightarrow> (Inr (int (length x)), s))" for r
    using assms(1) by (simp add: os_Stat_def Reader_Path_def split: option.splits)
  have t: "\<exists>x. fs_file s (r_path r) = Some x \<and> getTier (int (length x)) = tier_of s r" if "r \<in> {a, b, c, d}" for r
    using that assms(3) by (auto simp: fs_file_def tier_of_def)
  obtain xa xb xc xd where x: "fs_file s (r_path a) = Some xa" "getTier (int (length xa)) = tier_of s a"
    "fs_file s (r_path b) = Some xb" "getTier (int (length xb)) = tier_of s a"
    "fs_file s (r_path c) = Some xc" "getTier (int (length xc)) = tier_of s a"
    "fs_file s (r_path d) = Some xd" "getTier (int (length xd)) = tier_of s a"
    using t [of a] t [of b] t [of c] t [of d] assms(5-7) by auto
  have "tier_of s a \<noteq> - 1" using getTier_tiers [of "int (length xa)" 0] x(2) by simp
  then show ?thesis
    using x assms(2,4) by (simp add: selectFilesForCompaction_def st Let_def CompactionThreshold_def)
qed

text \<open>
  C32: a compaction can make an old value win. The second of five tables has no file under its name any
  more, as every merged table has after its compaction; the other four are of one tier. When nothing
  fails the compaction succeeds, merges the four around it and puts the result in front of it: a key that
  the newest table holds is looked up with that value before, and with the older value of the passed-over
  table after.
\<close>

theorem compaction_reorders_tables:
  assumes "db_inv murmur db s" "quiet s" "sstReaders db = [a, m, b, c, d]" "distinct (sstReaders db)"
    and "db_tables murmur s db [ta, tm, tb, tc, td]"
    and "names_lead s [a, b, c, d]" "fs_file s (r_path m) = None"
    and "tier_of s b = tier_of s a" "tier_of s c = tier_of s a" "tier_of s d = tier_of s a"
    and "table_path (dataDir db) (r_path d)" "map_of (fs_dir s) (tmp_name (r_path d) now) = None"
    and "table_ok murmur (merged [td, tc, tb, ta])"
    and "first_of [active_content db, imm_content db] k = None" "map_of td k = Some new_val" "map_of tm k = Some old_val"
  shows "StrataGo_Get murmur k db s = Some (value_of new_val) \<and>
    (\<exists>db' s'. RunCompaction murmur now db s = Some (None, db', s') \<and>
       StrataGo_Get murmur k db' s' = Some (value_of old_val))"
proof
  have mem: "mem_ok db" using assms(1) by (simp add: db_inv_def)
  show "StrataGo_Get murmur k db s = Some (value_of new_val)"
    using StrataGo_Get_layers [OF mem assms(5), of k] assms(14,15) by (simp add: layered_Get_def)
  let ?files = "[a, b, c, d]" and ?tf = "[ta, tb, tc, td]"
  let ?s1 = "new_table (r_path d) now (sst_image murmur (merged [td, tc, tb, ta])) s"
  have tabs: "reads_table murmur s a ta" "reads_table murmur s m tm" "reads_table murmur s b tb"
    "reads_table murmur s c tc" "reads_table murmur s d td"
    using assms(5) by (simp_all add: assms(3))
  obtain r its where mg: "compaction_merge murmur now (dataDir db) ?files s = Some (Inr (r, its), ?s1)"
    "reads_table murmur ?s1 r (merged [td, tc, tb, ta])"
    using compaction_merge_quiet [OF assms(2), of ?files murmur ?tf "dataDir db" now] tabs assms(6,11-13) by auto
  let ?db' = "compaction_install ?files r db" and ?s' = "compaction_delete its ?files ?s1"
  have run: "RunCompaction murmur now db s = Some (None, ?db', ?s')"
    using select_spans [OF assms(2,3,6-10)] mg(1) by (simp add: RunCompaction_def)
  have rs: "sstReaders ?db' = [r, m]" using assms(3,4) by (auto simp: compaction_install_def)
  have m1: "reads_table murmur ?s1 m tm"
    by (rule reads_table_frame [OF tabs(2)]) (use tabs(2) in \<open>simp_all add: nth_append reads_table_def\<close>)
  have "list_all2 (reads_table murmur ?s1) [r, m] [merged [td, tc, tb, ta], tm]" using mg(2) m1 by simp
  from keeps_tables [OF this compaction_delete_any]
  have t': "db_tables murmur ?s' ?db' [merged [td, tc, tb, ta], tm]" by (simp add: rs)
  have mem': "mem_ok ?db'" using mem by (simp add: mem_ok_def compaction_install_def)
  have "active_content ?db' = active_content db" "imm_content ?db' = imm_content db"
    by (simp_all add: compaction_install_def active_content_def imm_content_def)
  then have "StrataGo_Get murmur k ?db' ?s' = Some (value_of old_val)"
    using StrataGo_Get_layers [OF mem' t', of k] assms(14,16) by (simp add: layered_Get_def)
  with run show "\<exists>db' s'. RunCompaction murmur now db s = Some (None, db', s') \<and>
       StrataGo_Get murmur k db' s' = Some (value_of old_val)" by blast
qed

end
