(* ===== verification/CompactionWorker.thy ===== *)
theory CompactionWorker
  imports Compacting
begin

text \<open>
  A compaction beside the rest of the engine. \<^verbatim>\<open>RunCompaction\<close> (\<^verbatim>\<open>src/engine/compaction.go\<close>) holds
  the lock while it chooses the tables and while it replaces the readers; it merges the tables and removes the
  inputs without it. Between any two of these phases other goroutines write, rotate the memtable and write out a
  pending one. The phases and the steps of the others are a step relation; every call may fail.
\<close>

section \<open>Steps\<close>

datatype compaction_phase =
    Idle
  | Selected "Reader list"
  | Merged "Reader list" Reader "Iterator list"
  | Installed "Reader list" "Iterator list"
  | Finished

type_synonym worker_state = "StrataGo \<times> fs \<times> compaction_phase"

text \<open>
  The label of a step is the write it acknowledges, if any. The steps are those that matter for the key \<open>k\<close>:
  a table is written out only when that leaves \<open>k\<close> alone, and readers are replaced only when \<open>k\<close> is
  no ghost of a table. The chosen tables are neighbours; the times that name files are new.
\<close>

definition ghost_free :: "(bytes \<Rightarrow> u32) \<Rightarrow> bytes \<Rightarrow> StrataGo \<Rightarrow> fs \<Rightarrow> bool" where
  "ghost_free murmur k db s \<longleftrightarrow> (\<forall>ts. db_tables murmur s db ts \<longrightarrow> no_ghosts murmur ts k)"

inductive worker_step ::
  "(bytes \<Rightarrow> u32) \<Rightarrow> bytes \<Rightarrow> (bytes \<times> slice) option \<Rightarrow> worker_state \<Rightarrow> worker_state \<Rightarrow> bool" for murmur k where
  w_put: "StrataGo_Put k' v db s = Some (r, db', s') \<Longrightarrow>
    worker_step murmur k (if r = None then Some (k', v) else None) (db, s, ph) (db', s', ph)"
| w_rotate: "Flush_rotate rnd db s = (x, db', s') \<Longrightarrow>
    worker_step murmur k None (db, s, ph) (db', s', ph)"
| w_write: "immutableMemtable db = Some m \<Longrightarrow> table_ok murmur (map plain (skip_content m)) \<Longrightarrow>
    fresh_tmp now1 now2 db s \<Longrightarrow> map_of (fs_dir s) (sst_path (dataDir db) now1) = None \<Longrightarrow>
    - (2 ^ 63) \<le> now1 \<Longrightarrow> now1 < 2 ^ 63 \<Longrightarrow>
    Flush_write murmur now1 now2 db s = Some (r, db', s') \<Longrightarrow> flush_leaves murmur (skip_content m) r k \<Longrightarrow>
    worker_step murmur k None (db, s, ph) (db', s', ph)"
| w_select: "selectFilesForCompaction db s = ((files, tier), s') \<Longrightarrow> sublist files (sstReaders db) \<Longrightarrow>
    worker_step murmur k None (db, s, Idle) (db, s', if files = [] then Finished else Selected files)"
| w_merge: "map_of (fs_dir s) (tmp_name (r_path (last files)) now) = None \<Longrightarrow>
    \<forall>tf. list_all2 (reads_table murmur s) files tf \<longrightarrow> table_ok murmur (merged (rev tf)) \<Longrightarrow>
    compaction_merge murmur now (dataDir db) files s = Some (x, s') \<Longrightarrow>
    worker_step murmur k None (db, s, Selected files)
      (db, s', case x of Inl e \<Rightarrow> Finished | Inr (rd, its) \<Rightarrow> Merged files rd its)"
| w_install: "ghost_free murmur k db s \<Longrightarrow> ghost_free murmur k (compaction_install files rd db) s \<Longrightarrow>
    worker_step murmur k None (db, s, Merged files rd its) (compaction_install files rd db, s, Installed files its)"
| w_delete: "worker_step murmur k None (db, s, Installed files its) (db, compaction_delete its files s, Finished)"

inductive worker_run ::
  "(bytes \<Rightarrow> u32) \<Rightarrow> bytes \<Rightarrow> (bytes \<times> slice) option list \<Rightarrow> worker_state \<Rightarrow> worker_state \<Rightarrow> bool" for murmur k where
  worker_nil: "worker_run murmur k [] st st"
| worker_cons: "worker_step murmur k l st st' \<Longrightarrow> worker_run murmur k ls st' st'' \<Longrightarrow>
    worker_run murmur k (l # ls) st st''"

text \<open>The specification: only acknowledged writes of the key change what is found.\<close>

fun acknowledge :: "bytes \<Rightarrow> (bytes \<times> slice) option \<Rightarrow> bytes option option \<Rightarrow> bytes option option" where
  "acknowledge k None x = x"
| "acknowledge k (Some (k', v)) x = (if k' = k then Some v else x)"

section \<open>The invariant\<close>

definition phase_ok :: "(bytes \<Rightarrow> u32) \<Rightarrow> StrataGo \<Rightarrow> fs \<Rightarrow> compaction_phase \<Rightarrow> bool" where
  "phase_ok murmur db s ph \<longleftrightarrow>
     (case ph of
        Idle \<Rightarrow> names_live db s
      | Selected files \<Rightarrow> names_live db s \<and> files \<noteq> [] \<and> sublist files (sstReaders db)
      | Merged files rd its \<Rightarrow> files \<noteq> [] \<and> sublist files (sstReaders db) \<and> table_path (dataDir db) (r_path rd) \<and>
          r_file rd \<notin> r_file ` set (sstReaders db) \<and> r_file rd \<noteq> wal_file (db_wal db) \<and>
          (\<exists>tf. list_all2 (reads_table murmur s) files tf \<and> reads_table murmur s rd (merged (rev tf)))
      | _ \<Rightarrow> True)"

definition tables_named :: "StrataGo \<Rightarrow> bool" where
  "tables_named db \<longleftrightarrow> distinct (sstReaders db) \<and> (\<forall>r \<in> set (sstReaders db). table_path (dataDir db) (r_path r))"

definition worker_inv :: "(bytes \<Rightarrow> u32) \<Rightarrow> worker_state \<Rightarrow> bool" where
  "worker_inv murmur st \<longleftrightarrow> (case st of (db, s, ph) \<Rightarrow>
     db_inv murmur db s \<and> tables_named db \<and> phase_ok murmur db s ph)"

text \<open>
  What the steps of the other goroutines leave alone: files but the log, the readers there are, and the
  names that lead to their files; a new reader is on a new file.
\<close>

definition others_frame :: "StrataGo \<Rightarrow> fs \<Rightarrow> StrataGo \<Rightarrow> fs \<Rightarrow> bool" where
  "others_frame db s db' s' \<longleftrightarrow> dataDir db' = dataDir db \<and> (\<exists>N. keeps {wal_file (db_wal db)} N s s') \<and>
     (\<forall>r \<in> set (sstReaders db). table_path (dataDir db) (r_path r) \<and> map_of (fs_dir s) (r_path r) \<noteq> None \<longrightarrow>
        map_of (fs_dir s') (r_path r) = map_of (fs_dir s) (r_path r)) \<and>
     (wal_file (db_wal db') = wal_file (db_wal db) \<or> length (fs_data s) \<le> wal_file (db_wal db')) \<and>
     (sstReaders db' = sstReaders db \<or>
      (\<exists>r. sstReaders db' = sstReaders db @ [r] \<and> length (fs_data s) \<le> r_file r \<and> table_path (dataDir db) (r_path r) \<and>
         map_of (fs_dir s') (r_path r) = Some (r_file r)))"

lemma reader_files:
  assumes "db_inv murmur db s" "r \<in> set (sstReaders db)"
  shows "r_file r < length (fs_data s)" "r_file r \<noteq> wal_file (db_wal db)"
proof -
  obtain ts where ts: "db_tables murmur s db ts" using assms(1) by (auto simp: db_inv_def)
  show "r_file r < length (fs_data s)"
    using list_all2_conv_all_nth [THEN iffD1, OF ts] assms(2) by (auto simp: in_set_conv_nth reads_table_def)
  show "r_file r \<noteq> wal_file (db_wal db)" using assms unfolding db_inv_def by (metis imageI)
qed

lemma others_keep_inv:
  assumes inv: "worker_inv murmur (db, s, ph)" and inv': "db_inv murmur db' s'" and fr: "others_frame db s db' s'"
  shows "worker_inv murmur (db', s', ph)"
proof -
  from inv have db: "db_inv murmur db s" "tables_named db" and ph: "phase_ok murmur db s ph" by (auto simp: worker_inv_def)
  obtain N where k: "keeps {wal_file (db_wal db)} N s s'" using fr by (auto simp: others_frame_def)
  note rf = reader_files [OF db(1)]
  obtain new where new: "sstReaders db' = sstReaders db @ new" "length new \<le> 1"
    "\<forall>r \<in> set new. length (fs_data s) \<le> r_file r \<and> table_path (dataDir db) (r_path r) \<and>
       map_of (fs_dir s') (r_path r) = Some (r_file r)"
    using fr unfolding others_frame_def by (metis append_Nil2 empty_iff empty_set le_numeral_extra(4) length_Cons list.size(3) One_nat_def set_ConsD zero_le)
  have d: "dataDir db' = dataDir db" using fr by (simp add: others_frame_def)
  have "set new \<inter> set (sstReaders db) = {}" using new(3) rf(1) by fastforce
  moreover have "distinct new" using new(2) by (cases new) auto
  ultimately have named: "tables_named db'" using db(2) new d by (auto simp: tables_named_def)
  have live: "names_live db' s'" if "names_live db s"
  proof -
    have "map_of (fs_dir s') (r_path r) = Some (r_file r)" if "r \<in> set (sstReaders db)" for r
      using fr db(2) \<open>names_live db s\<close> that by (auto simp: others_frame_def tables_named_def names_live_def list_all_iff)
    with new show ?thesis by (auto simp: names_live_def list_all_iff)
  qed
  have sub: "sublist files (sstReaders db')" if "sublist files (sstReaders db)" for files
    using that new(1) by (auto simp: sublist_def) (metis append.assoc)
  have "phase_ok murmur db' s' ph"
  proof (cases ph)
    case (Merged files rd its)
    with ph obtain tf where p: "sublist files (sstReaders db)" "r_file rd \<notin> r_file ` set (sstReaders db)"
      "r_file rd \<noteq> wal_file (db_wal db)" "list_all2 (reads_table murmur s) files tf"
      "reads_table murmur s rd (merged (rev tf))" by (auto simp: phase_ok_def)
    have in_range: "r_file rd < length (fs_data s)" using p(5) by (simp add: reads_table_def)
    have "set files \<subseteq> set (sstReaders db)" using p(1) by (auto simp: sublist_def)
    then have "r_file ` set files \<inter> {wal_file (db_wal db)} = {}" using rf(2) by blast
    then have "list_all2 (reads_table murmur s') files tf" by (rule keeps_tables [OF p(4) k])
    moreover have "reads_table murmur s' rd (merged (rev tf))" using keeps_reads_table [OF p(5) k] p(3) by simp
    moreover have "r_file rd \<noteq> wal_file (db_wal db')" using fr p(3) in_range by (auto simp: others_frame_def)
    moreover have "r_file rd \<notin> r_file ` set (sstReaders db')" using p(2) new in_range by fastforce
    ultimately show ?thesis using ph sub Merged d by (auto simp: phase_ok_def)
  qed (use ph live sub in \<open>auto simp: phase_ok_def\<close>)
  with inv' named show ?thesis by (simp add: worker_inv_def)
qed

section \<open>The other goroutines\<close>

lemma Put_frame:
  assumes "StrataGo_Put k v db s = Some (r, db', s')" "wal_file (db_wal db) < length (fs_data s)"
  shows "others_frame db s db' s'"
proof (cases "closed db")
  case True
  with assms(1) show ?thesis by (auto simp: StrataGo_Put_def others_frame_def intro: exI [of _ "{}"])
next
  case False
  obtain q w s1 where w: "WriteEntry k v (db_wal db) s = (q, w, s1)" by (metis prod_cases3)
  note kw = keeps_WriteEntry [OF w assms(2)]
  have "dataDir db' = dataDir db" "sstReaders db' = sstReaders db" "db_wal db' = w" "s' = s1"
    using assms(1) w False by (auto simp: StrataGo_Put_def split: option.splits)
  with kw show ?thesis by (auto simp: others_frame_def keeps_def intro: exI [of _ "{}"])
qed

lemma table_path_names:
  assumes "table_path d p"
  shows "p \<noteq> wal_name d" "p \<noteq> flushing_name d"
  using assms by (auto simp: table_path_def)

lemma rotate_frame:
  assumes "Flush_rotate rnd db s = (x, db', s')"
  shows "others_frame db s db' s'"
proof -
  let ?N = "{wal_name (dataDir db), flushing_name (dataDir db)}"
  have "keeps {} ?N s s' \<and> dataDir db' = dataDir db \<and> sstReaders db' = sstReaders db \<and>
     (wal_file (db_wal db') = wal_file (db_wal db) \<or> length (fs_data s) \<le> wal_file (db_wal db'))"
    using Flush_rotate_any [OF assms] by (cases x) auto
  then have f: "keeps {} ?N s s'" "dataDir db' = dataDir db" "sstReaders db' = sstReaders db"
     "wal_file (db_wal db') = wal_file (db_wal db) \<or> length (fs_data s) \<le> wal_file (db_wal db')" by blast+
  have "map_of (fs_dir s') p = map_of (fs_dir s) p" if "table_path (dataDir db) p" for p
    using f(1) table_path_names [OF that] by (simp add: keeps_def)
  moreover have "keeps {wal_file (db_wal db)} ?N s s'" by (rule keeps_mono [OF f(1)]) simp_all
  ultimately show ?thesis using f(2-4) by (auto simp: others_frame_def)
qed

lemma write_frame_any:
  assumes m: "immutableMemtable db = Some m" "skip_ok m" and wf: "wal_file (db_wal db) < length (fs_data s)"
    and ok: "table_ok murmur (map plain (skip_content m))" and fresh: "fresh_tmp now1 now2 db s"
    and name: "map_of (fs_dir s) (sst_path (dataDir db) now1) = None" "- (2 ^ 63) \<le> now1" "now1 < 2 ^ 63"
    and w: "Flush_write murmur now1 now2 db s = Some (r, db', s')"
  shows "others_frame db s db' s'"
proof -
  let ?p = "sst_path (dataDir db) now1"
  let ?N = "{?p, tmp_name ?p now2, flushing_name (dataDir db)}"
  from Flush_write_any [OF m wf ok fresh] w
  have k: "keeps {wal_file (db_wal db)} ?N s s'"
    and c: "case r of None \<Rightarrow> flush_done murmur now1 m db s db' s' | Some e \<Rightarrow> flush_failed e db db'" by auto
  have same: "map_of (fs_dir s') p = map_of (fs_dir s) p"
    if "table_path (dataDir db) p" "map_of (fs_dir s) p \<noteq> None" for p
  proof -
    have "p \<notin> ?N" using that table_path_names(2) [OF that(1)] name(1) fresh by (auto simp: fresh_tmp_def)
    with k show ?thesis by (simp add: keeps_def)
  qed
  have tp: "table_path (dataDir db) ?p" using name(2,3) by (auto simp: table_path_def)
  have "dataDir db' = dataDir db \<and> wal_file (db_wal db') = wal_file (db_wal db) \<and>
    (sstReaders db' = sstReaders db \<or> (\<exists>rd. sstReaders db' = sstReaders db @ [rd] \<and> r_file rd = length (fs_data s) \<and>
       r_path rd = ?p \<and> map_of (fs_dir s') (r_path rd) = Some (r_file rd)))"
    using c by (cases r) (auto simp: flush_done_def flush_failed_def)
  with k same tp show ?thesis by (auto simp: others_frame_def)
qed

section \<open>The phases of the compaction\<close>

lemma merge_step:
  assumes inv: "worker_inv murmur (db, s, Selected files)"
    and tmp: "map_of (fs_dir s) (tmp_name (r_path (last files)) now) = None"
    and ok: "\<forall>tf. list_all2 (reads_table murmur s) files tf \<longrightarrow> table_ok murmur (merged (rev tf))"
    and mg: "compaction_merge murmur now (dataDir db) files s = Some (x, s')"
  shows "worker_inv murmur (db, s', case x of Inl e \<Rightarrow> Finished | Inr (rd, its) \<Rightarrow> Merged files rd its) \<and>
    StrataGo_Get murmur k db s' = StrataGo_Get murmur k db s"
proof -
  from inv have db: "db_inv murmur db s" "tables_named db" and ph: "names_live db s" "files \<noteq> []" "sublist files (sstReaders db)"
    by (auto simp: worker_inv_def phase_ok_def)
  obtain as bs where rs: "sstReaders db = as @ files @ bs" using ph(3) by (auto simp: sublist_def)
  obtain tf where tf: "list_all2 (reads_table murmur s) files tf"
    using db(1) unfolding db_inv_def rs by (auto simp: list_all2_append1)
  have ready: "merge_ready murmur now (dataDir db) files tf s"
    using ph tf tmp ok db(2) by (auto simp: merge_ready_def names_live_def tables_named_def rs)
  let ?N = "{r_path (last files), tmp_name (r_path (last files)) now}"
  have k: "keeps {} ?N s s'"
    and rd: "x = Inr (rd, its) \<Longrightarrow> reads_table murmur s' rd (merged (rev tf)) \<and>
       r_path rd = r_path (last files) \<and> length (fs_data s) \<le> r_file rd" for rd its
    using compaction_merge_any [OF ready] mg by auto
  note same = keeps_Get [OF db(1) k]
  have tf': "list_all2 (reads_table murmur s') files tf" using keeps_tables [OF tf k] by simp
  have "phase_ok murmur db s' (case x of Inl e \<Rightarrow> Finished | Inr (rd, its) \<Rightarrow> Merged files rd its)"
  proof (cases x)
    case (Inr y)
    then obtain rd' its where y: "x = Inr (rd', its)" by (cases y) auto
    have "r_file rd' \<notin> r_file ` set (sstReaders db)" using rd [OF y] reader_files(1) [OF db(1)] by fastforce
    moreover have "r_file rd' \<noteq> wal_file (db_wal db)" using rd [OF y] db(1) by (auto simp: db_inv_def)
    moreover have "table_path (dataDir db) (r_path rd')" using rd [OF y] ph(2) db(2) by (simp add: tables_named_def rs)
    ultimately show ?thesis using y rd [OF y] tf' ph(2,3) by (auto simp: phase_ok_def)
  qed (simp add: phase_ok_def)
  with same db(2) show ?thesis by (simp add: worker_inv_def)
qed

lemma install_step:
  assumes inv: "worker_inv murmur (db, s, Merged files rd its)"
    and g: "ghost_free murmur k db s" "ghost_free murmur k (compaction_install files rd db) s"
  shows "worker_inv murmur (compaction_install files rd db, s, Installed files its) \<and>
    StrataGo_Get murmur k (compaction_install files rd db) s = StrataGo_Get murmur k db s"
proof -
  let ?db' = "compaction_install files rd db"
  from inv obtain tf where db: "db_inv murmur db s" "tables_named db" and ph: "files \<noteq> []" "sublist files (sstReaders db)"
    "table_path (dataDir db) (r_path rd)" "r_file rd \<notin> r_file ` set (sstReaders db)" "r_file rd \<noteq> wal_file (db_wal db)"
    "list_all2 (reads_table murmur s) files tf" "reads_table murmur s rd (merged (rev tf))"
    by (auto simp: worker_inv_def phase_ok_def)
  obtain as bs where rs: "sstReaders db = as @ files @ bs" using ph(2) by (auto simp: sublist_def)
  obtain ts where ts: "db_tables murmur s db ts" and mem: "mem_ok db" using db(1) by (auto simp: db_inv_def)
  then obtain ta tg tb where t: "ts = ta @ tg @ tb" "list_all2 (reads_table murmur s) as ta"
    "list_all2 (reads_table murmur s) files tg" "list_all2 (reads_table murmur s) bs tb"
    unfolding rs by (auto simp: list_all2_append1)
  have tg: "tg = tf" by (rule tables_unique [OF t(3) ph(6)])
  have dist: "distinct (sstReaders db)" using db(2) by (simp add: tables_named_def)
  note i = install_neighbours [OF rs dist ph(1) mem t(2) ph(6) t(4) ph(7)]
  have "rd \<notin> set (sstReaders db)" using ph(4) by blast
  then have "tables_named ?db'"
    using db(2) ph(3) rs i(1) by (auto simp: tables_named_def compaction_install_def)
  moreover have "StrataGo_Get murmur k ?db' s = StrataGo_Get murmur k db s"
    by (rule i(3)) (use g ts t(1) tg i(2) in \<open>auto simp: ghost_free_def\<close>)
  ultimately show ?thesis using db_inv_install [OF db(1) ph(7,5)] by (simp add: worker_inv_def phase_ok_def)
qed

lemma worker_step_sim:
  assumes "worker_step murmur k l st st'" "worker_inv murmur st"
  shows "worker_inv murmur st' \<and>
    StrataGo_Get murmur k (fst st') (fst (snd st')) = acknowledge k l (StrataGo_Get murmur k (fst st) (fst (snd st)))"
  using assms
proof (induction rule: worker_step.induct)
  case (w_put k' v db s r db' s' ph)
  then have db: "db_inv murmur db s" by (simp add: worker_inv_def)
  then have fr: "others_frame db s db' s'" using Put_frame [OF w_put.hyps] by (simp add: db_inv_def)
  have "db_inv murmur db' s'"
    "StrataGo_Get murmur k db' s' = (if r = None \<and> k = k' then Some v else StrataGo_Get murmur k db s)"
    using StrataGo_Put_cases [OF db, of k' v] w_put.hyps by auto
  then show ?case using others_keep_inv [OF w_put.prems _ fr] by auto
next
  case (w_rotate rnd db s x db' s' ph)
  then have db: "db_inv murmur db s" by (simp add: worker_inv_def)
  have "db_inv murmur db' s' \<and> StrataGo_Get murmur k db' s' = StrataGo_Get murmur k db s"
    using Flush_rotate_same [OF db w_rotate.hyps] by blast
  then show ?case using others_keep_inv [OF w_rotate.prems _ rotate_frame [OF w_rotate.hyps]] by auto
next
  case (w_write db m now1 now2 s r db' s' ph)
  then have db: "db_inv murmur db s" by (simp add: worker_inv_def)
  then have m: "skip_ok m" "wal_file (db_wal db) < length (fs_data s)" using w_write.hyps(1) by (auto simp: db_inv_def mem_ok_def)
  note fr = write_frame_any [OF w_write.hyps(1) m w_write.hyps(2-7)]
  have "db_inv murmur db' s' \<and> StrataGo_Get murmur k db' s' = StrataGo_Get murmur k db s"
    using Flush_write_outcome [OF db w_write.hyps(1,2,3)] w_write.hyps(7,8) by auto
  then show ?case using others_keep_inv [OF w_write.prems _ fr] by auto
next
  case (w_select db s files tier s')
  then have db: "db_inv murmur db s" "names_live db s" "tables_named db" by (auto simp: worker_inv_def phase_ok_def)
  have k: "keeps {} {} s s'"
    using select_loop_any [OF w_select.hyps(1) [unfolded selectFilesForCompaction_def]] by simp
  then have "names_live db s'" using db(2) by (simp add: names_live_def keeps_def)
  with keeps_Get [OF db(1) k] db(3) w_select.hyps(2) show ?case by (auto simp: worker_inv_def phase_ok_def)
next
  case (w_merge s files now db x s')
  from merge_step [OF w_merge.prems w_merge.hyps] show ?case by auto
next
  case (w_install db s files rd its)
  from install_step [OF w_install.prems w_install.hyps] show ?case by auto
next
  case (w_delete db s files its)
  then have db: "db_inv murmur db s" "tables_named db" by (auto simp: worker_inv_def)
  from keeps_Get [OF db(1) compaction_delete_any] db(2) show ?case by (simp add: worker_inv_def phase_ok_def)
qed


end
