(* ===== verification/Ghosts.thy ===== *)
theory Ghosts
  imports Flushing
begin

text \<open>
  A key that was never written can be found. \<^verbatim>\<open>Reader.Get\<close> (\<^verbatim>\<open>src/engine/sstable/reader.go\<close>) does not stop
  its scan at the end of the data block: behind the last record it takes the length of the Bloom filter for a key size
  and the first four bytes of the filter for a value size. Here the filter of a table with one entry spells out a record.
\<close>

definition ghost_key :: bytes where
  "ghost_key = replicate 76 0 @ [1, 0, 0, 0]"

definition haunted :: "(bytes \<times> bytes) list" where
  "haunted = [([0], [7])]"

lemma set_probes_zero: "0 < bl \<Longrightarrow> bs \<noteq> [] \<Longrightarrow> set_probes (Suc n) 0 0 bl bs = bs[0 := bs ! 0 OR 1]"
proof (induction n arbitrary: bs)
  case 0
  then show ?case by (simp add: bit_mask_def)
next
  case (Suc n)
  have "set_probes (Suc (Suc n)) 0 0 bl bs = set_probes (Suc n) 0 0 bl (bs[0 := bs ! 0 OR 1])"
    by (simp add: bit_mask_def)
  also have "\<dots> = (bs[0 := bs ! 0 OR 1])[0 := (bs[0 := bs ! 0 OR 1]) ! 0 OR 1]"
    using Suc by (intro Suc.IH) simp_all
  finally show ?case using Suc.prems by (simp add: or.assoc)
qed

lemma test_probes_zero: "bs ! 0 AND 1 \<noteq> 0 \<Longrightarrow> test_probes n 0 0 bl bs"
  by (induction n) (simp_all add: bit_mask_def)

lemma haunted_filter:
  assumes "murmur [0] = 0"
  shows "sst_filter murmur haunted = [1, 0, 0, 0] @ replicate 76 0"
proof -
  have "NewBloomFilter 1 = \<lparr>bitset = replicate 80 0\<rparr>" by (simp add: NewBloomFilter_def bitsPerKey_def)
  moreover have "bit_length (replicate 80 0) = 640" by (simp add: bit_length_def)
  moreover have "set_probes kProbes 0 0 640 (replicate 80 0) = (replicate 80 0)[0 := 1]"
  proof -
    have k: "kProbes = Suc 6" by (simp add: kProbes_def)
    have "set_probes (Suc 6) 0 0 640 (replicate 80 0) = (replicate 80 0)[0 := replicate 80 0 ! 0 OR 1]"
      by (rule set_probes_zero) simp_all
    moreover have "replicate 80 (0 :: byte) ! 0 OR 1 = 1" by simp
    ultimately show ?thesis unfolding k by (simp only:)
  qed
  moreover have "(replicate 80 0)[0 := 1 :: byte] = [1, 0, 0, 0] @ replicate 76 0" by (simp add: numeral_eq_Suc)
  ultimately show ?thesis
    using assms by (simp add: sst_filter_def haunted_def HashKey_def AddHash_def probe_delta_def Bloom_Bytes_def)
qed

text \<open>Read as a record, the filter block, the index count and a byte of the index are a key and its value.\<close>

lemma haunted_tail:
  assumes "murmur [0] = 0"
  shows "\<exists>rest. sst_tail murmur haunted = sst_block [(ghost_key, [1])] @ rest"
proof -
  have "sst_index haunted = [\<lparr>IndexKey = [0], Offset = 0\<rparr>]" by (simp add: sst_index_def haunted_def)
  moreover have "PutUint32 (of_nat 1) = [1, 0, 0, 0]" by (simp add: PutUint32_def)
  ultimately have "\<exists>rest. sst_tail murmur haunted =
      PutUint32 (of_nat 80) @ ([1, 0, 0, 0] @ replicate 76 0) @ [1, 0, 0, 0] @ [1] @ rest"
    using haunted_filter [of murmur, OF assms]
    by (simp add: sst_tail_def sst_image_def Let_def index_writes_def)
  then show ?thesis
    by (simp add: sst_record_def ghost_key_def PutUint32_def)
qed

lemma haunted_ghost:
  assumes "murmur [0] = 0" "murmur ghost_key = 0"
  shows "ghost murmur haunted ghost_key = Some [1]"
proof -
  have "test_probes kProbes 0 0 640 ([1, 0, 0, 0] @ replicate 76 0)" by (rule test_probes_zero) simp
  then have "MayContain murmur ghost_key (LoadBloomFilter (sst_filter murmur haunted)) = Some True"
    using assms(2) unfolding haunted_filter [of murmur, OF assms(1)]
    by (simp add: MayContain_def LoadBloomFilter_def HashKey_def probe_delta_def bit_length_def)
  moreover obtain rest where "sst_tail murmur haunted = sst_block [(ghost_key, [1])] @ rest"
    using haunted_tail [of murmur, OF assms(1)] by blast
  moreover have "get_loop ghost_key (sst_block [(ghost_key, [1])] @ rest) = Some [1]"
    by (subst get_loop_block) (simp_all add: sst_fits_def ghost_key_def)
  moreover have "\<not> ghost_key < [0]" by (simp add: ghost_key_def numeral_eq_Suc)
  ultimately show ?thesis by (simp add: ghost_def) (simp add: haunted_def)
qed


text \<open>The same in the files of a database: one open table, an empty memtable.\<close>

definition haunted_fs :: fs where
  "haunted_fs = \<lparr>fs_dir = [(''d/wal.log'', 0), (''d/data_1.sst'', 1)],
     fs_data = [[], sst_image (\<lambda>_. 0) haunted], fs_faults = []\<rparr>"

definition haunted_db :: StrataGo where
  "haunted_db = \<lparr>activeMemtable = NewSkipList (\<lambda>_. 2 ^ 53), immutableMemtable = None,
     db_wal = \<lparr>wal_file = 0, wal_open = True, wal_path = ''d/wal.log'', sequenceNumber = 0\<rparr>,
     sstReaders = [\<lparr>r_path = ''d/data_1.sst'', r_file = 1, r_open = True, r_index = sst_index haunted,
       r_filter = Some (LoadBloomFilter (sst_filter (\<lambda>_. 0) haunted))\<rparr>],
     dataDir = ''d'', flushChan = False, closed = False\<rparr>"

lemma haunted_tables: "db_tables (\<lambda>_. 0) haunted_fs haunted_db [haunted]"
proof -
  have "table_ok (\<lambda>_. 0) haunted"
    by (rule table_ok_small) (simp_all add: haunted_def sst_fits_def max_bloom_keys_def)
  then show ?thesis by (simp add: haunted_db_def haunted_fs_def reads_table_def)
qed


end
