(* ===== verification/WalBuffers.thy ===== *)
theory WalBuffers
  imports Wal
begin

text \<open>
  The pool of buffers that \<^verbatim>\<open>WriteEntry\<close> (\<^verbatim>\<open>src/engine/wal/wal.go\<close>) assembles its records in. A buffer of
  the pool may hold anything from an earlier record; \<^verbatim>\<open>sync.Pool\<close> may hand out any of them or make a new one, so
  the choice is an argument. How far \<^verbatim>\<open>bytes.Buffer\<close> grows when it is full is decided by the runtime
  and an argument too.
\<close>

section \<open>Buffers\<close>

definition maxPoolBufferSize :: nat where
  "maxPoolBufferSize = 64 * 1024"

definition initialBufferSize :: nat where
  "initialBufferSize = 4096"

record Buffer =
  buf :: bytes
  Cap :: nat

text \<open>\<^verbatim>\<open>New\<close> of the pool\<close>

definition pool_New :: Buffer where
  "pool_New = \<lparr>buf = [], Cap = initialBufferSize\<rparr>"

text \<open>\<^verbatim>\<open>bufferPool.Get\<close>: the buffer at the chosen place, or a new one.\<close>

definition pool_Get :: "nat option \<Rightarrow> Buffer list \<Rightarrow> Buffer \<times> Buffer list" where
  "pool_Get choice pool =
     (case choice of
        None \<Rightarrow> (pool_New, pool)
      | Some i \<Rightarrow> if i < length pool then (pool ! i, take i pool @ drop (Suc i) pool) else (pool_New, pool))"

definition Buffer_Reset :: "Buffer \<Rightarrow> Buffer" where
  "Buffer_Reset b = b\<lparr>buf := []\<rparr>"

definition Buffer_Write :: "(nat \<Rightarrow> nat \<Rightarrow> nat) \<Rightarrow> bytes \<Rightarrow> Buffer \<Rightarrow> Buffer" where
  "Buffer_Write grow p b =
     (let n = length (buf b) + length p
      in \<lparr>buf = buf b @ p, Cap = (if n \<le> Cap b then Cap b else max n (grow (Cap b) n))\<rparr>)"

text \<open>A buffer that has grown too large is not given back.\<close>

definition pool_Put :: "Buffer \<Rightarrow> Buffer list \<Rightarrow> Buffer list" where
  "pool_Put b pool = (if Cap b \<le> maxPoolBufferSize then b # pool else pool)"

text \<open>The 20 bytes before the key.\<close>

definition entry_header :: "u64 \<Rightarrow> bytes \<Rightarrow> bytes \<Rightarrow> bytes" where
  "entry_header sn key val =
     PutUint64 sn @ PutUint32 (of_nat (length key)) @ PutUint32 (of_nat (length val)) @ PutUint32 (entry_checksum key val)"

definition WriteEntry_pooled ::
  "(nat \<Rightarrow> nat \<Rightarrow> nat) \<Rightarrow> nat option \<Rightarrow> bytes \<Rightarrow> slice \<Rightarrow> WAL \<Rightarrow> Buffer list \<Rightarrow> fs
    \<Rightarrow> error option \<times> WAL \<times> Buffer list \<times> fs" where
  "WriteEntry_pooled grow choice key val w pool s =
     (let w1 = w\<lparr>sequenceNumber := sequenceNumber w + 1\<rparr>;
          header = entry_header (sequenceNumber w1) key (bytes_of val);
          (b0, pool1) = pool_Get choice pool;
          b = Buffer_Write grow (bytes_of val) (Buffer_Write grow key (Buffer_Write grow header (Buffer_Reset b0)))
      in (case (if \<not> wal_open w1 then (Some ErrClosed, s) else file_Write (wal_file w1) (buf b) s) of
            (Some e, s1) \<Rightarrow> (Some e, w1, pool_Put b pool1, s1)
          | (None, s1) \<Rightarrow>
              (case file_Sync (wal_file w1) s1 of (r, s2) \<Rightarrow> (r, w1, pool_Put b pool1, s2))))"

section \<open>The pool makes no difference\<close>

definition pool_ok :: "Buffer list \<Rightarrow> bool" where
  "pool_ok pool \<longleftrightarrow> (\<forall>b \<in> set pool. length (buf b) \<le> Cap b \<and> Cap b \<le> maxPoolBufferSize)"

lemma pool_Get_ok:
  assumes "pool_ok pool" "pool_Get choice pool = (b, pool')"
  shows "pool_ok pool'"
proof -
  have "set pool' \<subseteq> set pool"
    using assms(2) set_take_subset [of _ pool] set_drop_subset [of _ pool]
    by (fastforce simp: pool_Get_def split: option.splits if_splits)
  then show ?thesis using assms(1) unfolding pool_ok_def by blast
qed

lemma Buffer_Write_cap: "length (buf (Buffer_Write grow p b)) \<le> Cap (Buffer_Write grow p b)"
  by (simp add: Buffer_Write_def Let_def)

lemma Buffer_Write_buf [simp]: "buf (Buffer_Write grow p b) = buf b @ p"
  by (simp add: Buffer_Write_def Let_def)

lemma pool_Put_ok: "pool_ok pool \<Longrightarrow> length (buf b) \<le> Cap b \<Longrightarrow> pool_ok (pool_Put b pool)"
  by (simp add: pool_ok_def pool_Put_def)

text \<open>
  C29: the buffers of the log. Whichever buffer the pool hands out, whatever it still holds and however
  buffers grow, \<^verbatim>\<open>WriteEntry\<close> writes the same record, returns the same result and leaves the same log and
  files; and no buffer above 64 KiB is ever kept in the pool.
\<close>

theorem wal_buffer_pool:
  assumes "pool_ok pool"
  shows "\<exists>pool'. WriteEntry_pooled grow choice key val w pool s =
      (case WriteEntry key val w s of (r, w', s') \<Rightarrow> (r, w', pool', s')) \<and> pool_ok pool'"
proof -
  obtain b0 pool1 where g: "pool_Get choice pool = (b0, pool1)" by force
  let ?h = "entry_header (sequenceNumber w + 1) key (bytes_of val)"
  let ?b = "Buffer_Write grow (bytes_of val) (Buffer_Write grow key (Buffer_Write grow ?h (Buffer_Reset b0)))"
  have "buf ?b = wal_record (sequenceNumber w + 1) key (bytes_of val)"
    by (simp add: Buffer_Reset_def entry_header_def wal_record_def)
  then have "WriteEntry_pooled grow choice key val w pool s =
      (case WriteEntry key val w s of (r, w', s') \<Rightarrow> (r, w', pool_Put ?b pool1, s'))"
    using g by (simp add: WriteEntry_pooled_def WriteEntry_def Let_def split: prod.splits option.splits)
  moreover have "pool_ok (pool_Put ?b pool1)"
    by (rule pool_Put_ok [OF pool_Get_ok [OF assms g] Buffer_Write_cap])
  ultimately show ?thesis by blast
qed

text \<open>A pool with a buffer that still holds an earlier record.\<close>

theorem wal_buffer_pool_witness:
  "\<exists>pool' r w' s'. WriteEntry_pooled (\<lambda>c n. 2 * c + n) (Some 0) [1] (Some [7])
      \<lparr>wal_file = 0, wal_open = True, wal_path = ''wal'', sequenceNumber = 0\<rparr>
      [\<lparr>buf = [9, 9, 9], Cap = 4096\<rparr>] \<lparr>fs_dir = [(''wal'', 0)], fs_data = [[]], fs_faults = []\<rparr> = (r, w', pool', s') \<and>
    fs_data s' = [wal_record 1 [1] [7]] \<and> pool_ok pool'"
proof -
  have "pool_ok [\<lparr>buf = [9, 9, 9], Cap = 4096\<rparr>]" by (simp add: pool_ok_def maxPoolBufferSize_def)
  from wal_buffer_pool [OF this, of "\<lambda>c n. 2 * c + n" "Some 0" "[1]" "Some [7]"
      "\<lparr>wal_file = 0, wal_open = True, wal_path = ''wal'', sequenceNumber = 0\<rparr>"
      "\<lparr>fs_dir = [(''wal'', 0)], fs_data = [[]], fs_faults = []\<rparr>"]
  show ?thesis by (auto simp: WriteEntry_def Let_def file_Write_quiet file_Sync_quiet)
qed

end
