(* ===== verification/Metrics.thy ===== *)
theory Metrics
  imports FsTypes KvServer
begin

text \<open>
  The Prometheus collectors of \<^verbatim>\<open>src/metrics/metrics.go\<close> that the engine and the server set: the two gauges of the engine,
  with every operation of the engine as it sets them, and the latencies of requests. The collectors of the Raft
  state are in \<^verbatim>\<open>Node\<close>, the request counter is in \<^verbatim>\<open>KvServer\<close>. All carry the label of one node, set before the engine is
  opened, and are modelled for that label; values are integers, which \<^verbatim>\<open>float64\<close> holds exactly below \<open>2 ^ 53\<close>.
\<close>

section \<open>The gauges of the engine\<close>

record gauges =
  MemtableSizeBytes :: int
  SSTableCount :: int

definition metered_Open ::
  "(nat \<Rightarrow> nat) \<Rightarrow> ((bytes \<times> slice) list \<Rightarrow> (bytes \<times> slice) list) \<Rightarrow> ((bytes \<times> slice) list \<Rightarrow> (bytes \<times> slice) list)
    \<Rightarrow> string \<Rightarrow> fs \<Rightarrow> gauges \<Rightarrow> ((error + StrataGo) \<times> fs \<times> gauges) option" where
  "metered_Open rnd ord1 ord2 d s g =
     (case Open rnd ord1 ord2 d s of
        None \<Rightarrow> None
      | Some (Inl e, s1) \<Rightarrow> Some (Inl e, s1, g)
      | Some (Inr db, s1) \<Rightarrow> Some (Inr db, s1, g\<lparr>SSTableCount := int (length (sstReaders db))\<rparr>))"

text \<open>\<^verbatim>\<open>Put\<close> sets the size of the memtable once it is written; \<^verbatim>\<open>Delete\<close> does not.\<close>

definition metered_Put ::
  "bytes \<Rightarrow> slice \<Rightarrow> StrataGo \<Rightarrow> fs \<Rightarrow> gauges \<Rightarrow> (error option \<times> StrataGo \<times> fs \<times> gauges) option" where
  "metered_Put key val db s g =
     (case StrataGo_Put key val db s of
        None \<Rightarrow> None
      | Some (Some e, db1, s1) \<Rightarrow> Some (Some e, db1, s1, g)
      | Some (None, db1, s1) \<Rightarrow> Some (None, db1, s1, g\<lparr>MemtableSizeBytes := SizeBytes (activeMemtable db1)\<rparr>))"

text \<open>The last part of a flush, which returns no error exactly when it has installed a table.\<close>

definition metered_Flush ::
  "(bytes \<Rightarrow> u32) \<Rightarrow> (nat \<Rightarrow> nat) \<Rightarrow> int \<Rightarrow> int \<Rightarrow> StrataGo \<Rightarrow> fs \<Rightarrow> gauges
    \<Rightarrow> (error option \<times> StrataGo \<times> fs \<times> gauges) option" where
  "metered_Flush murmur rnd now1 now2 db s g =
     (case Flush_rotate rnd db s of
        (Some r, db1, s1) \<Rightarrow> Some (r, db1, s1, g)
      | (None, db1, s1) \<Rightarrow>
          (case Flush_write murmur now1 now2 db1 s1 of
             None \<Rightarrow> None
           | Some (Some e, db2, s2) \<Rightarrow> Some (Some e, db2, s2, g)
           | Some (None, db2, s2) \<Rightarrow>
               Some (None, db2, s2, g\<lparr>SSTableCount := SSTableCount g + 1,
                                     MemtableSizeBytes := SizeBytes (activeMemtable db2)\<rparr>)))"

text \<open>\<^verbatim>\<open>Close\<close> and \<^verbatim>\<open>Purge\<close> set no gauge but through the final flush.\<close>

definition metered_Close ::
  "(bytes \<Rightarrow> u32) \<Rightarrow> (nat \<Rightarrow> nat) \<Rightarrow> int \<Rightarrow> int \<Rightarrow> StrataGo \<Rightarrow> fs \<Rightarrow> gauges
    \<Rightarrow> (error option \<times> StrataGo \<times> fs \<times> gauges) option" where
  "metered_Close murmur rnd now1 now2 db s g =
     (if closed db then Some (None, db, s, g)
      else (case metered_Flush murmur rnd now1 now2 (db\<lparr>closed := True\<rparr>) s g of
              None \<Rightarrow> None
            | Some (_, _, _, g1) \<Rightarrow>
                map_option (\<lambda>(r, db1, s1). (r, db1, s1, g1)) (StrataGo_Close murmur rnd now1 now2 db s)))"

definition metered_Purge ::
  "(bytes \<Rightarrow> u32) \<Rightarrow> (nat \<Rightarrow> nat) \<Rightarrow> (nat \<Rightarrow> nat) \<Rightarrow> int \<Rightarrow> int \<Rightarrow> StrataGo \<Rightarrow> fs \<Rightarrow> gauges
    \<Rightarrow> (error option \<times> StrataGo \<times> fs \<times> gauges) option" where
  "metered_Purge murmur rnd rnd' now1 now2 db s g =
     (case metered_Close murmur rnd now1 now2 db s g of
        None \<Rightarrow> None
      | Some (_, _, _, g1) \<Rightarrow>
          map_option (\<lambda>(r, db1, s1). (r, db1, s1, g1)) (Purge murmur rnd rnd' now1 now2 db s))"

text \<open>A compaction sets the count when it has replaced the readers.\<close>

definition metered_RunCompaction ::
  "(bytes \<Rightarrow> u32) \<Rightarrow> int \<Rightarrow> StrataGo \<Rightarrow> fs \<Rightarrow> gauges \<Rightarrow> (error option \<times> StrataGo \<times> fs \<times> gauges) option" where
  "metered_RunCompaction murmur now db s g =
     (case RunCompaction murmur now db s of
        None \<Rightarrow> None
      | Some (Some e, db1, s1) \<Rightarrow> Some (Some e, db1, s1, g)
      | Some (None, db1, s1) \<Rightarrow>
          Some (None, db1, s1,
            if fst (fst (selectFilesForCompaction db s)) = [] then g
            else g\<lparr>SSTableCount := int (length (sstReaders db1))\<rparr>))"

section \<open>What the gauges show\<close>

text \<open>The state a call leaves, without what it returns; a failed \<^verbatim>\<open>Open\<close> leaves the old database.\<close>

fun metered_call :: "(bytes \<Rightarrow> u32) \<Rightarrow> engine_call \<Rightarrow> StrataGo \<Rightarrow> fs \<Rightarrow> gauges \<Rightarrow> (StrataGo \<times> fs \<times> gauges) option" where
  "metered_call murmur (CallPut k v) db s g = map_option snd (metered_Put k v db s g)"
| "metered_call murmur (CallDelete k) db s g = map_option (\<lambda>(_, db1, s1). (db1, s1, g)) (StrataGo_Delete k db s)"
| "metered_call murmur (CallFlush rnd now1 now2) db s g = map_option snd (metered_Flush murmur rnd now1 now2 db s g)"
| "metered_call murmur (CallClose rnd now1 now2) db s g = map_option snd (metered_Close murmur rnd now1 now2 db s g)"
| "metered_call murmur (CallPurge rnd rnd' now1 now2) db s g =
     map_option snd (metered_Purge murmur rnd rnd' now1 now2 db s g)"
| "metered_call murmur CallScanAll db s g = map_option (\<lambda>(_, s1). (db, s1, g)) (ScanAll db s)"
| "metered_call murmur (CallCompact now) db s g = map_option snd (metered_RunCompaction murmur now db s g)"
| "metered_call murmur (CallOpen rnd ord1 ord2 d) db s g =
     map_option (\<lambda>(r, s1, g1). (case r of Inl _ \<Rightarrow> db | Inr db1 \<Rightarrow> db1, s1, g1)) (metered_Open rnd ord1 ord2 d s g)"

fun metered_calls ::
  "(bytes \<Rightarrow> u32) \<Rightarrow> engine_call list \<Rightarrow> StrataGo \<Rightarrow> fs \<Rightarrow> gauges \<Rightarrow> (StrataGo \<times> fs \<times> gauges) option" where
  "metered_calls murmur [] db s g = Some (db, s, g)"
| "metered_calls murmur (c # cs) db s g =
     (case metered_call murmur c db s g of None \<Rightarrow> None | Some (db1, s1, g1) \<Rightarrow> metered_calls murmur cs db1 s1 g1)"

text \<open>Setting gauges changes nothing else.\<close>

lemma metered_Flush_same:
  "map_option (\<lambda>(r, db1, s1, g1). (r, db1, s1)) (metered_Flush murmur rnd now1 now2 db s g) = Flush murmur rnd now1 now2 db s"
  by (auto simp: metered_Flush_def Flush_def split: prod.splits option.splits)

lemma metered_Close_same:
  "map_option (\<lambda>(r, db1, s1, g1). (r, db1, s1)) (metered_Close murmur rnd now1 now2 db s g) = StrataGo_Close murmur rnd now1 now2 db s"
  using metered_Flush_same [of murmur rnd now1 now2 "db\<lparr>closed := True\<rparr>" s g]
  by (auto simp: metered_Close_def StrataGo_Close_def option.map_comp o_def split: option.splits prod.splits)

lemma metered_call_same:
  "map_option (\<lambda>(db1, s1, g1). (db1, s1)) (metered_call murmur c db s g) = run_call murmur c db s"
proof (cases c)
  case (CallFlush rnd now1 now2)
  then show ?thesis
    using metered_Flush_same [of murmur rnd now1 now2 db s g, symmetric]
    by (auto simp: option.map_comp o_def split: prod.splits intro!: option.map_cong)
next
  case (CallClose rnd now1 now2)
  then show ?thesis
    using metered_Close_same [of murmur rnd now1 now2 db s g, symmetric]
    by (auto simp: option.map_comp o_def split: prod.splits intro!: option.map_cong)
next
  case (CallPurge rnd rnd' now1 now2)
  then show ?thesis
    using metered_Close_same [of murmur rnd now1 now2 db s g, symmetric]
    by (cases "metered_Close murmur rnd now1 now2 db s g")
      (auto simp: metered_Purge_def option.map_comp o_def case_prod_unfold, simp add: Purge_def)
qed (auto simp: metered_Put_def metered_Open_def metered_RunCompaction_def option.map_comp o_def case_prod_unfold
    split: option.splits sum.splits)

text \<open>What the operations do to the number of tables, whatever fails.\<close>

lemma Put_readers: "StrataGo_Put k v db s = Some (r, db', s') \<Longrightarrow> sstReaders db' = sstReaders db"
  by (auto simp: StrataGo_Put_def signal_flush_def split: if_splits prod.splits option.splits)

lemma Flush_rotate_readers: "Flush_rotate rnd db s = (r, db', s') \<Longrightarrow> sstReaders db' = sstReaders db"
  by (auto simp: Flush_rotate_def Let_def split: if_splits prod.splits option.splits sum.splits)

lemma recover_readers: "recoverFromFlushFailure e db s = Some (r, db', s') \<Longrightarrow> r \<noteq> None \<and> sstReaders db' = sstReaders db"
  by (auto simp: recoverFromFlushFailure_def split: prod.splits option.splits)

lemma Flush_write_readers:
  "Flush_write murmur now1 now2 db s = Some (r, db', s') \<Longrightarrow>
    length (sstReaders db') = length (sstReaders db) + (if r = None then 1 else 0)"
  by (auto simp: Flush_write_def Let_def Flush_install_def split: if_splits prod.splits option.splits sum.splits
      dest!: recover_readers)

lemma close_readers_length: "close_readers rs s = (rs', s') \<Longrightarrow> length rs' = length rs"
  by (induction rs arbitrary: s rs') (auto split: prod.splits)

lemma RunCompaction_readers:
  assumes "RunCompaction murmur now db s = Some (r, db', s')" "r \<noteq> None \<or> fst (fst (selectFilesForCompaction db s)) = []"
  shows "db' = db"
  using assms by (auto simp: RunCompaction_def split: if_splits prod.splits option.splits sum.splits)

definition tables_shown :: "StrataGo \<Rightarrow> gauges \<Rightarrow> bool" where
  "tables_shown db g \<longleftrightarrow> SSTableCount g = int (length (sstReaders db))"

lemma metered_Flush_tables:
  assumes "metered_Flush murmur rnd now1 now2 db s g = Some (r, db', s', g')" "tables_shown db g"
  shows "tables_shown db' g' \<and> SSTableCount g \<le> SSTableCount g'"
proof -
  obtain x db1 s1 where rot: "Flush_rotate rnd db s = (x, db1, s1)" by (metis prod_cases3)
  note Flush_rotate_readers [OF rot]
  with assms rot show ?thesis
    by (cases x) (auto simp: metered_Flush_def tables_shown_def split: option.splits dest!: Flush_write_readers)
qed

lemma metered_Close_tables:
  assumes "metered_Close murmur rnd now1 now2 db s g = Some (r, db', s', g')" "tables_shown db g"
  shows "tables_shown db' g' \<and> SSTableCount g \<le> SSTableCount g'"
proof (cases "closed db")
  case True
  with assms show ?thesis by (simp add: metered_Close_def)
next
  case False
  let ?db = "db\<lparr>closed := True\<rparr>"
  obtain r1 db1 s1 where f: "metered_Flush murmur rnd now1 now2 ?db s g = Some (r1, db1, s1, g')"
    using assms(1) False by (auto simp: metered_Close_def split: option.splits)
  have fl: "Flush murmur rnd now1 now2 ?db s = Some (r1, db1, s1)"
    using metered_Flush_same [of murmur rnd now1 now2 ?db s g] f by simp
  have "tables_shown ?db g" using assms(2) by (simp add: tables_shown_def)
  note t = metered_Flush_tables [OF f this]
  have "StrataGo_Close murmur rnd now1 now2 db s = Some (r, db', s')"
    using assms(1) False f by (auto simp: metered_Close_def)
  then have "length (sstReaders db') = length (sstReaders db1)"
    using False fl by (cases r1) (auto simp: StrataGo_Close_def split: prod.splits dest: close_readers_length)
  with t show ?thesis by (simp add: tables_shown_def)
qed

definition is_purge :: "engine_call \<Rightarrow> bool" where
  "is_purge c \<longleftrightarrow> (case c of CallPurge _ _ _ _ \<Rightarrow> True | _ \<Rightarrow> False)"

lemma metered_call_tables:
  assumes "metered_call murmur c db s g = Some (db', s', g')" "tables_shown db g" "\<not> is_purge c"
  shows "tables_shown db' g'"
proof (cases c)
  case (CallPut k v)
  with assms show ?thesis
    by (auto simp: metered_Put_def tables_shown_def split: option.splits dest!: Put_readers)
next
  case (CallDelete k)
  with assms show ?thesis by (auto simp: StrataGo_Delete_Put tables_shown_def dest!: Put_readers)
next
  case (CallFlush rnd now1 now2)
  with assms show ?thesis by (auto dest: metered_Flush_tables)
next
  case (CallClose rnd now1 now2)
  with assms show ?thesis by (auto dest: metered_Close_tables)
next
  case (CallCompact now)
  with assms show ?thesis
    using RunCompaction_readers [of murmur now db s _ db' s']
    by (auto simp: metered_RunCompaction_def tables_shown_def split: option.splits if_splits)
next
  case (CallOpen rnd ord1 ord2 d)
  with assms(1) obtain r s1 where "Open rnd ord1 ord2 d s = Some (r, s1)"
    by (auto simp: metered_Open_def split: option.splits)
  with assms CallOpen show ?thesis by (cases r) (auto simp: metered_Open_def tables_shown_def)
qed (use assms in \<open>auto simp: is_purge_def\<close>)

lemma metered_calls_tables:
  "metered_calls murmur cs db s g = Some (db', s', g') \<Longrightarrow> tables_shown db g \<Longrightarrow> \<forall>c \<in> set cs. \<not> is_purge c \<Longrightarrow>
    tables_shown db' g'"
  by (induction cs arbitrary: db s g) (auto split: option.splits dest: metered_call_tables)

text \<open>
  C18: the gauge of the tables. Along any sequence of calls other than \<^verbatim>\<open>Purge\<close>, whichever system calls fail, the calls
  do to the engine what they do without gauges, and the gauge is the number of tables the engine reads. A \<^verbatim>\<open>Purge\<close>, as at the
  start of every restore of a snapshot, leaves no table and the gauge where it was, or above.
\<close>

theorem table_gauge:
  assumes "metered_calls murmur cs db s g = Some (db', s', g')" "SSTableCount g = int (length (sstReaders db))"
    and "\<forall>c \<in> set cs. \<not> is_purge c"
  shows "SSTableCount g' = int (length (sstReaders db')) \<and> run_calls murmur cs db s = Some (db', s') \<and>
    (\<forall>rnd rnd' now1 now2 db'' s'' g''. metered_Purge murmur rnd rnd' now1 now2 db' s' g' = Some (None, db'', s'', g'') \<longrightarrow>
       sstReaders db'' = [] \<and> int (length (sstReaders db')) \<le> SSTableCount g'')"
proof -
  have t: "tables_shown db' g'" by (rule metered_calls_tables [OF assms(1) _ assms(3)]) (simp add: assms(2) tables_shown_def)
  have "sstReaders db'' = [] \<and> int (length (sstReaders db')) \<le> SSTableCount g''"
    if p: "metered_Purge murmur rnd rnd' now1 now2 db' s' g' = Some (None, db'', s'', g'')" for rnd rnd' now1 now2 db'' s'' g''
  proof -
    obtain r1 db1 s1 where c: "metered_Close murmur rnd now1 now2 db' s' g' = Some (r1, db1, s1, g'')"
      and q: "Purge murmur rnd rnd' now1 now2 db' s' = Some (None, db'', s'')"
      using p by (auto simp: metered_Purge_def split: option.splits)
    from q have "sstReaders db'' = []"
      by (auto simp: Purge_def Let_def split: prod.splits option.splits sum.splits)
    moreover have "SSTableCount g' \<le> SSTableCount g''" using metered_Close_tables [OF c t] by simp
    ultimately show ?thesis using t by (simp add: tables_shown_def)
  qed
  moreover have "run_calls murmur cs db s = Some (db', s')"
    using assms(1)
  proof (induction cs arbitrary: db s g)
    case (Cons c cs)
    then show ?case using metered_call_same [of murmur c db s g, symmetric] by (auto split: option.splits)
  qed simp
  ultimately show ?thesis using t by (simp add: tables_shown_def)
qed

section \<open>The latencies of requests\<close>

text \<open>The upper bounds of the buckets, in milliseconds, and an observation with its labels.\<close>

definition Buckets :: "int list" where
  "Buckets = [5, 10, 25, 50, 100, 250, 500, 1000]"

record observation =
  obs_method :: string
  obs_consistency :: string
  obs_duration :: int

text \<open>The deferred function of a handler, with the times at which the handler began and ended.\<close>

definition Observe :: "bool \<Rightarrow> string \<Rightarrow> string \<Rightarrow> int \<Rightarrow> int \<Rightarrow> observation list \<Rightarrow> observation list" where
  "Observe isInternalProxy op level start stop os =
     (if isInternalProxy then os
      else os @ [\<lparr>obs_method = op, obs_consistency = level, obs_duration = stop - start\<rparr>])"

definition ConsistencyLevel_String :: "ConsistencyLevel \<Rightarrow> string" where
  "ConsistencyLevel_String l =
     (case l of STRONG \<Rightarrow> ''STRONG'' | FAST \<Rightarrow> ''FAST'' | EVENTUAL \<Rightarrow> ''EVENTUAL'' | ConsistencyLevel_other n \<Rightarrow> Sprintf_d n)"

definition timed_Put where
  "timed_Put env ctx req start stop srv c os =
     (KVServer_Put env ctx req srv c, Observe (isProxyRequest ctx) ''Put'' ''N/A'' start stop os)"

definition timed_Get where
  "timed_Get murmur env req start stop srv db s os =
     (KVServer_Get murmur env req srv db s,
      Observe False ''Get'' (ConsistencyLevel_String (GConsistency req)) start stop os)"

definition timed_Delete where
  "timed_Delete env ctx req start stop srv c os =
     (KVServer_Delete env ctx req srv c, Observe (isProxyRequest ctx) ''Delete'' ''N/A'' start stop os)"

text \<open>The count of a bucket: the observations with these labels up to its bound.\<close>

definition bucket_counts :: "string \<Rightarrow> string \<Rightarrow> observation list \<Rightarrow> nat list" where
  "bucket_counts op level os =
     map (\<lambda>b. length (filter (\<lambda>ob. obs_method ob = op \<and> obs_consistency ob = level \<and> obs_duration ob \<le> b) os)) Buckets"

lemma bucket_counts_sorted: "sorted (bucket_counts op level os)"
proof -
  have "length (filter (\<lambda>ob. obs_method ob = op \<and> obs_consistency ob = level \<and> obs_duration ob \<le> a) os)
      \<le> length (filter (\<lambda>ob. obs_method ob = op \<and> obs_consistency ob = level \<and> obs_duration ob \<le> b) os)"
    if "a \<le> b" for a b
    by (induction os) (use that in auto)
  then show ?thesis by (simp add: bucket_counts_def Buckets_def)
qed

text \<open>Every counted request is observed once, and every observed one counted.\<close>

definition counted :: "KVServer \<Rightarrow> observation list \<Rightarrow> bool" where
  "counted srv os \<longleftrightarrow> (\<forall>op. RequestsTotal srv op = length (filter (\<lambda>ob. obs_method ob = op) os))"

lemma counted_Observe:
  "counted srv os \<Longrightarrow> counted (count_request proxied op srv) (Observe proxied op level start stop os)"
  by (simp add: counted_def count_request_def Observe_def)

lemma total_forward:
  "RequestsTotal (invalidateLeader srv) = RequestsTotal srv"
  "put_forward env req srv c = (res, srv1, c1) \<Longrightarrow> RequestsTotal srv1 = RequestsTotal srv"
  "delete_forward env dreq srv c = (dres, srv1, c1) \<Longrightarrow> RequestsTotal srv1 = RequestsTotal srv"
proof -
  show inv: "RequestsTotal (invalidateLeader srv) = RequestsTotal srv" for srv
    by (simp add: invalidateLeader_def conn_Close_def split: option.splits)
  show "put_forward env req srv c = (res, srv1, c1) \<Longrightarrow> RequestsTotal srv1 = RequestsTotal srv"
    by (auto simp: put_forward_def inv split: sum.splits prod.splits dest: getLeaderClient_counts)
  show "delete_forward env dreq srv c = (dres, srv1, c1) \<Longrightarrow> RequestsTotal srv1 = RequestsTotal srv"
    by (auto simp: delete_forward_def inv split: sum.splits prod.splits dest: getLeaderClient_counts)
qed

lemma timed_counted:
  assumes "counted srv os"
  shows "timed_Put env ctx req start stop srv c os = ((res, srv1, c1), os1) \<Longrightarrow> counted srv1 os1"
    "timed_Delete env ctx dreq start stop srv c os = ((dres, srv1, c1), os1) \<Longrightarrow> counted srv1 os1"
    "timed_Get murmur env greq start stop srv db s os = (Some (gres, srv1), os1) \<Longrightarrow> counted srv1 os1"
proof -
  have same: "counted srv' os" if "RequestsTotal srv' = RequestsTotal srv" for srv'
    using assms that by (simp add: counted_def)
  show "timed_Put env ctx req start stop srv c os = ((res, srv1, c1), os1) \<Longrightarrow> counted srv1 os1"
    by (auto simp: timed_Put_def KVServer_Put_def Let_def split: prod.splits if_splits
        intro!: counted_Observe same dest: total_forward(2,3))
  show "timed_Delete env ctx dreq start stop srv c os = ((dres, srv1, c1), os1) \<Longrightarrow> counted srv1 os1"
    by (auto simp: timed_Delete_def KVServer_Delete_def Let_def split: prod.splits if_splits
        intro!: counted_Observe same dest: total_forward(2,3))
  show "timed_Get murmur env greq start stop srv db s os = (Some (gres, srv1), os1) \<Longrightarrow> counted srv1 os1"
    by (auto simp: timed_Get_def KVServer_Get_def split: option.splits intro!: counted_Observe same)
qed

end
