(* ===== verification/CompactionSamples.thy ===== *)
theory CompactionSamples
  imports Samples CompactionLoss CompactionWorker Ghosts FsTypes WalBuffers Metrics
begin

text \<open>
  The theorems about flushes and compactions whose system calls fail, and about what compactions lose,
  on the sample databases.
\<close>

section \<open>Calls that fail\<close>

definition faulty1 :: fs where
  "faulty1 = fs1\<lparr>fs_faults := [NoFault, NoFault, NoFault, NoFault, Fault 3]\<rparr>"

theorem flush_any_schedule_witness:
  "\<exists>r db' s'. Flush sample_hash sample_rnd 5 6 db1 faulty1 = Some (r, db', s') \<and> db_inv sample_hash db' s' \<and>
    StrataGo_Get sample_hash [0] db' s' = StrataGo_Get sample_hash [0] db1 faulty1"
proof -
  have inv: "db_inv sample_hash db1 faulty1" using inv1 by (simp add: db_inv_def faulty1_def)
  have fresh: "fresh_tmp 5 6 db1 faulty1" using fresh1 by (simp add: fresh_tmp_def faulty1_def)
  have ok: "table_ok sample_hash (map plain (skip_content (to_flush db1)))" by (simp add: to_flush1 table1)
  have "flush_leaves sample_hash (skip_content (to_flush db1)) r [0]" for r
    by (simp add: flush_leaves_def settled_def to_flush1 ghost_def split: option.splits error.splits)
  with flush_any_schedule [OF inv fresh ok, of sample_rnd] show ?thesis by blast
qed

definition faulty4 :: fs where
  "faulty4 = fs4\<lparr>fs_faults := [Fault 0]\<rparr>"

lemma compactable4: "compactable sample_hash 6 db4 s ts4" if "fs_dir s = fs_dir fs4" for s
proof -
  have "tf = ts4" if "subseq tf ts4" "length tf = CompactionThreshold" for tf
    using that subseq_same_length [of tf ts4] by (simp add: ts4_def CompactionThreshold_def)
  moreover have "table_ok sample_hash (merged (rev ts4))" by (simp add: merged4 tab_ok)
  ultimately show ?thesis
    using can_compact4 that by (auto simp: can_compact_def compactable_def names_live_def)
qed

theorem compaction_any_schedule_witness:
  "\<exists>r s'. RunCompaction sample_hash 6 db4 faulty4 = Some (r, db4, s') \<and>
    StrataGo_Get sample_hash [1] db4 s' = StrataGo_Get sample_hash [1] db4 faulty4"
proof -
  have fs: "fs_dir faulty4 = fs_dir fs4" and k: "keeps {} {} fs4 faulty4" by (simp_all add: faulty4_def keeps_def)
  have inv: "db_inv sample_hash db4 faulty4" by (rule keeps_Get(1) [OF inv4 k])
  have t: "db_tables sample_hash faulty4 db4 ts4" using keeps_tables [OF tables4 k] by simp
  have "getTier (int (length (sst_image sample_hash (tab v)))) = 0" for v
    using tab_image_small [of v] by (simp add: getTier_def)
  then have sel: "selectFilesForCompaction db4 faulty4 = (([], - 1), fs4)"
    by (simp add: selectFilesForCompaction_def db4_def os_Stat_def faulty4_def fs4_def tab_reader_def Reader_Path_def
        sample_paths fs_file_def CompactionThreshold_def Let_def pop_fault_def)
  from compaction_any_schedule [OF inv t compactable4 [OF fs] sel] show ?thesis by auto
qed

section \<open>A restart after a compaction\<close>

lemma names_of4: "dir_names sample_dir fs4 = map sst_name [1, 2, 3, 4] @ [''wal.log'']"
proof -
  have n: "sst_name 1 = ''data_1.sst''" "sst_name 2 = ''data_2.sst''" "sst_name 3 = ''data_3.sst''" "sst_name 4 = ''data_4.sst''"
    by (simp_all add: sst_name_def Sprintf_d_def dec_small [unfolded One_nat_def])
  have f: "map fst (fs_dir fs4) =
      [''data/n1/engine/wal.log'', ''data/n1/engine/data_1.sst'', ''data/n1/engine/data_2.sst'', ''data/n1/engine/data_3.sst'', ''data/n1/engine/data_4.sst'']"
    by (simp add: fs4_def sample_paths)
  have "dir_names sample_dir fs4 = sort (''wal.log'' # map sst_name [1, 2, 3, 4])"
    unfolding dir_names_def f sample_dir_def by (simp add: n)
  also have "\<dots> = map sst_name [1, 2, 3, 4] @ [''wal.log'']"
  proof (rule properties_for_sort)
    show "sorted (map sst_name [1, 2, 3, 4] @ [''wal.log''])" unfolding list.map n by code_simp
  qed simp
  finally show ?thesis .
qed

lemma infos4: "map info_path (disk_infos sample_dir fs4) = map (sst_path sample_dir) [1, 2, 3, 4]"
proof -
  have ts: "Sscanf_ts (sst_name t) = t" if "0 < t" "t < 5" for t by (rule Sscanf_ts_sst_name) (use that in simp_all)
  have "filter (suffix ''.sst'') (dir_names sample_dir fs4) = map sst_name [1, 2, 3, 4]"
    using sst_name_plain(2) by (simp add: names_of4) (simp add: suffix_to_prefix)
  then show ?thesis
    by (simp add: disk_infos_def sstable_infos_def ts sst_path_def)
qed

lemma durable4: "durable sample_hash db4 fs4"
proof -
  have "fs_wf fs4" by (simp add: fs_wf_def fs4_def sample_paths)
  moreover have "wal_covers [] db4 fs4" by (simp add: wal_covers_def db4_def fs4_def active_content_def logged_def)
  moreover have "wal_live db4 fs4" by (simp add: wal_live_def db4_def fs4_def)
  moreover have "map_of (fs_dir fs4) (flushing_name sample_dir) = None"
    by (simp add: fs4_def sample_paths) (simp add: filepath_Join_def sample_dir_def)
  moreover have "map r_path (sstReaders db4) = map info_path (disk_infos sample_dir fs4)"
    by (simp add: infos4) (simp add: db4_def tab_reader_def)
  ultimately show ?thesis using inv4 names4 by (auto simp: durable_def db4_def)
qed

theorem compaction_lost_on_restart_witness:
  "\<exists>db' s' db''. RunCompaction sample_hash 6 db4 fs4 = Some (None, db', s') \<and>
    Open sample_rnd id id sample_dir s' = Some (Inr db'', s') \<and>
    StrataGo_Get sample_hash [1] db' s' = Some (Some [14]) \<and> StrataGo_Get sample_hash [1] db'' s' = Some None"
proof -
  have perm: "\<forall>xs. mset (id xs) = mset xs" by simp
  have ne: "sstReaders db4 \<noteq> []" and wal: "length (fs_data fs4 ! wal_file (db_wal db4)) < 2 ^ 32"
    by (simp_all add: db4_def fs4_def)
  obtain db' s' as bs ta tf tb db'' where r: "RunCompaction sample_hash 6 db4 fs4 = Some (None, db', s')"
    "Open sample_rnd id id (dataDir db4) s' = Some (Inr db'', s')" "sstReaders db4 = as @ sstReaders db4 @ bs"
    "ts4 = ta @ tf @ tb" "length tf = 4"
    "\<forall>k v. map_of (active_content db4) k = None \<and> first_of (rev tf) k = Some v \<and> v \<noteq> [] \<and>
       first_of (ta @ tb) k = None \<and> no_ghosts sample_hash (ta @ tb) k \<longrightarrow>
       StrataGo_Get sample_hash k db' s' = Some (Some v) \<and> StrataGo_Get sample_hash k db'' s' = Some None"
    using compaction_lost_on_restart [OF durable4 tables4 can_compact4 select4 ne perm wal, of sample_rnd id] by blast
  have "ta = [] \<and> tf = ts4 \<and> tb = []" using four_of4 [OF r(4)] r(5) by (simp add: CompactionThreshold_def)
  with spec [OF spec [OF r(6)], of "[1]" "[14]"] r(1,2) show ?thesis
    by (simp add: ts4_def tab_def no_ghosts_def active_content_def db4_def)
qed

section \<open>A table that is passed over\<close>

text \<open>Five tables; the name of the second is gone.\<close>

definition db5 :: StrataGo where
  "db5 = db0\<lparr>sstReaders := [tab_reader 1 1 11, tab_reader 2 2 12, tab_reader 3 3 13, tab_reader 4 4 14, tab_reader 6 5 15]\<rparr>"

definition fs5 :: fs where
  "fs5 = \<lparr>fs_dir = [(wal_name sample_dir, 0), (sst_path sample_dir 1, 1), (sst_path sample_dir 3, 3),
       (sst_path sample_dir 4, 4), (sst_path sample_dir 6, 5)],
     fs_data = [[], sst_image sample_hash (tab 11), sst_image sample_hash (tab 12), sst_image sample_hash (tab 13),
       sst_image sample_hash (tab 14), sst_image sample_hash (tab 15)], fs_faults = []\<rparr>"

lemma path6: "sst_path sample_dir 6 = ''data/n1/engine/data_6.sst''"
  by (simp add: sst_path_sample Sprintf_d_def dec_small)

lemma tables5: "db_tables sample_hash fs5 db5 [tab 11, tab 12, tab 13, tab 14, tab 15]"
  by (simp add: db5_def reads_table_def tab_reader_def tab_ok fs5_def)

lemma inv5: "db_inv sample_hash db5 fs5"
proof -
  have "mem_ok db5" "wal_file (db_wal db5) < length (fs_data fs5)" "wal_file (db_wal db5) \<notin> r_file ` set (sstReaders db5)"
    by (simp_all add: mem_ok_def db5_def tab_reader_def fs5_def)
  with tables5 show ?thesis unfolding db_inv_def by blast
qed

lemma tier5: "r \<in> set [tab_reader 1 1 11, tab_reader 3 3 13, tab_reader 4 4 14, tab_reader 6 5 15] \<Longrightarrow> tier_of fs5 r = 0"
proof -
  have "getTier (int (length (sst_image sample_hash (tab v)))) = 0" for v
    using tab_image_small [of v] by (simp add: getTier_def)
  then show "r \<in> set [tab_reader 1 1 11, tab_reader 3 3 13, tab_reader 4 4 14, tab_reader 6 5 15] \<Longrightarrow> tier_of fs5 r = 0"
    by (auto simp: tier_of_def fs_file_def fs5_def tab_reader_def sample_paths path6)
qed

theorem compaction_reorders_tables_witness:
  "StrataGo_Get sample_hash [1] db5 fs5 = Some (Some [15]) \<and>
    (\<exists>db' s'. RunCompaction sample_hash 9 db5 fs5 = Some (None, db', s') \<and>
       StrataGo_Get sample_hash [1] db' s' = Some (Some [12]))"
proof -
  let ?a = "tab_reader 1 1 11" and ?m = "tab_reader 2 2 12" and ?b = "tab_reader 3 3 13" and ?c = "tab_reader 4 4 14"
    and ?d = "tab_reader 6 5 15"
  have rs: "sstReaders db5 = [?a, ?m, ?b, ?c, ?d]" "distinct (sstReaders db5)" "quiet fs5"
    by (simp_all add: db5_def fs5_def tab_reader_def)
  have lead: "names_lead fs5 [?a, ?b, ?c, ?d]" and gone: "fs_file fs5 (r_path ?m) = None"
    by (simp_all add: fs5_def tab_reader_def sample_paths path6 fs_file_def)
  have tiers: "tier_of fs5 ?b = tier_of fs5 ?a" "tier_of fs5 ?c = tier_of fs5 ?a" "tier_of fs5 ?d = tier_of fs5 ?a"
    by (simp_all add: tier5)
  have path: "table_path (dataDir db5) (r_path ?d)"
    unfolding table_path_def by (intro exI [of _ 6]) (simp add: db5_def tab_reader_def)
  have fresh: "map_of (fs_dir fs5) (tmp_name (r_path ?d) 9) = None"
    by (simp add: fs5_def tab_reader_def sample_paths path6 tmp_name_def)
  have m: "merged [tab 15, tab 14, tab 13, tab 11] = tab 15" by (simp add: merged_def tab_def)
  have none: "first_of [active_content db5, imm_content db5] [1] = None"
    by (simp add: active_content_def imm_content_def db5_def)
  have ok: "table_ok sample_hash (merged [tab 15, tab 14, tab 13, tab 11])" by (simp add: m tab_ok)
  have k: "map_of (tab 15) [1] = Some [15]" "map_of (tab 12) [1] = Some [12]" by (simp_all add: tab_def)
  from compaction_reorders_tables [OF inv5 rs(3,1,2) tables5 lead gone tiers path fresh ok none k]
  show ?thesis by (simp add: value_of_def)
qed

section \<open>A compaction with a write in between\<close>

lemma put_keeps_tables:
  assumes "db_inv sample_hash db s" "StrataGo_Put k v db s = Some (r, db', s')" "db_tables sample_hash s db ts"
  shows "db_tables sample_hash s' db' ts"
proof (cases "closed db")
  case True
  with assms(2,3) show ?thesis by (simp add: StrataGo_Put_def)
next
  case False
  obtain q w s1 where w: "WriteEntry k v (db_wal db) s = (q, w, s1)" by (metis prod_cases3)
  from write_keeps_tables [OF assms(1) w assms(3)] assms(2) w False show ?thesis
    by (auto simp: StrataGo_Put_def split: option.splits)
qed

text \<open>The first two steps of the worker: it chooses the four tables and merges them.\<close>

definition merged_fs4 :: fs where
  "merged_fs4 = new_table (r_path (last (sstReaders db4))) 6 (sst_image sample_hash (merged (rev ts4))) fs4"

lemma merge4:
  "\<exists>rd its. worker_step sample_hash [1] None (db4, fs4, Idle) (db4, fs4, Selected (sstReaders db4)) \<and>
    worker_step sample_hash [1] None (db4, fs4, Selected (sstReaders db4)) (db4, merged_fs4, Merged (sstReaders db4) rd its) \<and>
    reads_table sample_hash merged_fs4 rd (merged (rev ts4)) \<and> r_file rd = length (fs_data fs4)"
  "db_inv sample_hash db4 merged_fs4"
proof -
  let ?f = "sstReaders db4"
  have q: "quiet fs4" and ne: "?f \<noteq> []" by (simp_all add: fs4_def db4_def)
  have ok: "table_ok sample_hash (merged (rev ts4))" by (simp add: merged4 tab_ok)
  have lead: "names_lead fs4 ?f" using names4 by (simp add: names_live_def)
  have "last ?f \<in> set ?f" using ne by simp
  then have path: "table_path (dataDir db4) (r_path (last ?f))"
    and fresh: "map_of (fs_dir fs4) (tmp_name (r_path (last ?f)) 6) = None"
    using can_compact4 by (auto simp: can_compact_def)
  obtain rd its where mg: "compaction_merge sample_hash 6 (dataDir db4) ?f fs4 = Some (Inr (rd, its), merged_fs4)"
    "reads_table sample_hash merged_fs4 rd (merged (rev ts4))" "r_file rd = length (fs_data fs4)"
    using compaction_merge_quiet [OF q ne tables4 lead path fresh ok] unfolding merged_fs4_def by blast
  have "\<forall>tg. list_all2 (reads_table sample_hash fs4) ?f tg \<longrightarrow> table_ok sample_hash (merged (rev tg))"
    using tables_unique [OF tables4] ok by metis
  from w_merge [OF fresh this mg(1), of "[1]"] w_select [OF select4, of sample_hash "[1]"] ne mg(2,3)
  show "\<exists>rd its. worker_step sample_hash [1] None (db4, fs4, Idle) (db4, fs4, Selected ?f) \<and>
      worker_step sample_hash [1] None (db4, fs4, Selected ?f) (db4, merged_fs4, Merged ?f rd its) \<and>
      reads_table sample_hash merged_fs4 rd (merged (rev ts4)) \<and> r_file rd = length (fs_data fs4)" by auto
  show "db_inv sample_hash db4 merged_fs4"
    using keeps_Get(1) [OF inv4, of "{r_path (last ?f)}" merged_fs4]
    by (simp add: keeps_def merged_fs4_def nth_append new_table_dir [OF fresh])
qed


section \<open>A sequence of calls\<close>


text \<open>A purge of the database with four tables: no table is left, and the gauge says four or more.\<close>

theorem table_gauge_witness:
  "\<exists>db'' s'' g''. metered_Purge sample_hash sample_rnd sample_rnd 7 8 db4 fs4 \<lparr>MemtableSizeBytes = 0, SSTableCount = 4\<rparr> =
      Some (None, db'', s'', g'') \<and> sstReaders db'' = [] \<and> 4 \<le> SSTableCount g''"
proof -
  let ?g = "\<lparr>MemtableSizeBytes = 0, SSTableCount = 4\<rparr>"
  have four: "length (sstReaders db4) = 4" "Size (activeMemtable db4) = 0" "immutableMemtable db4 = None" "closed db4 = False"
    by (simp_all add: db4_def NewSkipList_def)
  have q: "quiet fs4" by (simp add: fs4_def)
  have fresh: "fresh_tmp 7 8 db4 fs4"
    by (simp add: fresh_tmp_def db4_def fs4_def sample_paths tmp_name_def)
      (simp add: sst_path_def filepath_Join_def sample_dir_def sst_name_def)
  have live: "wal_live db4 fs4" using durable4 by (simp add: durable_def)
  obtain r where scan: "ScanAll db4 fs4 = Some (r, fs4)" using ScanAll_quiet [OF inv4 tables4 q names4] by auto
  obtain db'' s'' where p: "Purge sample_hash sample_rnd sample_rnd 7 8 db4 fs4 = Some (None, db'', s'')"
    using Purge_quiet [OF inv4 q live fresh, of sample_rnd sample_rnd] four by (auto simp: nothing_to_flush_def)
  have m: "metered_Flush sample_hash sample_rnd 7 8 (db4\<lparr>closed := True\<rparr>) fs4 ?g = Some (None, db4\<lparr>closed := True\<rparr>, fs4, ?g)"
    using four by (simp add: metered_Flush_def Flush_rotate_def)
  moreover have "Flush sample_hash sample_rnd 7 8 (db4\<lparr>closed := True\<rparr>) fs4 = Some (None, db4\<lparr>closed := True\<rparr>, fs4)"
    using metered_Flush_same [of sample_hash sample_rnd 7 8 "db4\<lparr>closed := True\<rparr>" fs4 ?g, symmetric] m by simp
  ultimately have "\<exists>r1 db1 s1. metered_Close sample_hash sample_rnd 7 8 db4 fs4 ?g = Some (r1, db1, s1, ?g)"
    using four by (simp add: metered_Close_def StrataGo_Close_def split: prod.splits)
  then have mp: "metered_Purge sample_hash sample_rnd sample_rnd 7 8 db4 fs4 ?g = Some (None, db'', s'', ?g)"
    using p by (auto simp: metered_Purge_def)
  have "metered_calls sample_hash [CallScanAll] db4 fs4 ?g = Some (db4, fs4, ?g)" using scan by simp
  from table_gauge [OF this] mp four show ?thesis by (fastforce simp: is_purge_def)
qed

end
