(* ===== verification/Boot.thy ===== *)
theory Boot
  imports Node
begin

text \<open>
  The start of the process, \<^verbatim>\<open>main\<close> of \<^verbatim>\<open>src/main.go\<close> up to the point where the node is live:
  the flags and their defaults, the data directory, the engine, the stores and the transport of Raft, the
  Raft node, the management endpoint, bootstrapping or joining, the gRPC listener. The stores, the
  transport and the Raft node are third-party code and the network is not part of the program: their calls
  are the fields of a record, acting on a world \<open>'w\<close> of their own. Parsing the command line is left out: the flags
  are an argument.
\<close>

section \<open>Paths\<close>

text \<open>
  \<^verbatim>\<open>filepath.Join\<close> and \<^verbatim>\<open>filepath.Clean\<close>. The elements so far are kept in reverse; an element
  \<^verbatim>\<open>..\<close> takes the last one away, unless there is none.
\<close>

fun split_slash :: "string \<Rightarrow> string list" where
  "split_slash [] = [[]]"
| "split_slash (c # cs) =
     (if c = CHR ''/'' then [] # split_slash cs
      else (case split_slash cs of [] \<Rightarrow> [[c]] | e # es \<Rightarrow> (c # e) # es))"

fun join_slash :: "string list \<Rightarrow> string" where
  "join_slash [] = ''''"
| "join_slash [e] = e"
| "join_slash (e # es) = e @ ''/'' @ join_slash es"

definition clean_step :: "bool \<Rightarrow> string \<Rightarrow> string list \<Rightarrow> string list" where
  "clean_step rooted e out =
     (if e = '''' \<or> e = ''.'' then out
      else if e = ''..''
        then (case out of [] \<Rightarrow> if rooted then [] else [''..'']
              | x # xs \<Rightarrow> if x = ''..'' then ''..'' # out else xs)
      else e # out)"

definition Clean :: "string \<Rightarrow> string" where
  "Clean path =
     (let rooted = (path \<noteq> '''' \<and> hd path = CHR ''/'');
          body = join_slash (rev (fold (clean_step rooted) (split_slash path) []))
      in if rooted then ''/'' @ body else if body = '''' then ''.'' else body)"

definition path_Join :: "string list \<Rightarrow> string" where
  "path_Join elem = (case dropWhile (\<lambda>e. e = '''') elem of [] \<Rightarrow> '''' | es \<Rightarrow> Clean (join_slash es))"

section \<open>The start\<close>

record Flags =
  nodeID :: string
  raftPort :: int
  grpcPort :: int
  raftHost :: string
  joinAddr :: string

definition default_flags :: Flags where
  "default_flags = \<lparr>nodeID = ''node1'', raftPort = 7001, grpcPort = 8001, raftHost = ''127.0.0.1'', joinAddr = ''''\<rparr>"

text \<open>
  The calls into third-party code and the network. \<^verbatim>\<open>NewRaft\<close> is handed the state machine and may
  restore a snapshot into it. The errors of the HTTP server and of \<^verbatim>\<open>BootstrapCluster\<close> are not looked at.
\<close>

record 'w Sys =
  NewBoltStore :: "string \<Rightarrow> 'w \<Rightarrow> error option \<times> 'w"
  NewFileSnapshotStore :: "string \<Rightarrow> nat \<Rightarrow> 'w \<Rightarrow> error option \<times> 'w"
  ResolveTCPAddr :: "string \<Rightarrow> 'w \<Rightarrow> (error + string) \<times> 'w"
  NewTCPTransport :: "string \<Rightarrow> string \<Rightarrow> 'w \<Rightarrow> error option \<times> 'w"
  NewRaft :: "string \<Rightarrow> 'w \<Rightarrow> StrataFSM \<Rightarrow> fs \<Rightarrow> error option \<times> 'w \<times> StrataFSM \<times> fs"
  ListenAndServe :: "string \<Rightarrow> 'w \<Rightarrow> 'w"
  BootstrapCluster :: "(string \<times> string) list \<Rightarrow> 'w \<Rightarrow> 'w"
  net_Listen :: "string \<Rightarrow> 'w \<Rightarrow> error option \<times> 'w"

text \<open>\<^verbatim>\<open>log.Fatalf\<close> is \<open>Inl\<close>.\<close>

definition boot_dir :: "Flags \<Rightarrow> string" where
  "boot_dir f = path_Join [''data'', nodeID f]"

definition boot_engine ::
  "(nat \<Rightarrow> nat) \<Rightarrow> ((bytes \<times> slice) list \<Rightarrow> (bytes \<times> slice) list) \<Rightarrow> ((bytes \<times> slice) list \<Rightarrow> (bytes \<times> slice) list)
    \<Rightarrow> Flags \<Rightarrow> fs \<Rightarrow> ((error + StrataGo) \<times> fs) option" where
  "boot_engine rnd ord1 ord2 f s =
     (case os_MkdirAll (boot_dir f) s of
        (Some e, s1) \<Rightarrow> Some (Inl (Wrap ''Failed to create data directory'' e), s1)
      | (None, s1) \<Rightarrow>
          (case Open rnd ord1 ord2 (path_Join [boot_dir f, ''engine'']) s1 of
             None \<Rightarrow> None
           | Some (Inl e, s2) \<Rightarrow> Some (Inl (Wrap ''Failed to start StrataGo engine'' e), s2)
           | Some (Inr db, s2) \<Rightarrow> Some (Inr db, s2)))"

definition boot_stores :: "'w Sys \<Rightarrow> Flags \<Rightarrow> 'w \<Rightarrow> error option \<times> 'w" where
  "boot_stores sys f w =
     (case NewBoltStore sys (path_Join [boot_dir f, ''raft-log.bolt'']) w of
        (Some e, w1) \<Rightarrow> (Some (Wrap ''Failed to create Raft log store'' e), w1)
      | (None, w1) \<Rightarrow>
          (case NewBoltStore sys (path_Join [boot_dir f, ''raft-stable.bolt'']) w1 of
             (Some e, w2) \<Rightarrow> (Some (Wrap ''Failed to create Raft stable store'' e), w2)
           | (None, w2) \<Rightarrow>
               (case NewFileSnapshotStore sys (boot_dir f) 1 w2 of
                  (Some e, w3) \<Rightarrow> (Some (Wrap ''Failed to create Raft snapshot store'' e), w3)
                | (None, w3) \<Rightarrow> (None, w3))))"

definition boot_transport :: "'w Sys \<Rightarrow> Flags \<Rightarrow> 'w \<Rightarrow> error option \<times> 'w" where
  "boot_transport sys f w =
     (let bindAddr = ''0.0.0.0:'' @ Sprintf_d (raftPort f)
      in (case ResolveTCPAddr sys (advertiseAddr (raftHost f) (raftPort f)) w of
            (Inl e, w1) \<Rightarrow> (Some (Wrap ''Failed to resolve Raft TCP address'' e), w1)
          | (Inr tcpAddr, w1) \<Rightarrow>
              (case NewTCPTransport sys bindAddr tcpAddr w1 of
                 (Some e, w2) \<Rightarrow> (Some (Wrap ''Failed to create Raft TCP transport'' e), w2)
               | (None, w2) \<Rightarrow> (None, w2))))"

text \<open>The management endpoint: what it answers for a path.\<close>

definition management_handler ::
  "RaftState \<Rightarrow> (string \<Rightarrow> string \<Rightarrow> 'c \<Rightarrow> error option \<times> 'c) \<Rightarrow> string \<Rightarrow> string \<Rightarrow> string \<Rightarrow> 'c \<Rightarrow> nat \<times> 'c" where
  "management_handler st AddVoter path newID addr c =
     (if path = ''/status'' then (200, c)
      else if path = ''/join'' then join_handler st AddVoter newID addr c
      else (404, c))"

text \<open>Bootstrapping or joining; \<open>Some url\<close> is the loop that asks \<open>url\<close> to let the node join.\<close>

definition boot_cluster :: "'w Sys \<Rightarrow> Flags \<Rightarrow> 'w \<Rightarrow> (error + string option) \<times> 'w" where
  "boot_cluster sys f w =
     (let advertise = advertiseAddr (raftHost f) (raftPort f)
      in if joinAddr f = '''' then (Inr None, BootstrapCluster sys [(nodeID f, advertise)] w)
         else (case join_URL (joinAddr f) (nodeID f) advertise of
                 Inl e \<Rightarrow> (Inl e, w)
               | Inr joinURL \<Rightarrow> (Inr (Some joinURL), w)))"

record live_node =
  node_engine :: StrataGo
  node_server :: KVServer
  node_join :: "string option"
  node_monitor :: monitor

definition boot ::
  "(nat \<Rightarrow> nat) \<Rightarrow> ((bytes \<times> slice) list \<Rightarrow> (bytes \<times> slice) list) \<Rightarrow> ((bytes \<times> slice) list \<Rightarrow> (bytes \<times> slice) list)
    \<Rightarrow> 'w Sys \<Rightarrow> Flags \<Rightarrow> 'w \<Rightarrow> fs \<Rightarrow> ((error + live_node) \<times> 'w \<times> fs) option" where
  "boot rnd ord1 ord2 sys f w s =
     (case boot_engine rnd ord1 ord2 f s of
        None \<Rightarrow> None
      | Some (Inl e, s1) \<Rightarrow> Some (Inl e, w, s1)
      | Some (Inr db, s1) \<Rightarrow>
          (case boot_stores sys f w of
             (Some e, w1) \<Rightarrow> Some (Inl e, w1, s1)
           | (None, w1) \<Rightarrow>
               (case boot_transport sys f w1 of
                  (Some e, w2) \<Rightarrow> Some (Inl e, w2, s1)
                | (None, w2) \<Rightarrow>
                    (case NewRaft sys (nodeID f) w2 db s1 of
                       (Some e, w3, db1, s2) \<Rightarrow> Some (Inl (Wrap ''Failed to start Raft'' e), w3, s2)
                     | (None, w3, db1, s2) \<Rightarrow>
                         (let w4 = ListenAndServe sys ('':'' @ Sprintf_d (httpPort (raftPort f))) w3
                          in (case boot_cluster sys f w4 of
                                (Inl e, w5) \<Rightarrow> Some (Inl e, w5, s2)
                              | (Inr url, w5) \<Rightarrow>
                                  (case net_Listen sys ('':'' @ Sprintf_d (grpcPort f)) w5 of
                                     (Some e, w6) \<Rightarrow> Some (Inl (Wrap ''Failed to listen on gRPC port'' e), w6, s2)
                                   | (None, w6) \<Rightarrow>
                                       Some (Inr \<lparr>node_engine = db1, node_server = NewKVServer, node_join = url,
                                                  node_monitor = monitor_start\<rparr>,
                                             ListenAndServe sys ('':'' @ Sprintf_d (metricsPort (raftPort f))) w6,
                                             s2))))))))"

section \<open>Paths of plain elements\<close>

definition plain_elem :: "string \<Rightarrow> bool" where
  "plain_elem e \<longleftrightarrow> e \<notin> {'''', ''.'', ''..''} \<and> CHR ''/'' \<notin> set e"

lemma split_slash_plain: "CHR ''/'' \<notin> set e \<Longrightarrow> split_slash e = [e]"
  by (induction e) auto

lemma split_slash_append: "CHR ''/'' \<notin> set e \<Longrightarrow> split_slash (e @ CHR ''/'' # p) = e # split_slash p"
  by (induction e) auto

lemma split_join: "es \<noteq> [] \<Longrightarrow> \<forall>e \<in> set es. CHR ''/'' \<notin> set e \<Longrightarrow> split_slash (join_slash es) = es"
  by (induction es rule: join_slash.induct) (simp_all add: split_slash_plain split_slash_append)

lemma fold_clean_plain: "\<forall>e \<in> set es. plain_elem e \<Longrightarrow> fold (clean_step rooted) es out = rev es @ out"
  by (induction es arbitrary: out) (simp_all add: clean_step_def plain_elem_def)

lemma hd_join_slash: "es \<noteq> [] \<Longrightarrow> plain_elem (hd es) \<Longrightarrow> join_slash es \<noteq> '''' \<and> hd (join_slash es) = hd (hd es)"
  by (cases es rule: join_slash.cases) (auto simp: plain_elem_def)

lemma Clean_plain:
  assumes "es \<noteq> []" "\<forall>e \<in> set es. plain_elem e"
  shows "Clean (join_slash es) = join_slash es"
proof -
  have h: "plain_elem (hd es)" using assms by simp
  then have "hd (hd es) \<noteq> CHR ''/''" by (cases "hd es") (auto simp: plain_elem_def)
  with hd_join_slash [OF assms(1) h] show ?thesis
    using assms by (simp add: Clean_def Let_def split_join plain_elem_def [abs_def] fold_clean_plain [unfolded plain_elem_def])
qed

lemma path_Join_plain:
  assumes "es \<noteq> []" "\<forall>e \<in> set es. plain_elem e" "plain_elem n"
  shows "path_Join [join_slash es, n] = join_slash (es @ [n])"
proof -
  have "join_slash es \<noteq> ''''" using hd_join_slash [of es] assms(1,2) by auto
  moreover have "join_slash es @ ''/'' @ n = join_slash (es @ [n])"
    using assms(1) by (induction es rule: join_slash.induct) (auto split: list.splits)
  ultimately show ?thesis using Clean_plain [of "es @ [n]"] assms by (auto simp: path_Join_def)
qed

section \<open>A new node\<close>

abbreviation engine_dir :: "Flags \<Rightarrow> string" where
  "engine_dir f \<equiv> path_Join [boot_dir f, ''engine'']"

lemma engine_dir_plain:
  assumes "plain_elem (nodeID f)"
  shows "engine_dir f = ''data/'' @ nodeID f @ ''/engine''"
proof -
  have p: "plain_elem ''data''" "plain_elem ''engine''" by (simp_all add: plain_elem_def)
  then have "boot_dir f = join_slash [''data'', nodeID f]"
    using path_Join_plain [of "[''data'']" "nodeID f"] assms by (simp add: boot_dir_def)
  with path_Join_plain [of "[''data'', nodeID f]" "''engine''"] p assms show ?thesis by simp
qed

text \<open>Nodes with different plain identifiers keep their engines apart.\<close>

lemma engine_dirs_apart:
  assumes "plain_elem (nodeID f)" "plain_elem (nodeID g)" "in_tree (engine_dir f) n" "in_tree (engine_dir g) n"
  shows "nodeID f = nodeID g"
proof -
  have "takeWhile (\<lambda>c. c \<noteq> CHR ''/'') (drop 5 n) = nodeID h"
    if h: "plain_elem (nodeID h)" "in_tree (engine_dir h) n" for h
  proof -
    obtain q where "n = ''data/'' @ nodeID h @ ''/engine'' @ q"
      using h(2) by (auto simp: in_tree_def prefix_def engine_dir_plain [OF h(1)])
    with h(1) show ?thesis by (simp add: plain_elem_def takeWhile_tail takeWhile_append)
  qed
  with assms show ?thesis by metis
qed

text \<open>No call fails, and \<^verbatim>\<open>NewRaft\<close> finds no snapshot to restore.\<close>

definition raft_keeps :: "'w Sys \<Rightarrow> bool" where
  "raft_keeps sys \<longleftrightarrow> (\<forall>i w db s. snd (snd (NewRaft sys i w db s)) = (db, s))"

definition sys_up :: "'w Sys \<Rightarrow> bool" where
  "sys_up sys \<longleftrightarrow> (\<forall>p w. fst (NewBoltStore sys p w) = None) \<and> (\<forall>p n w. fst (NewFileSnapshotStore sys p n w) = None) \<and>
     (\<forall>a w. \<exists>t. fst (ResolveTCPAddr sys a w) = Inr t) \<and> (\<forall>b t w. fst (NewTCPTransport sys b t w) = None) \<and>
     (\<forall>i w db s. fst (NewRaft sys i w db s) = None) \<and> (\<forall>a w. fst (net_Listen sys a w) = None)"

lemma sys_up_calls:
  assumes "sys_up sys"
  shows "NewBoltStore sys p w = (None, snd (NewBoltStore sys p w))"
    "NewFileSnapshotStore sys p n w = (None, snd (NewFileSnapshotStore sys p n w))"
    "\<exists>t. ResolveTCPAddr sys a w = (Inr t, snd (ResolveTCPAddr sys a w))"
    "NewTCPTransport sys b t w = (None, snd (NewTCPTransport sys b t w))"
    "NewRaft sys i w db s = (None, snd (NewRaft sys i w db s))"
    "net_Listen sys a w = (None, snd (net_Listen sys a w))"
  using assms unfolding sys_up_def by (metis prod.collapse)+

lemma sys_up_stores:
  assumes "sys_up sys"
  shows "\<exists>w'. boot_stores sys f w = (None, w')"
proof -
  obtain w1 where w1: "NewBoltStore sys (path_Join [boot_dir f, ''raft-log.bolt'']) w = (None, w1)"
    using sys_up_calls(1) [OF assms] by blast
  obtain w2 where w2: "NewBoltStore sys (path_Join [boot_dir f, ''raft-stable.bolt'']) w1 = (None, w2)"
    using sys_up_calls(1) [OF assms] by blast
  obtain w3 where w3: "NewFileSnapshotStore sys (boot_dir f) 1 w2 = (None, w3)"
    using sys_up_calls(2) [OF assms] by blast
  from w1 w2 w3 show ?thesis by (simp add: boot_stores_def)
qed

lemma sys_up_transport:
  assumes "sys_up sys"
  shows "\<exists>w'. boot_transport sys f w = (None, w')"
proof -
  obtain t where t: "ResolveTCPAddr sys (advertiseAddr (raftHost f) (raftPort f)) w =
      (Inr t, snd (ResolveTCPAddr sys (advertiseAddr (raftHost f) (raftPort f)) w))"
    using sys_up_calls(3) [OF assms] by blast
  show ?thesis unfolding boot_transport_def Let_def by (subst t, simp, subst sys_up_calls(4) [OF assms], simp)
qed

lemma boot_up:
  assumes "sys_up sys" "raft_keeps sys" "boot_engine rnd ord1 ord2 f s = Some (Inr db, s1)"
  shows "\<exists>w4. boot rnd ord1 ord2 sys f w s =
    (case boot_cluster sys f w4 of
       (Inl e, w5) \<Rightarrow> Some (Inl e, w5, s1)
     | (Inr url, w5) \<Rightarrow>
         Some (Inr \<lparr>node_engine = db, node_server = NewKVServer, node_join = url, node_monitor = monitor_start\<rparr>,
           ListenAndServe sys ('':'' @ Sprintf_d (metricsPort (raftPort f)))
             (snd (net_Listen sys ('':'' @ Sprintf_d (grpcPort f)) w5)), s1))"
proof -
  obtain w1 where w1: "boot_stores sys f w = (None, w1)" using sys_up_stores [OF assms(1)] by blast
  obtain w2 where w2: "boot_transport sys f w1 = (None, w2)" using sys_up_transport [OF assms(1)] by blast
  obtain w3 where w3: "NewRaft sys (nodeID f) w2 db s1 = (None, w3, db, s1)"
    using sys_up_calls(5) [OF assms(1)] assms(2) unfolding raft_keeps_def by (metis prod.collapse)
  let ?w4 = "ListenAndServe sys ('':'' @ Sprintf_d (httpPort (raftPort f))) w3"
  obtain r w5 where w5: "boot_cluster sys f ?w4 = (r, w5)" by force
  obtain w6 where w6: "net_Listen sys ('':'' @ Sprintf_d (grpcPort f)) w5 = (None, w6)"
    using sys_up_calls(6) [OF assms(1)] by blast
  show ?thesis
    by (rule exI [of _ ?w4]) (use assms(3) w1 w2 w3 w5 w6 in \<open>cases r; simp add: boot_def Let_def\<close>)
qed

text \<open>A node that joins does not bootstrap.\<close>

lemma boot_no_bootstrap:
  assumes "joinAddr f \<noteq> ''''"
  shows "boot rnd ord1 ord2 (sys\<lparr>BootstrapCluster := bc\<rparr>) f w s = boot rnd ord1 ord2 sys f w s"
proof -
  have "boot_stores (sys\<lparr>BootstrapCluster := bc\<rparr>) = boot_stores sys"
    "boot_transport (sys\<lparr>BootstrapCluster := bc\<rparr>) = boot_transport sys"
    "boot_cluster (sys\<lparr>BootstrapCluster := bc\<rparr>) f = boot_cluster sys f"
    using assms by (simp_all add: fun_eq_iff boot_stores_def boot_transport_def boot_cluster_def
        cong: option.case_cong sum.case_cong prod.case_cong)
  then show ?thesis by (simp add: boot_def cong: option.case_cong sum.case_cong prod.case_cong)
qed

lemma boot_engine_fresh:
  assumes "quiet s" "fs_wf s" "\<forall>n. in_tree (engine_dir f) n \<longrightarrow> map_of (fs_dir s) n = None"
    and "\<forall>xs. mset (ord2 xs) = mset xs"
  shows "\<exists>db s1. boot_engine rnd ord1 ord2 f s = Some (Inr db, s1) \<and> durable murmur db s1 \<and> dataDir db = engine_dir f \<and>
    (\<forall>k. StrataGo_Get murmur k db s1 = Some None)"
proof -
  have "os_MkdirAll (boot_dir f) s = (None, s)" using assms(1) by (simp add: os_MkdirAll_def)
  with Open_fresh [OF assms, of rnd ord1 murmur] show ?thesis by (auto simp: boot_engine_def)
qed

text \<open>
  C26: a new node starts. With an identifier that is a plain file name, no engine files of its own and no
  failing call, the process goes live with an empty durable engine under \<^verbatim>\<open>data/<id>/engine\<close>. Without a
  join address it bootstraps a cluster of which it is the only server, at the address it advertises. With the
  address another node advertises it polls the management port of that node, and it never
  bootstraps: the start is the same whatever \<^verbatim>\<open>BootstrapCluster\<close> does. A join address without a port is fatal.
\<close>

theorem node_boots:
  assumes "plain_elem (nodeID f)" "quiet s" "fs_wf s" "sys_up sys" "raft_keeps sys"
    and "\<forall>n. in_tree (''data/'' @ nodeID f @ ''/engine'') n \<longrightarrow> map_of (fs_dir s) n = None"
    and "\<forall>xs. mset (ord2 xs) = mset xs"
  defines "adv \<equiv> advertiseAddr (raftHost f) (raftPort f)"
  shows "\<exists>db s'. durable murmur db s' \<and> dataDir db = ''data/'' @ nodeID f @ ''/engine'' \<and>
    (\<forall>k. StrataGo_Get murmur k db s' = Some None) \<and>
    (joinAddr f = '''' \<longrightarrow> (\<exists>w'. boot rnd ord1 ord2 sys f w s =
       Some (Inr \<lparr>node_engine = db, node_server = NewKVServer, node_join = None, node_monitor = monitor_start\<rparr>,
         ListenAndServe sys ('':'' @ Sprintf_d (metricsPort (raftPort f)))
           (snd (net_Listen sys ('':'' @ Sprintf_d (grpcPort f)) (BootstrapCluster sys [(nodeID f, adv)] w'))), s'))) \<and>
    (\<forall>host p. joinAddr f = advertiseAddr host p \<and> plain_host host \<and> 0 \<le> p \<and> p < 2 ^ 63 - 2000 \<longrightarrow>
       (\<exists>w'. boot rnd ord1 ord2 sys f w s =
         Some (Inr \<lparr>node_engine = db, node_server = NewKVServer,
           node_join = Some (''http://'' @ host @ '':'' @ Sprintf_d (httpPort p) @ ''/join?id='' @ nodeID f @ ''&addr='' @ adv),
           node_monitor = monitor_start\<rparr>, w', s'))) \<and>
    (joinAddr f \<noteq> '''' \<longrightarrow> boot rnd ord1 ord2 (sys\<lparr>BootstrapCluster := bc\<rparr>) f w s = boot rnd ord1 ord2 sys f w s) \<and>
    (joinAddr f \<noteq> '''' \<and> CHR '':'' \<notin> set (joinAddr f) \<longrightarrow> (\<exists>e w'. boot rnd ord1 ord2 sys f w s = Some (Inl e, w', s')))"
proof -
  from boot_engine_fresh [of s f ord2 rnd ord1 murmur] assms(2,3,6,7) obtain db s' where
    e: "boot_engine rnd ord1 ord2 f s = Some (Inr db, s')" "durable murmur db s'"
      "dataDir db = ''data/'' @ nodeID f @ ''/engine''" "\<forall>k. StrataGo_Get murmur k db s' = Some None"
    by (auto simp: engine_dir_plain [OF assms(1)])
  obtain w4 where b: "boot rnd ord1 ord2 sys f w s =
    (case boot_cluster sys f w4 of
       (Inl e, w5) \<Rightarrow> Some (Inl e, w5, s')
     | (Inr url, w5) \<Rightarrow>
         Some (Inr \<lparr>node_engine = db, node_server = NewKVServer, node_join = url, node_monitor = monitor_start\<rparr>,
           ListenAndServe sys ('':'' @ Sprintf_d (metricsPort (raftPort f)))
             (snd (net_Listen sys ('':'' @ Sprintf_d (grpcPort f)) w5)), s'))"
    using boot_up [OF assms(4,5) e(1)] by blast
  have join: "boot_cluster sys f w4 = (Inr (Some (''http://'' @ host @ '':'' @ Sprintf_d (httpPort p)
      @ ''/join?id='' @ nodeID f @ ''&addr='' @ adv)), w4)"
    if "joinAddr f = advertiseAddr host p" "plain_host host" "0 \<le> p" "p < 2 ^ 63 - 2000" for host p
    using that join_URL_advertised [OF that(2-4)] by (simp add: boot_cluster_def adv_def advertiseAddr_def)
  note boot_no_bootstrap [of f rnd ord1 ord2 bc sys w s]
  moreover have "\<exists>e w'. boot rnd ord1 ord2 sys f w s = Some (Inl e, w', s')"
    if "joinAddr f \<noteq> ''''" "CHR '':'' \<notin> set (joinAddr f)"
    using b that by (simp add: boot_cluster_def join_URL_def SplitHostPort_def LastIndexByte_def)
  moreover have "\<exists>w'. boot rnd ord1 ord2 sys f w s =
       Some (Inr \<lparr>node_engine = db, node_server = NewKVServer, node_join = None, node_monitor = monitor_start\<rparr>,
         ListenAndServe sys ('':'' @ Sprintf_d (metricsPort (raftPort f)))
           (snd (net_Listen sys ('':'' @ Sprintf_d (grpcPort f)) (BootstrapCluster sys [(nodeID f, adv)] w'))), s')"
    if "joinAddr f = ''''"
    using b that by (auto simp: boot_cluster_def adv_def)
  moreover have "\<exists>w'. boot rnd ord1 ord2 sys f w s =
         Some (Inr \<lparr>node_engine = db, node_server = NewKVServer,
           node_join = Some (''http://'' @ host @ '':'' @ Sprintf_d (httpPort p) @ ''/join?id='' @ nodeID f @ ''&addr='' @ adv),
           node_monitor = monitor_start\<rparr>, w', s')"
    if "joinAddr f = advertiseAddr host p \<and> plain_host host \<and> 0 \<le> p \<and> p < 2 ^ 63 - 2000" for host p
    using b join [of host p] that by simp
  ultimately show ?thesis using e(2-4) by blast
qed

section \<open>Stopping and starting again\<close>

text \<open>A flush does not look at whether the database is closed.\<close>

lemma Flush_rotate_closed:
  "Flush_rotate rnd (db\<lparr>closed := b\<rparr>) s = (case Flush_rotate rnd db s of (r, d, s') \<Rightarrow> (r, d\<lparr>closed := b\<rparr>, s'))"
  by (auto simp: Flush_rotate_def Let_def split: prod.splits option.splits sum.splits)

lemma recover_closed:
  "recoverFromFlushFailure e (db\<lparr>closed := b\<rparr>) s =
    map_option (\<lambda>(r, d, s'). (r, d\<lparr>closed := b\<rparr>, s')) (recoverFromFlushFailure e db s)"
  by (auto simp: recoverFromFlushFailure_def split: prod.splits option.splits)

lemma Flush_write_closed:
  "Flush_write murmur now1 now2 (db\<lparr>closed := b\<rparr>) s =
    map_option (\<lambda>(r, d, s'). (r, d\<lparr>closed := b\<rparr>, s')) (Flush_write murmur now1 now2 db s)"
  by (simp add: Flush_write_def Let_def recover_closed Flush_install_def split: prod.splits option.splits sum.splits)

lemma Flush_closed:
  "Flush murmur rnd now1 now2 (db\<lparr>closed := b\<rparr>) s =
    map_option (\<lambda>(r, d, s'). (r, d\<lparr>closed := b\<rparr>, s')) (Flush murmur rnd now1 now2 db s)"
  by (simp add: Flush_def Flush_rotate_closed Flush_write_closed split: prod.splits option.splits)

text \<open>What a clean \<^verbatim>\<open>Close\<close> leaves on disk is a durable database with the same lookups.\<close>

lemma Close_durable:
  assumes "durable murmur db s" "quiet s" "Size (activeMemtable db) = 0 \<or> can_flush murmur now1 now2 db s"
    and "length (fs_data s ! wal_file (db_wal db)) < 2 ^ 32"
  shows "\<exists>db1 s1 db'. StrataGo_Close murmur rnd now1 now2 db s = Some (None, db', s1) \<and>
    durable murmur db1 s1 \<and> quiet s1 \<and> dataDir db1 = dataDir db \<and> length (fs_data s1 ! wal_file (db_wal db1)) < 2 ^ 32 \<and>
    (\<forall>k. no_ghosts murmur [map plain (active_content db)] k \<longrightarrow>
      visible (StrataGo_Get murmur k db1 s1) = visible (StrataGo_Get murmur k db s))"
proof -
  have "\<exists>db1 s1. Flush murmur rnd now1 now2 db s = Some (None, db1, s1) \<and>
    durable murmur db1 s1 \<and> quiet s1 \<and> dataDir db1 = dataDir db \<and> length (fs_data s1 ! wal_file (db_wal db1)) < 2 ^ 32 \<and>
    (\<forall>k. no_ghosts murmur [map plain (active_content db)] k \<longrightarrow>
      visible (StrataGo_Get murmur k db1 s1) = visible (StrataGo_Get murmur k db s))"
  proof (cases "Size (activeMemtable db) = 0")
    case True
    moreover have "immutableMemtable db = None" using assms(1) by (simp add: durable_def)
    ultimately show ?thesis using assms by (simp add: Flush_def Flush_rotate_def)
  next
    case False
    with assms durable_flush [OF assms(1), of now1 now2 rnd] show ?thesis by (auto simp: no_ghosts_def map_of_plain)
  qed
  then obtain db1 s1 where f: "Flush murmur rnd now1 now2 db s = Some (None, db1, s1)" "durable murmur db1 s1" "quiet s1"
    "dataDir db1 = dataDir db" "length (fs_data s1 ! wal_file (db_wal db1)) < 2 ^ 32"
    "\<forall>k. no_ghosts murmur [map plain (active_content db)] k \<longrightarrow>
      visible (StrataGo_Get murmur k db1 s1) = visible (StrataGo_Get murmur k db s)" by blast
  have "\<not> closed db" "wal_open (db_wal db1)" "\<exists>ts. db_tables murmur s1 db1 ts"
    using assms(1) f(2) by (auto simp: durable_def wal_live_def db_inv_def)
  with f(1,3) have "\<exists>db'. StrataGo_Close murmur rnd now1 now2 db s = Some (None, db', s1)"
    by (auto simp: StrataGo_Close_def Flush_closed WAL_Close_def file_Close_quiet close_readers_quiet)
  with f show ?thesis by blast
qed

lemma boot_engine_again:
  assumes "durable murmur db s" "quiet s" "dataDir db = engine_dir f" "\<forall>xs. mset (ord2 xs) = mset xs"
    and "length (fs_data s ! wal_file (db_wal db)) < 2 ^ 32"
  shows "\<exists>db'. boot_engine rnd ord1 ord2 f s = Some (Inr db', s) \<and> durable murmur db' s \<and> dataDir db' = dataDir db \<and>
    (\<forall>k. visible (StrataGo_Get murmur k db' s) = visible (StrataGo_Get murmur k db s))"
proof -
  have mk: "os_MkdirAll (boot_dir f) s = (None, s)" using assms(2) by (simp add: os_MkdirAll_def)
  obtain db' where o: "Open rnd ord1 ord2 (dataDir db) s = Some (Inr db', s)" "durable murmur db' s" "dataDir db' = dataDir db"
    "\<forall>k. StrataGo_Get murmur k db' s =
       (if map_of (active_content db) k = Some None then Some (Some []) else StrataGo_Get murmur k db s)"
    using Open_again [OF assms(1,2,4,5), of rnd ord1] by blast
  have "visible (StrataGo_Get murmur k db' s) = visible (StrataGo_Get murmur k db s)" for k
    using o(4) Get_tombstone [OF assms(1), of k] by (simp add: visible_def value_of_def)
  with o mk assms(3) show ?thesis by (simp add: boot_engine_def)
qed

lemma boot_any:
  assumes "boot_engine rnd ord1 ord2 f s = Some (Inr db, s1)" "raft_keeps sys"
  shows "\<exists>r w'. boot rnd ord1 ord2 sys f w s = Some (r, w', s1) \<and> (\<forall>n. r = Inr n \<longrightarrow> node_engine n = db)"
proof -
  obtain e1 w1 where w1: "boot_stores sys f w = (e1, w1)" by force
  obtain e2 w2 where w2: "boot_transport sys f w1 = (e2, w2)" by force
  obtain e3 w3 where w3: "NewRaft sys (nodeID f) w2 db s1 = (e3, w3, db, s1)"
    using assms(2) unfolding raft_keeps_def by (metis prod.collapse)
  let ?w4 = "ListenAndServe sys ('':'' @ Sprintf_d (httpPort (raftPort f))) w3"
  obtain r w5 where w5: "boot_cluster sys f ?w4 = (r, w5)" by force
  obtain e6 w6 where w6: "net_Listen sys ('':'' @ Sprintf_d (grpcPort f)) w5 = (e6, w6)" by force
  show ?thesis
    using assms(1) w1 w2 w3 w5 w6
    by (cases e1; cases e2; cases e3; cases r; cases e6) (auto simp add: boot_def Let_def)
qed


end
