(* ===== verification/BootSamples.thy ===== *)
theory BootSamples
  imports Samples Boot
begin

text \<open>
  A node \<^verbatim>\<open>n1\<close> whose third-party calls all succeed; its world is the list of the calls made. The
  theorems about starting and stopping are applied to it.
\<close>

definition flags1 :: Flags where
  "flags1 = default_flags\<lparr>nodeID := ''n1''\<rparr>"

definition sys1 :: "string list Sys" where
  "sys1 = \<lparr>NewBoltStore = \<lambda>p w. (None, w @ [p]), NewFileSnapshotStore = \<lambda>p n w. (None, w @ [p]),
     ResolveTCPAddr = \<lambda>a w. (Inr a, w), NewTCPTransport = \<lambda>b t w. (None, w @ [b, t]),
     NewRaft = \<lambda>i w db s. (None, w @ [i], db, s), ListenAndServe = \<lambda>a w. w @ [a],
     BootstrapCluster = \<lambda>c w. w @ map snd c, net_Listen = \<lambda>a w. (None, w @ [a])\<rparr>"

lemma sys1_up: "sys_up sys1" "raft_keeps sys1"
  by (simp_all add: sys_up_def raft_keeps_def sys1_def)

lemma flags1_simps [simp]: "nodeID flags1 = ''n1''" "joinAddr flags1 = ''''"
  by (simp_all add: flags1_def default_flags_def)

lemma plain1: "plain_elem (nodeID flags1)"
  by (simp add: plain_elem_def)

theorem node_boots_witness:
  "\<exists>n w' s'. boot sample_rnd id id sys1 flags1 [] \<lparr>fs_dir = [], fs_data = [], fs_faults = []\<rparr> = Some (Inr n, w', s') \<and>
    durable sample_hash (node_engine n) s' \<and> node_join n = None \<and> advertiseAddr ''127.0.0.1'' 7001 \<in> set w'"
proof -
  have "quiet \<lparr>fs_dir = [], fs_data = [], fs_faults = []\<rparr>" "fs_wf \<lparr>fs_dir = [], fs_data = [], fs_faults = []\<rparr>"
    by (simp_all add: fs_wf_def)
  from node_boots [OF plain1 this sys1_up, of id sample_hash sample_rnd id "[]" "BootstrapCluster sys1"]
  obtain db s' w' where "durable sample_hash db s'"
    "boot sample_rnd id id sys1 flags1 [] \<lparr>fs_dir = [], fs_data = [], fs_faults = []\<rparr> =
       Some (Inr \<lparr>node_engine = db, node_server = NewKVServer, node_join = None, node_monitor = monitor_start\<rparr>,
         ListenAndServe sys1 ('':'' @ Sprintf_d (metricsPort (raftPort flags1)))
           (snd (net_Listen sys1 ('':'' @ Sprintf_d (grpcPort flags1))
             (BootstrapCluster sys1 [(nodeID flags1, advertiseAddr (raftHost flags1) (raftPort flags1))] w'))), s')"
    by auto
  moreover have "advertiseAddr ''127.0.0.1'' 7001 \<in> set (ListenAndServe sys1 ('':'' @ Sprintf_d (metricsPort (raftPort flags1)))
           (snd (net_Listen sys1 ('':'' @ Sprintf_d (grpcPort flags1))
             (BootstrapCluster sys1 [(nodeID flags1, advertiseAddr (raftHost flags1) (raftPort flags1))] w'))))"
    by (simp add: sys1_def flags1_def default_flags_def)
  ultimately show ?thesis by auto
qed


end
