(* ===== verification/Spec2Isabelle.thy ===== *)
theory Spec2Isabelle
  imports ReplicaSamples CompactionSamples BootSamples
begin

text \<open>
  StrataGo is a replicated key-value store: a log-structured storage engine on every node, a Raft
  state machine on top of it, a gRPC server in front, and a command line client.

  \<^bold>\<open>The program and the theories.\<close> Each theory names the files it models; definitions keep the
  names of the Go functions, a method \<^verbatim>\<open>T.M\<close> being \<^verbatim>\<open>T_M\<close> where \<^verbatim>\<open>M\<close> alone is taken.

  \<^item> \<^verbatim>\<open>Prelude\<close>: bytes, words and slices, \<^verbatim>\<open>encoding/binary\<close> and \<^verbatim>\<open>io.ReadFull\<close>,
    sorted association lists, and the interfaces as locales: \<^verbatim>\<open>ordered_store\<close> (a memtable),
    \<^verbatim>\<open>kv_store\<close> (the engine as the state machine sees it), \<^verbatim>\<open>framing\<close> and
    \<^verbatim>\<open>framed_loop\<close> (logs of self-delimiting records). \<^verbatim>\<open>Files\<close>: the part of \<^verbatim>\<open>os\<close>
    the engine uses, with a schedule of faults.
  \<^item> \<^verbatim>\<open>SkipList\<close> (\<^verbatim>\<open>src/engine/memtable/skiplist.go\<close>): the linked list in a store of
    nodes; well-formedness, \<^verbatim>\<open>Put\<close>, \<^verbatim>\<open>Get\<close> and the iterator against sorted lists.
  \<^item> \<^verbatim>\<open>Wal\<close> (\<^verbatim>\<open>src/engine/wal/wal.go\<close>): records with CRC-32, appending, recovery.
    \<^verbatim>\<open>WalBuffers\<close>: the pool of buffers in which the records are assembled, and that it makes no difference.
  \<^item> \<^verbatim>\<open>Bloom\<close>, \<^verbatim>\<open>Builder\<close>, \<^verbatim>\<open>Reader\<close>, \<^verbatim>\<open>Merge\<close>
    (\<^verbatim>\<open>src/engine/sstable/\<close>): the filter, writing and reading a table, the merge on
    \<^verbatim>\<open>container/heap\<close> (locale \<^verbatim>\<open>priority_queue\<close>).
  \<^item> \<^verbatim>\<open>Engine\<close> (\<^verbatim>\<open>stratago.go\<close>, \<^verbatim>\<open>flush.go\<close>, \<^verbatim>\<open>inspect.go\<close> under
    \<^verbatim>\<open>src/engine/\<close>): every operation and the invariant; \<^verbatim>\<open>Flushing\<close>,
    \<^verbatim>\<open>Lifecycle\<close>, \<^verbatim>\<open>Interleaving\<close>, \<^verbatim>\<open>Recovery\<close>,
    \<^verbatim>\<open>Durability\<close>: flushes and scans, failures, closing and purging, writes between the phases
    of a flush, crash and reopening, and the refinement of a map. \<^verbatim>\<open>Faults\<close>: building and reading a table,
    the log and a flush under every fault schedule. \<^verbatim>\<open>Ghosts\<close>: a lookup that finds a key nobody wrote.
  \<^item> \<^verbatim>\<open>Compaction\<close> (\<^verbatim>\<open>src/engine/compaction.go\<close>): choosing, merging and replacing tables, in three
    phases. \<^verbatim>\<open>Compacting\<close>: the phases under every fault schedule; \<^verbatim>\<open>CompactionWorker\<close>: a step relation
    in which they are interleaved with writes and flushes; \<^verbatim>\<open>CompactionLoss\<close>: what a compaction loses.
    \<^verbatim>\<open>FsTypes\<close>: what every call of the engine keeps of the file system (locale \<^verbatim>\<open>os_invariant\<close>,
    interpreted three times).
  \<^item> \<^verbatim>\<open>Fsm\<close> (\<^verbatim>\<open>src/consensus/fsm.go\<close>): applying the log, snapshots, restoring.
    \<^verbatim>\<open>Address\<close> and \<^verbatim>\<open>KvServer\<close> (\<^verbatim>\<open>src/server/kv_server.go\<close>): addresses, the
    connection cache, the handlers. \<^verbatim>\<open>Cli\<close> (\<^verbatim>\<open>src/cmd/cli/main.go\<close>) and \<^verbatim>\<open>Node\<close>
    (\<^verbatim>\<open>src/main.go\<close>): the commands; ports, joining, the state monitor, shutdown. \<^verbatim>\<open>Boot\<close>: the
    start of the process, and stopping and starting a node.
  \<^item> \<^verbatim>\<open>Cluster\<close>: the state machines and engines of all nodes under one committed log, as a step relation in
    which commits, deliveries, flushes, crashes, snapshots and restores of the nodes are interleaved.
    \<^verbatim>\<open>Metrics\<close> (\<^verbatim>\<open>src/metrics/metrics.go\<close>): the operations of the engine with the gauges they set,
    the handlers with the latencies they observe.
  \<^item> \<^verbatim>\<open>Samples\<close>, \<^verbatim>\<open>ClusterSamples\<close>, \<^verbatim>\<open>ReplicaSamples\<close>, \<^verbatim>\<open>CompactionSamples\<close> and
    \<^verbatim>\<open>BootSamples\<close>: concrete databases, codecs, servers, clusters and nodes, and the theorems instantiated on them.

  \<^bold>\<open>How state and effects are modelled.\<close> A \<^verbatim>\<open>[]byte\<close> is a \<open>slice\<close>, an optional list of
  bytes, \<open>None\<close> being \<^verbatim>\<open>nil\<close>; sizes and offsets keep their 32 and 64 bits where the code
  computes in them. The engine is the record \<open>StrataGo\<close>; its operations take and return it with the
  file system. \<open>None\<close> as a result is a panic, \<open>Inl\<close> or \<open>Some\<close> an error. A fault schedule decides which
  system calls fail, and after how many bytes a write is cut; opening, creating, renaming, removing,
  writing, syncing, closing and \<^verbatim>\<open>Stat\<close> by name can fail, reading and examining a file that
  is already open cannot. Time, random streams and the order of \<^verbatim>\<open>range\<close> loops over maps are
  arguments, so the theorems hold for all of them. Engine operations and requests are atomic steps;
  \<^verbatim>\<open>Flush\<close>, \<^verbatim>\<open>RunCompaction\<close> and \<^verbatim>\<open>getLeaderClient\<close> are composed of their locked and unlocked
  phases. \<^verbatim>\<open>log.Fatalf\<close> ends the start of the process with \<open>Inl\<close>.

  \<^bold>\<open>What is shown.\<close> The memtable and the log implement sorted maps and sequences of records, whatever
  levels are drawn and wherever a crash cuts the file. A table gives back what was put in, the merge
  keeps the newest value, the filter loses no key. The engine refines a map along writes, flushes and
  crashes; writes that run while a flush writes its table, or beside the phases of a compaction, are neither
  lost nor overtaken; an acknowledged write is durable under every fault schedule. A flush and a compaction
  return and keep the invariant under every fault schedule, and what they do to the lookups is stated for every
  result; a compaction of neighbours changes none. The file system stays well formed along any sequence of calls. A
  node that is stopped and started again answers as before. A cluster refines its committed log: a node that has been handed all of it
  finds what the last write of a key says, whatever crashes, snapshots and restores lie behind it. A write the leader
  acknowledged is in its engine, and a forwarded one has the leader's answer; at most one connection is
  open. The gauge of the tables is their number, but after a purge, and every request is observed and counted once. Several theorems state where the code does not do what it means to: deleted keys that come
  back empty, a compaction that removes its output or makes an older value win, a key found that nobody wrote, a
  failed flush that hides its entries, writes lost behind a torn record, deletions reported as done that were refused, a closed connection in the cache,
  a strong read on a leader that has not applied the log yet, a node that goes on after a failed write the others took.

  \<^bold>\<open>Bounds and assumptions.\<close> All loops terminate by a measure, except the one in which a node asks to
  join, a partial function that is shown to return on the first success. A log is below 4 GiB, where
  \<^verbatim>\<open>validOffset\<close> is exact; a record of a table is below 4 GiB, a table below \<open>2 ^ 63\<close>
  bytes with at most \<open>4 * 10 ^ 8\<close> keys, so that the bit count of the filter fits in 32 bits. A
  lookup of an absent key may run into the filter block of a table; \<open>ghost\<close> names what it then
  finds, and statements about tables exclude such keys (\<open>no_ghosts\<close>, \<open>settled\<close>). Third-party code is
  a parameter: murmur3, protocol buffers (\<open>proto_entry_law\<close>, \<open>proto_command_law\<close>), the snapshot sink
  (\<open>sink_law\<close>; all of them in \<open>parts_law\<close>), Raft (\<open>raft_apply_law\<close>, \<open>raft_keeps\<close>, and for a cluster the steps of
  \<open>cluster_step\<close>) and gRPC (the record \<open>Env\<close>), the stores and the network at
  the start (the record \<open>Sys\<close>).

  \<^bold>\<open>Not modelled.\<close> Parsing the command line in \<^verbatim>\<open>main.go\<close> and, with cobra, in the client, the Prometheus
  registry and its endpoint, deadlines, the lines printed and the generated protocol code have no
  logic of the program's own; Raft itself is third-party code. Locks are not modelled: what concurrent operations can
  do to each other beyond the interleaving of the phases of a flush and of a compaction is outside the model.
\<close>

end
